(* ===== verification/Prelude.thy ===== *)
theory Prelude
  imports Main "HOL-Library.Word" "HOL-Library.Sublist" "HOL-Library.Monad_Syntax"
begin

text \<open>
  Shared vocabulary of the clsync development: the machine types of the C++ sources, the
  collections of facts the component proofs use, the functions of the C and C++ standard
  library that several components call (character classes, \<open>std::to_string\<close>,
  \<open>std::stoull\<close>, \<open>std::string::find\<close>), the fold of a partial step, and two interfaces: a
  transition system with an invariant, and a simulation of one such system by another.

  The platform is the one the repository's CI builds on: Linux, LP64 (\<open>unsigned int\<close> has
  32 bits; \<open>long\<close>, \<open>unsigned long\<close>, \<open>std::size_t\<close>, \<open>std::uintmax_t\<close> have 64), the
  \<open>"C"\<close> locale.
\<close>

section \<open>Machine types and collections of facts\<close>

type_synonym byte = "8 word"
type_synonym u32 = "32 word"
type_synonym u64 = "64 word"

named_theorems frame_simps \<open>fields of a state that an operation leaves alone\<close>
named_theorems inv_intros \<open>preservation of a component's invariant by its operations\<close>

lemma unat_u32_less: "unat x < 4294967296" for x :: u32
proof -
  have "unat x < 2 ^ LENGTH(32)" by (rule unsigned_less)
  then show ?thesis by simp
qed

lemma unat_u64_less: "unat x < 2 ^ 64" for x :: u64
proof -
  have "unat x < 2 ^ LENGTH(64)" by (rule unsigned_less)
  then show ?thesis by simp
qed

section \<open>Characters\<close>

text \<open>
  The \<open>"C"\<close> locale versions of \<open>std::isspace\<close>, \<open>std::isdigit\<close>, \<open>std::isxdigit\<close> and
  \<open>std::tolower\<close>, which the sources always call on an \<open>unsigned char\<close>.
\<close>

definition isspace :: "char \<Rightarrow> bool" where
  "isspace c \<longleftrightarrow> c = CHR '' '' \<or> c = CHR 0x09 \<or> c = CHR 0x0A \<or> c = CHR 0x0B
                 \<or> c = CHR 0x0C \<or> c = CHR 0x0D"

definition isdigit :: "char \<Rightarrow> bool" where
  "isdigit c \<longleftrightarrow> 48 \<le> (of_char c :: nat) \<and> (of_char c :: nat) \<le> 57"

definition isxdigit :: "char \<Rightarrow> bool" where
  "isxdigit c \<longleftrightarrow> isdigit c \<or> (65 \<le> (of_char c :: nat) \<and> (of_char c :: nat) \<le> 70)
                  \<or> (97 \<le> (of_char c :: nat) \<and> (of_char c :: nat) \<le> 102)"

definition tolower :: "char \<Rightarrow> char" where
  "tolower c = (let n = (of_char c :: nat)
                in if 65 \<le> n \<and> n \<le> 90 then char_of (n + 32) else c)"

lemma of_char_less_256 [simp]: "(of_char c :: nat) < 256"
  by (metis nat_of_char_less_256)

lemma of_char_char_of_small [simp]: "n < 256 \<Longrightarrow> (of_char (char_of n :: char) :: nat) = n"
  by simp

lemma tolower_idem [simp]: "tolower (tolower c) = tolower c"
  by (auto simp: tolower_def Let_def)

lemma isspace_not_digit: "isspace c \<Longrightarrow> \<not> isdigit c"
  by (auto simp: isspace_def isdigit_def)

section \<open>Numbers and their decimal text\<close>

text \<open>\<open>std::to_string\<close> of an unsigned and of a signed integer.\<close>

definition digit_char :: "nat \<Rightarrow> char" where
  "digit_char d = char_of (48 + d)"

fun to_string :: "nat \<Rightarrow> string" where
  "to_string n = (if n < 10 then [digit_char n]
                  else to_string (n div 10) @ [digit_char (n mod 10)])"

declare to_string.simps [simp del]

definition to_string_signed :: "int \<Rightarrow> string" where
  "to_string_signed z = (if z < 0 then CHR ''-'' # to_string (nat (- z)) else to_string (nat z))"

definition digit_val :: "char \<Rightarrow> nat" where
  "digit_val c = of_char c - 48"

lemma of_char_digit_char [simp]: "d < 10 \<Longrightarrow> (of_char (digit_char d) :: nat) = 48 + d"
  by (simp add: digit_char_def)

lemma isdigit_digit_char [simp]: "d < 10 \<Longrightarrow> isdigit (digit_char d)"
  by (simp add: isdigit_def)

lemma digit_val_digit_char [simp]: "d < 10 \<Longrightarrow> digit_val (digit_char d) = d"
  by (simp add: digit_val_def)

lemma to_string_nonempty [simp]: "to_string n \<noteq> []"
  by (subst to_string.simps) simp

lemma to_string_digits: "\<forall>c\<in>set (to_string n). isdigit c"
proof (induction n rule: to_string.induct)
  case (1 n)
  show ?case
  proof (cases "n < 10")
    case True
    then show ?thesis by (subst to_string.simps) simp
  next
    case False
    with 1 show ?thesis by (subst to_string.simps) auto
  qed
qed

text \<open>The value of a run of decimal digits, most significant first.\<close>

definition digits_value :: "string \<Rightarrow> nat" where
  "digits_value ds = foldl (\<lambda>a c. 10 * a + digit_val c) 0 ds"

lemma digits_value_snoc [simp]:
  "digits_value (ds @ [c]) = 10 * digits_value ds + digit_val c"
  by (simp add: digits_value_def)

lemma digits_value_to_string [simp]: "digits_value (to_string n) = n"
proof (induction n rule: to_string.induct)
  case (1 n)
  show ?case
  proof (cases "n < 10")
    case True
    then show ?thesis by (subst to_string.simps) (simp add: digits_value_def)
  next
    case False
    with 1 show ?thesis by (subst to_string.simps) simp
  qed
qed

text \<open>
  \<open>std::stoull\<close> and \<open>std::stoul\<close> (both 64-bit here), base 10: leading white space, one
  optional sign, then digits. No digit throws \<open>std::invalid_argument\<close>; a magnitude above
  \<open>2 ^ 64 - 1\<close> throws \<open>std::out_of_range\<close>; a minus sign negates the value in the unsigned
  return type. The second component of the result is what the function stores in \<open>*pos\<close>.
\<close>

datatype std_exception = Invalid_Argument | Out_Of_Range

definition stoull :: "string \<Rightarrow> std_exception + u64 \<times> nat" where
  "stoull s =
     (let sp = takeWhile isspace s; r = dropWhile isspace s;
          neg = (r \<noteq> [] \<and> hd r = CHR ''-'');
          sgn = (neg \<or> (r \<noteq> [] \<and> hd r = CHR ''+''));
          r' = (if sgn then tl r else r);
          ds = takeWhile isdigit r'; v = digits_value ds
      in if ds = [] then Inl Invalid_Argument
         else if v \<ge> 2 ^ 64 then Inl Out_Of_Range
         else Inr (if neg then - of_nat v else of_nat v,
                   length sp + (if sgn then 1 else 0) + length ds))"

lemma stoull_pos_le: "stoull s = Inr (v, pos) \<Longrightarrow> pos \<le> length s"
proof -
  assume a: "stoull s = Inr (v, pos)"
  have l: "length (takeWhile isspace s) + length (dropWhile isspace s) = length s"
    by (metis length_append takeWhile_dropWhile_id)
  have "length (takeWhile isdigit r) \<le> length r" for r
    by (rule length_takeWhile_le)
  from this[of "tl (dropWhile isspace s)"] this[of "dropWhile isspace s"] a l show ?thesis
    by (cases "dropWhile isspace s") (auto simp: stoull_def Let_def split: if_splits)
qed

lemma stoull_to_string:
  assumes "n < 2 ^ 64"
  shows "stoull (to_string n) = Inr (of_nat n, length (to_string n))"
proof -
  obtain c cs where s: "to_string n = c # cs" by (cases "to_string n") auto
  have d: "\<forall>x\<in>set (to_string n). isdigit x" by (rule to_string_digits)
  then have "isdigit c" using s by simp
  then have "\<not> isspace c" "c \<noteq> CHR ''-''" "c \<noteq> CHR ''+''"
    using isspace_not_digit by (auto simp: isdigit_def)
  moreover have "takeWhile isdigit (to_string n) = to_string n"
    using d by (simp add: takeWhile_eq_all_conv)
  moreover have "digits_value (c # cs) = n" by (metis s digits_value_to_string)
  ultimately show ?thesis using assms by (simp add: stoull_def s)
qed

section \<open>Strings\<close>

text \<open>
  \<open>std::string::find\<close> of a pattern: the least position it occurs at, \<open>None\<close> for \<open>npos\<close>.
\<close>

fun str_find :: "string \<Rightarrow> string \<Rightarrow> nat option" where
  "str_find p [] = (if p = [] then Some 0 else None)"
| "str_find p (c # s) = (if prefix p (c # s) then Some 0 else map_option Suc (str_find p s))"

lemma str_find_sublist: "str_find p s \<noteq> None \<longleftrightarrow> sublist p s"
proof (induction s)
  case Nil
  then show ?case by auto
next
  case (Cons c s)
  then show ?case by (auto simp: sublist_Cons_right)
qed

abbreviation contains_str :: "string \<Rightarrow> string \<Rightarrow> bool" where
  "contains_str s p \<equiv> str_find p s \<noteq> None"

section \<open>Folding a partial step\<close>

text \<open>Running a partial step over a list: \<open>None\<close> at the first step that fails.\<close>

fun foldM :: "('a \<Rightarrow> 's \<Rightarrow> 's option) \<Rightarrow> 'a list \<Rightarrow> 's \<Rightarrow> 's option" where
  "foldM f [] s = Some s"
| "foldM f (x # xs) s = Option.bind (f x s) (foldM f xs)"

lemma foldM_append: "foldM f (xs @ ys) s = Option.bind (foldM f xs s) (foldM f ys)"
  by (induction xs arbitrary: s) (auto split: bind_splits)

lemma foldM_total:
  assumes "\<And>x s. invar s \<Longrightarrow> \<exists>s'. f x s = Some s' \<and> invar s'" and "invar s"
  shows "\<exists>s'. foldM f xs s = Some s' \<and> invar s'"
  using assms(2)
proof (induction xs arbitrary: s)
  case Nil
  then show ?case by simp
next
  case (Cons x xs)
  then obtain s1 where "f x s = Some s1" "invar s1" using assms(1) by blast
  then show ?case using Cons.IH[of s1] by simp
qed

section \<open>Sequences\<close>

text \<open>A sequence whose every change lowers a number changes only so often.\<close>

lemma changes_bounded:
  fixes f :: "nat \<Rightarrow> 'a" and rank :: "'a \<Rightarrow> nat"
  assumes "\<And>k. f (Suc k) \<noteq> f k \<Longrightarrow> rank (f (Suc k)) < rank (f k)"
  shows "finite {k. f (Suc k) \<noteq> f k} \<and> card {k. f (Suc k) \<noteq> f k} \<le> rank (f 0)"
proof -
  let ?C = "{k. f (Suc k) \<noteq> f k}"
  have upto: "card {k \<in> ?C. k < n} + rank (f n) \<le> rank (f 0)" for n
  proof (induction n)
    case (Suc n)
    show ?case
    proof (cases "f (Suc n) = f n")
      case True
      then have "{k \<in> ?C. k < Suc n} = {k \<in> ?C. k < n}" by (auto simp: less_Suc_eq)
      then show ?thesis using Suc True by simp
    next
      case False
      then have "{k \<in> ?C. k < Suc n} = insert n {k \<in> ?C. k < n}" by (auto simp: less_Suc_eq)
      then show ?thesis using Suc assms[OF False] by simp
    qed
  qed simp
  have small: "card A \<le> rank (f 0)" if "finite A" "A \<subseteq> ?C" for A
  proof -
    obtain n where "\<forall>k\<in>A. k < n" using \<open>finite A\<close> by (metis finite_nat_set_iff_bounded)
    then have "A \<subseteq> {k \<in> ?C. k < n}" using that(2) by auto
    then have "card A \<le> card {k \<in> ?C. k < n}" by (intro card_mono) auto
    then show ?thesis using upto[of n] by simp
  qed
  have "finite ?C"
  proof (rule ccontr)
    assume "infinite ?C"
    then obtain A where "finite A" "card A = Suc (rank (f 0))" "A \<subseteq> ?C" using infinite_arbitrarily_large by blast
    then show False using small by fastforce
  qed
  then show ?thesis using small by blast
qed

section \<open>Transition systems with an invariant\<close>

inductive reachable :: "('s \<Rightarrow> bool) \<Rightarrow> ('s \<Rightarrow> 's \<Rightarrow> bool) \<Rightarrow> 's \<Rightarrow> bool"
  for init :: "'s \<Rightarrow> bool" and step :: "'s \<Rightarrow> 's \<Rightarrow> bool"
  where
    reachable_init: "init s \<Longrightarrow> reachable init step s"
  | reachable_step: "reachable init step s \<Longrightarrow> step s t \<Longrightarrow> reachable init step t"

text \<open>
  The interface of a component with state: how it starts, its atomic steps, and an
  invariant that the start establishes and every step keeps.
\<close>

locale invariant_system =
  fixes init :: "'s \<Rightarrow> bool"
    and step :: "'s \<Rightarrow> 's \<Rightarrow> bool"
    and invar :: "'s \<Rightarrow> bool"
  assumes inv_init: "init s \<Longrightarrow> invar s"
    and inv_step: "invar s \<Longrightarrow> step s t \<Longrightarrow> invar t"
begin

lemma inv_reachable: "reachable init step s \<Longrightarrow> invar s"
  by (induction rule: reachable.induct) (auto intro: inv_init inv_step)

lemma inv_steps: "step\<^sup>*\<^sup>* s t \<Longrightarrow> invar s \<Longrightarrow> invar t"
  by (induction rule: rtranclp_induct) (auto intro: inv_step)

lemma stable_steps:
  assumes stable: "\<And>a b. invar a \<Longrightarrow> step a b \<Longrightarrow> P a \<Longrightarrow> P b"
  shows "step\<^sup>*\<^sup>* s t \<Longrightarrow> invar s \<Longrightarrow> P s \<Longrightarrow> P t"
proof (induction rule: rtranclp_induct)
  case base
  then show ?case by simp
next
  case (step y z)
  then show ?case using stable inv_steps by blast
qed

end

text \<open>
  A system whose steps are sequences of steps of a more abstract one, seen through \<open>abs\<close>: what it
  reaches, the abstract one reaches.
\<close>

locale simulation = invariant_system init step invar
  for init :: "'s \<Rightarrow> bool" and step :: "'s \<Rightarrow> 's \<Rightarrow> bool" and invar :: "'s \<Rightarrow> bool" +
  fixes init_a :: "'a \<Rightarrow> bool"
    and step_a :: "'a \<Rightarrow> 'a \<Rightarrow> bool"
    and abs :: "'s \<Rightarrow> 'a"
  assumes init_sim: "init s \<Longrightarrow> reachable init_a step_a (abs s)"
    and step_sim: "invar s \<Longrightarrow> step s t \<Longrightarrow> step_a\<^sup>*\<^sup>* (abs s) (abs t)"
begin

lemma reachable_sim: "reachable init step s \<Longrightarrow> reachable init_a step_a (abs s)"
proof (induction rule: reachable.induct)
  case (reachable_step s t)
  from step_sim[OF inv_reachable[OF reachable_step(1)] reachable_step(2)] reachable_step.IH
  show ?case by (induction rule: rtranclp_induct) (auto intro: reachable.reachable_step)
qed (rule init_sim)

end

end
