(* ===== verification/Retry_Loop.thy ===== *)
theory Retry_Loop
  imports Prelude
begin

text \<open>
  The loop \<open>for (unsigned int attempt = 0; attempt <= retries_; ++attempt)\<close> that
  \<open>Network::perform\<close> and \<open>Network::http_download_file\<close> both contain. The counter is a 32-bit
  word and wraps, so the loop need not end: it is a partial function, with \<open>None\<close> for a run
  that never returns. The interface \<open>retry_contract\<close> is what a loop body promises; the result
  of the loop and its termination follow once for both clients.
\<close>

definition UINT_MAX :: u32 where
  "UINT_MAX = 4294967295"

datatype ('r, 's) outcome = Return 'r | Continue 's

partial_function (option) retry_loop ::
  "('s \<Rightarrow> ('r, 's) outcome) \<Rightarrow> u32 \<Rightarrow> u32 \<Rightarrow> 's \<Rightarrow> ('r + 's) option" where
  "retry_loop body retries attempt s =
     (if attempt \<le> retries
      then (case body s of Return r \<Rightarrow> Some (Inl r)
              | Continue s' \<Rightarrow> retry_loop body retries (attempt + 1) s')
      else Some (Inr s))"

declare retry_loop.simps [code]

locale retry_contract =
  fixes body :: "'s \<Rightarrow> ('r, 's) outcome"
    and I :: "'s \<Rightarrow> bool"
    and Q :: "'r \<Rightarrow> bool"
  assumes body_continue: "I s \<Longrightarrow> body s = Continue s' \<Longrightarrow> I s'"
    and body_return: "I s \<Longrightarrow> body s = Return r \<Longrightarrow> Q r"
begin

lemma retry_loop_result:
  assumes "retry_loop body retries attempt s = Some x" and "I s"
  shows "case x of Inl r \<Rightarrow> Q r | Inr s' \<Rightarrow> I s'"
proof -
  have "b = body \<longrightarrow> I s \<longrightarrow> (case x of Inl r \<Rightarrow> Q r | Inr s' \<Rightarrow> I s')"
    if "retry_loop b retries attempt s = Some x" for b
  proof (rule retry_loop.raw_induct[where P = "\<lambda>b retries attempt s x. b = body \<longrightarrow> I s \<longrightarrow>
        (case x of Inl r \<Rightarrow> Q r | Inr s' \<Rightarrow> I s')", OF _ that], intro impI)
    fix f :: "('s \<Rightarrow> ('r, 's) outcome) \<Rightarrow> u32 \<Rightarrow> u32 \<Rightarrow> 's \<Rightarrow> ('r + 's) option"
    fix b retries attempt s x
    assume IH: "\<And>b retries attempt s x. f b retries attempt s = Some x \<Longrightarrow>
        b = body \<longrightarrow> I s \<longrightarrow> (case x of Inl r \<Rightarrow> Q r | Inr s' \<Rightarrow> I s')"
      and eq: "(if attempt \<le> retries
          then (case b s of Return r \<Rightarrow> Some (Inl r)
                  | Continue s' \<Rightarrow> f b retries (attempt + 1) s')
          else Some (Inr s)) = Some x"
      and b: "b = body" and I: "I s"
    show "case x of Inl r \<Rightarrow> Q r | Inr s' \<Rightarrow> I s'"
    proof (cases "attempt \<le> retries")
      case True
      then show ?thesis using eq b I IH body_return body_continue
        by (cases "body s") (auto split: sum.splits)
    next
      case False
      then show ?thesis using eq I by auto
    qed
  qed
  with assms show ?thesis by blast
qed

end

lemma retry_loop_returns_aux:
  assumes "unat retries < 2 ^ 32 - 1" and "unat attempt \<le> unat retries + 1"
  shows "\<exists>x. retry_loop body retries attempt s = Some x"
  using assms(2)
proof (induction "unat retries + 1 - unat attempt" arbitrary: attempt s)
  case 0
  then have "\<not> attempt \<le> retries" by (simp add: word_le_nat_alt)
  then show ?case by (subst retry_loop.simps) simp
next
  case (Suc d)
  then have le: "attempt \<le> retries" by (simp add: word_le_nat_alt)
  have "unat attempt + 1 < 2 ^ 32" using Suc.prems Suc.hyps(2) assms(1) by simp
  then have u: "unat (attempt + 1) = unat attempt + 1"
    by (simp add: unat_word_ariths)
  then have "\<exists>x. retry_loop body retries (attempt + 1) s' = Some x" for s'
    using Suc.hyps by simp
  then show ?case using le by (subst retry_loop.simps) (auto split: outcome.splits)
qed

text \<open>Below the largest retry count the loop always ends.\<close>

lemma retry_loop_returns:
  "retries \<noteq> UINT_MAX \<Longrightarrow> \<exists>x. retry_loop body retries 0 s = Some x"
proof (rule retry_loop_returns_aux)
  assume "retries \<noteq> UINT_MAX"
  then have "unat retries \<noteq> unat UINT_MAX" by (simp add: word_unat_eq_iff)
  then have "unat retries \<noteq> 2 ^ 32 - 1" by (simp add: UINT_MAX_def)
  then show "unat retries < 2 ^ 32 - 1" using unat_u32_less[of retries] by simp
qed simp

text \<open>The body runs at most \<open>retries + 1\<close> times.\<close>

lemma retry_loop_count:
  assumes cont: "\<And>s s'. body s = Continue s' \<Longrightarrow> count s' = count s + 1"
    and ret: "\<And>s r. body s = Return r \<Longrightarrow> count_result r \<le> count s + 1"
    and "retries \<noteq> UINT_MAX" and "retry_loop body retries attempt s = Some x"
    and "unat attempt \<le> unat retries + 1"
  shows "(case x of Inl r \<Rightarrow> count_result r | Inr s' \<Rightarrow> count s')
           \<le> count s + (unat retries + 1 - unat attempt :: nat)"
  using assms(4,5)
proof (induction "unat retries + 1 - unat attempt" arbitrary: attempt s)
  case 0
  then have "\<not> attempt \<le> retries" by (simp add: word_le_nat_alt)
  then show ?case using 0 by (subst (asm) retry_loop.simps) auto
next
  case (Suc d)
  then have le: "attempt \<le> retries" by (simp add: word_le_nat_alt)
  have "unat retries \<noteq> unat UINT_MAX" using assms(3) by (simp add: word_unat_eq_iff)
  then have "unat attempt + 1 < 2 ^ 32"
    using Suc.hyps(2) unat_u32_less[of retries] by (simp add: UINT_MAX_def)
  then have u: "unat (attempt + 1) = unat attempt + 1" by (simp add: unat_word_ariths)
  show ?case
  proof (cases "body s")
    case (Return r)
    then have "x = Inl r" using Suc.prems(1) le by (subst (asm) retry_loop.simps) simp
    then show ?thesis using ret[OF Return] Suc.hyps(2) by simp
  next
    case (Continue s')
    then have "retry_loop body retries (attempt + 1) s' = Some x"
      using Suc.prems(1) le by (subst (asm) retry_loop.simps) simp
    moreover have "d = unat retries + 1 - unat (attempt + 1)" "unat (attempt + 1) \<le> unat retries + 1"
      using Suc.hyps(2) u by simp_all
    ultimately show ?thesis
      using Suc.hyps(1)[of "attempt + 1" s'] Suc.hyps(2) cont[OF Continue] by linarith
  qed
qed

text \<open>With the largest retry count, a body that never returns is repeated forever.\<close>

lemma retry_loop_diverges:
  assumes "\<And>s. \<exists>s'. body s = Continue s'"
  shows "retry_loop body UINT_MAX attempt s = None"
proof -
  have "b = body \<longrightarrow> retries = UINT_MAX \<longrightarrow> False" if "retry_loop b retries attempt s = Some x"
    for b :: "'a \<Rightarrow> ('b, 'a) outcome" and retries x
  proof (rule retry_loop.raw_induct[where P = "\<lambda>b retries attempt s x. b = body \<longrightarrow>
        retries = UINT_MAX \<longrightarrow> False", OF _ that], intro impI)
    fix f :: "('a \<Rightarrow> ('b, 'a) outcome) \<Rightarrow> u32 \<Rightarrow> u32 \<Rightarrow> 'a \<Rightarrow> ('b + 'a) option"
    fix b retries attempt s x
    assume IH: "\<And>b retries attempt s x. f b retries attempt s = Some x \<Longrightarrow>
        b = body \<longrightarrow> retries = UINT_MAX \<longrightarrow> False"
      and eq: "(if attempt \<le> retries
          then (case b s of Return r \<Rightarrow> Some (Inl r)
                  | Continue s' \<Rightarrow> f b retries (attempt + 1) s')
          else Some (Inr s)) = Some x"
      and b: "b = body" and r: "retries = UINT_MAX"
    obtain s' where "body s = Continue s'" using assms by blast
    moreover have "attempt \<le> retries" using r unat_u32_less[of attempt]
      by (simp add: word_le_nat_alt UINT_MAX_def)
    ultimately have "f body UINT_MAX (attempt + 1) s' = Some x" using eq b r by simp
    then show False using IH by blast
  qed
  then show ?thesis by (cases "retry_loop body UINT_MAX attempt s") auto
qed

text \<open>
  The closed form of the loop on a body whose rounds are known: the first round that returns
  decides, and when none of the \<open>retries + 1\<close> rounds does the state after the last one is left.
\<close>

lemma retry_loop_find_aux:
  assumes "unat retries < 2 ^ 32 - 1"
    and body: "\<And>j. j \<le> unat retries \<Longrightarrow> body (st j) = (if ok j then Return (res j) else Continue (st (Suc j)))"
    and "unat attempt \<le> Suc (unat retries)"
  shows "retry_loop body retries attempt (st (unat attempt)) =
    Some (case List.find ok [unat attempt..<Suc (unat retries)] of
            Some j \<Rightarrow> Inl (res j) | None \<Rightarrow> Inr (st (Suc (unat retries))))"
  using assms(3)
proof (induction "Suc (unat retries) - unat attempt" arbitrary: attempt)
  case 0
  then have "\<not> attempt \<le> retries" "unat attempt = Suc (unat retries)" by (simp_all add: word_le_nat_alt)
  then show ?case by (subst retry_loop.simps) simp
next
  case (Suc d)
  then have le: "attempt \<le> retries" "unat attempt \<le> unat retries" by (simp_all add: word_le_nat_alt)
  have "unat attempt + 1 < 2 ^ 32" using le assms(1) by simp
  then have u: "unat (attempt + 1) = Suc (unat attempt)" by (simp add: unat_word_ariths)
  have "[unat attempt..<Suc (unat retries)] = unat attempt # [unat (attempt + 1)..<Suc (unat retries)]"
    using le(2) u by (simp add: upt_conv_Cons del: upt_Suc)
  then show ?case using Suc.hyps(1)[of "attempt + 1"] Suc.hyps(2) le u body[OF le(2)]
    by (subst retry_loop.simps) (simp del: upt_Suc)
qed

lemma retry_loop_find:
  assumes "retries \<noteq> UINT_MAX"
    and "\<And>j. j \<le> unat retries \<Longrightarrow> body (st j) = (if ok j then Return (res j) else Continue (st (Suc j)))"
  shows "retry_loop body retries 0 (st 0) =
    Some (case List.find ok [0..<Suc (unat retries)] of
            Some j \<Rightarrow> Inl (res j) | None \<Rightarrow> Inr (st (Suc (unat retries))))"
proof -
  have "unat retries \<noteq> unat UINT_MAX" using assms(1) by (simp add: word_unat_eq_iff)
  then have "unat retries < 2 ^ 32 - 1" using unat_u32_less[of retries] by (simp add: UINT_MAX_def)
  from retry_loop_find_aux[of retries body st ok res 0, OF this] assms(2) show ?thesis
    by (simp del: upt_Suc)
qed

end
