(* ===== verification/Fs_Path.thy ===== *)
theory Fs_Path
  imports Prelude
begin

text \<open>
  The part of \<open>std::filesystem::path\<close> that clsync uses, for POSIX: how a string is read as a
  path, iteration, comparison, \<open>lexically_normal\<close>, \<open>operator/\<close>, \<open>parent_path\<close>, and the two
  helpers of \<^verbatim>\<open>net/sync_manager.cpp\<close> that only look at paths, \<open>path_part_equal\<close> (both of
  its platform variants) and \<open>is_descendant_of\<close>.

  A path is a root-directory flag and its relative elements; a trailing separator is an empty
  last element, as iteration shows it. Root names do not exist on POSIX.
\<close>

datatype path = Path (has_root_directory: bool) (parts: "string list")

fun split_slash :: "string \<Rightarrow> string list" where
  "split_slash [] = [[]]"
| "split_slash (c # s) = (if c = CHR ''/'' then [] # split_slash s
     else (case split_slash s of [] \<Rightarrow> [[c]] | w # ws \<Rightarrow> (c # w) # ws))"

definition path_of :: "string \<Rightarrow> path" where
  "path_of s = (let names = filter (\<lambda>w. w \<noteq> []) (split_slash s) in
     Path (s \<noteq> [] \<and> hd s = CHR ''/'')
          (names @ (if names \<noteq> [] \<and> last s = CHR ''/'' then [[]] else [])))"

definition path_empty :: "path \<Rightarrow> bool" where
  "path_empty p \<longleftrightarrow> \<not> has_root_directory p \<and> parts p = []"

abbreviation is_absolute :: "path \<Rightarrow> bool" where
  "is_absolute p \<equiv> has_root_directory p"

text \<open>The elements from \<open>begin()\<close> to \<open>end()\<close>; two paths are equal when these are.\<close>

definition path_iter :: "path \<Rightarrow> string list" where
  "path_iter p = (if has_root_directory p then [''/''] else []) @ parts p"

fun join_slash :: "string list \<Rightarrow> string" where
  "join_slash [] = []"
| "join_slash [w] = w"
| "join_slash (w # ws) = w @ CHR ''/'' # join_slash ws"

definition path_string :: "path \<Rightarrow> string" where
  "path_string p = (if has_root_directory p then ''/'' else []) @ join_slash (parts p)"

section \<open>Normal form\<close>

text \<open>
  \<open>lexically_normal\<close>: dots go, a name followed by dot-dot goes, dot-dots right after the root
  directory go. The loop carries the kept elements, last first, and whether the text removed
  last ended in a separator.
\<close>

fun normal_loop :: "bool \<Rightarrow> string list \<Rightarrow> string list \<Rightarrow> bool \<Rightarrow> string list \<times> bool" where
  "normal_loop root kept [] sep = (kept, sep)"
| "normal_loop root kept (w # ws) sep =
     (if w = [] \<or> w = ''.'' then normal_loop root kept ws True
      else if w = ''..'' then
        (case kept of
           [] \<Rightarrow> if root then normal_loop root [] ws True else normal_loop root [w] ws False
         | k # ks \<Rightarrow> if k = ''..'' then normal_loop root (w # kept) ws False
                     else normal_loop root ks ws True)
      else normal_loop root (w # kept) ws False)"

definition lexically_normal :: "path \<Rightarrow> path" where
  "lexically_normal p =
     (if path_empty p then p
      else case normal_loop (has_root_directory p) [] (parts p) False of
        (kept, sep) \<Rightarrow>
          if kept = [] then Path (has_root_directory p) (if has_root_directory p then [] else [''.''])
          else Path (has_root_directory p)
                 (rev kept @ (if sep \<and> hd kept \<noteq> ''..'' then [[]] else [])))"

text \<open>A plain name: neither empty nor one of the two special names.\<close>

definition plain_name :: "string \<Rightarrow> bool" where
  "plain_name w \<longleftrightarrow> w \<noteq> [] \<and> w \<noteq> ''.'' \<and> w \<noteq> ''..''"

text \<open>What the loop keeps: plain names on top of dot-dots, no dot-dot below a root directory.\<close>

fun kept_ok :: "bool \<Rightarrow> string list \<Rightarrow> bool" where
  "kept_ok root [] = True"
| "kept_ok root (w # ws) = (if w = ''..'' then \<not> root \<and> (\<forall>x\<in>set ws. x = ''..'')
                            else plain_name w \<and> kept_ok root ws)"

lemma kept_ok_dotdots: "\<not> root \<Longrightarrow> \<forall>x\<in>set ws. x = ''..'' \<Longrightarrow> kept_ok root ws"
  by (induction ws) auto

lemma kept_ok_tl: "kept_ok root (w # ws) \<Longrightarrow> kept_ok root ws"
  by (auto split: if_splits intro: kept_ok_dotdots)

lemma kept_ok_appendD: "kept_ok root (xs @ ws) \<Longrightarrow> kept_ok root ws"
proof (induction xs)
  case Nil
  then show ?case by simp
next
  case (Cons x xs)
  then show ?case using kept_ok_tl[of root x "xs @ ws"] by (simp only: append_Cons)
qed

lemma kept_ok_plain: "kept_ok root ws \<Longrightarrow> ''..'' \<notin> set ws \<Longrightarrow> w \<in> set ws \<Longrightarrow> plain_name w"
  by (induction ws) (auto split: if_splits)

lemma normal_loop_kept:
  "normal_loop root kept ws sep = (kept', sep') \<Longrightarrow> kept_ok root kept \<Longrightarrow> kept_ok root kept'"
proof (induction root kept ws sep rule: normal_loop.induct)
  case (1 root kept sep)
  then show ?case by simp
next
  case (2 root kept w ws sep)
  consider (skip) "w = [] \<or> w = ''.''" | (up) "w = ''..''" | (name) "plain_name w"
    by (auto simp: plain_name_def)
  then show ?case
  proof cases
    case up
    show ?thesis
    proof (cases kept)
      case Nil
      then show ?thesis using 2 up by (cases root) auto
    next
      case (Cons k ks)
      then show ?thesis using 2 up kept_ok_tl[of root k ks] by (cases "k = ''..''") auto
    qed
  qed (use 2 in \<open>auto simp: plain_name_def\<close>)
qed

lemma normal_loop_id:
  "kept_ok root (rev ws @ kept) \<Longrightarrow>
     normal_loop root kept ws sep = (rev ws @ kept, if ws = [] then sep else False)"
proof (induction ws arbitrary: kept sep)
  case Nil
  then show ?case by simp
next
  case (Cons w ws)
  have k: "kept_ok root (w # kept)" using Cons.prems kept_ok_appendD by force
  have IH: "normal_loop root (w # kept) ws False = (rev ws @ w # kept, False)"
    using Cons.IH[of "w # kept" False] Cons.prems by simp
  show ?case
  proof (cases "w = ''..''")
    case True
    then show ?thesis using k IH by (cases kept) auto
  next
    case False
    then show ?thesis using k IH by (simp add: plain_name_def)
  qed
qed

lemma normal_loop_append:
  "normal_loop root kept (ws @ us) sep
     = (case normal_loop root kept ws sep of (kept', sep') \<Rightarrow> normal_loop root kept' us sep')"
  by (induction root kept ws sep rule: normal_loop.induct) (auto split: list.splits)

text \<open>
  A normal relative path that is not \<open>"."\<close> and has no dot-dot consists of plain names, the
  last of which may be followed by a separator.
\<close>

lemma lexically_normal_cases:
  obtains (unchanged) "path_empty p" "lexically_normal p = p"
  | (nothing) "\<not> path_empty p"
      "lexically_normal p = Path (has_root_directory p) (if has_root_directory p then [] else [''.''])"
  | (kept) kept sep where "\<not> path_empty p" "kept \<noteq> []" "kept_ok (has_root_directory p) kept"
      "lexically_normal p = Path (has_root_directory p)
         (rev kept @ (if sep \<and> hd kept \<noteq> ''..'' then [[]] else []))"
proof -
  obtain kept sep where l: "normal_loop (has_root_directory p) [] (parts p) False = (kept, sep)"
    by fastforce
  then have "kept_ok (has_root_directory p) kept" using normal_loop_kept by fastforce
  with l that show thesis by (cases "path_empty p"; cases "kept = []") (auto simp: lexically_normal_def)
qed

lemma has_root_lexically_normal [simp]:
  "has_root_directory (lexically_normal p) = has_root_directory p"
  by (cases rule: lexically_normal_cases[of p]) auto

lemma lexically_normal_plain:
  assumes "\<not> has_root_directory p" and "parts (lexically_normal p) \<noteq> []"
    and "parts (lexically_normal p) \<noteq> [''.'']" and "''..'' \<notin> set (parts (lexically_normal p))"
  shows "\<exists>ns tr. parts (lexically_normal p) = ns @ tr \<and> ns \<noteq> [] \<and> (\<forall>w\<in>set ns. plain_name w)
           \<and> (tr = [] \<or> tr = [[]])"
proof (cases rule: lexically_normal_cases[of p])
  case unchanged
  then show ?thesis using assms by (auto simp: path_empty_def)
next
  case nothing
  then show ?thesis using assms by auto
next
  case (kept kept sep)
  then have "\<forall>w\<in>set (rev kept). plain_name w" using assms kept_ok_plain by auto
  then show ?thesis using kept
    by (intro exI[of _ "rev kept"] exI[of _ "if sep \<and> hd kept \<noteq> ''..'' then [[]] else []"]) simp
qed

lemma lexically_normal_idem: "lexically_normal (lexically_normal p) = lexically_normal p"
proof (cases rule: lexically_normal_cases[of p])
  case unchanged
  then show ?thesis by simp
next
  case nothing
  then show ?thesis by (simp add: lexically_normal_def path_empty_def)
next
  case (kept kept sep)
  let ?r = "has_root_directory p"
  have id: "normal_loop ?r [] (rev kept) False = (kept, False)"
    using normal_loop_id[of ?r "rev kept" "[]" False] kept by simp
  have "normal_loop ?r [] (parts (lexically_normal p)) False = (kept, sep \<and> hd kept \<noteq> ''..'')"
    using kept id by (simp add: normal_loop_append)
  then show ?thesis using kept by (simp add: lexically_normal_def path_empty_def)
qed

section \<open>Composition and comparison\<close>

definition path_append :: "path \<Rightarrow> path \<Rightarrow> path" where
  "path_append p q =
     (if is_absolute q then q
      else if parts p \<noteq> [] \<and> last (parts p) \<noteq> []
           then Path (has_root_directory p) (parts p @ (if parts q = [] then [[]] else parts q))
      else if parts p \<noteq> [] \<and> parts q = [] then p
      else Path (has_root_directory p) (butlast (parts p) @ parts q))"

definition parent_path :: "path \<Rightarrow> path" where
  "parent_path p = (if parts p = [] then p else Path (has_root_directory p) (butlast (parts p)))"

text \<open>\<open>target.string() + ".part"\<close> read back as a path: the suffix joins the last element.\<close>

definition add_suffix :: "path \<Rightarrow> string \<Rightarrow> path" where
  "add_suffix p ext = path_of (path_string p @ ext)"

text \<open>
  \<open>path_part_equal\<close>: case-insensitive on Windows, equality elsewhere. \<open>lower\<close> stands for
  \<open>std::towlower\<close> on the characters of a native Windows path.
\<close>

fun chars_equal_nocase :: "(char \<Rightarrow> char) \<Rightarrow> string \<Rightarrow> string \<Rightarrow> bool" where
  "chars_equal_nocase lower [] [] = True"
| "chars_equal_nocase lower (a # s) (b # t) = (if lower a \<noteq> lower b then False
                                               else chars_equal_nocase lower s t)"
| "chars_equal_nocase lower _ _ = False"

definition path_part_equal_win :: "(char \<Rightarrow> char) \<Rightarrow> string \<Rightarrow> string \<Rightarrow> bool" where
  "path_part_equal_win lower s1 s2 =
     (if length s1 \<noteq> length s2 then False else chars_equal_nocase lower s1 s2)"

definition path_part_equal :: "string \<Rightarrow> string \<Rightarrow> bool" where
  "path_part_equal p1 p2 \<longleftrightarrow> p1 = p2"

text \<open>The loop of \<open>is_descendant_of\<close> over both iterators.\<close>

fun descendant_loop :: "(string \<Rightarrow> string \<Rightarrow> bool) \<Rightarrow> string list \<Rightarrow> string list \<Rightarrow> bool" where
  "descendant_loop eq child [] = True"
| "descendant_loop eq [] (w # ws) = False"
| "descendant_loop eq (c # cs) (w # ws) = (if \<not> eq c w then False else descendant_loop eq cs ws)"

definition is_descendant_of :: "path \<Rightarrow> path \<Rightarrow> bool" where
  "is_descendant_of child parent =
     descendant_loop path_part_equal (path_iter child) (path_iter parent)"

lemma descendant_loop_prefix:
  "descendant_loop eq child parent \<longleftrightarrow>
     length parent \<le> length child \<and> (\<forall>i<length parent. eq (child ! i) (parent ! i))"
  by (induction eq child parent rule: descendant_loop.induct) (auto simp: nth_Cons split: nat.splits)

lemma is_descendant_of_prefix:
  "is_descendant_of child parent \<longleftrightarrow> prefix (path_iter parent) (path_iter child)"
proof -
  have "prefix xs ys \<longleftrightarrow> length xs \<le> length ys \<and> (\<forall>i<length xs. ys ! i = xs ! i)"
    for xs ys :: "string list"
    by (metis length_take min_absorb2 nth_equalityI nth_take prefix_def prefix_length_le
        take_is_prefix nth_append)
  then show ?thesis
    by (simp add: is_descendant_of_def descendant_loop_prefix path_part_equal_def)
qed

lemma path_part_equal_win_iff:
  "path_part_equal_win lower s t \<longleftrightarrow> map lower s = map lower t"
proof -
  have "chars_equal_nocase lower s t \<longleftrightarrow> map lower s = map lower t"
    by (induction lower s t rule: chars_equal_nocase.induct) auto
  moreover have "map lower s = map lower t \<Longrightarrow> length s = length t" by (metis length_map)
  ultimately show ?thesis by (auto simp: path_part_equal_win_def)
qed


section \<open>Extending a file name\<close>

lemma split_slash_nonempty [simp]: "split_slash s \<noteq> []"
  by (induction s) (auto split: list.splits)

lemma split_slash_append:
  "CHR ''/'' \<notin> set ext \<Longrightarrow>
     split_slash (s @ ext) = butlast (split_slash s) @ [last (split_slash s) @ ext]"
proof (induction s)
  case Nil
  then show ?case by (induction ext) (auto split: list.splits)
next
  case (Cons c s)
  obtain w ws where ws: "split_slash s = w # ws" by (cases "split_slash s") auto
  show ?case
  proof (cases ws)
    case Nil
    then show ?thesis using Cons ws by auto
  next
    case (Cons u us)
    then show ?thesis using Cons.IH Cons.prems ws by auto
  qed
qed

text \<open>A suffix without a separator ends up in the last element of the path.\<close>

lemma parts_path_of_append:
  assumes "CHR ''/'' \<notin> set ext" and "ext \<noteq> []"
  shows "parts (path_of (s @ ext))
     = filter (\<lambda>w. w \<noteq> []) (butlast (split_slash s)) @ [last (split_slash s) @ ext]"
proof -
  have "last ext \<noteq> CHR ''/''" using assms last_in_set by metis
  then show ?thesis using assms
    by (simp add: path_of_def Let_def split_slash_append)
qed

lemma path_of_part:
  "parts (path_of (s @ ''.part'')) \<noteq> [] \<and> plain_name (last (parts (path_of (s @ ''.part''))))"
proof -
  have "parts (path_of (s @ ''.part''))
      = filter (\<lambda>w. w \<noteq> []) (butlast (split_slash s)) @ [last (split_slash s) @ ''.part'']"
    by (rule parts_path_of_append) auto
  moreover have "plain_name (x @ ''.part'')" for x
  proof -
    have "length (x @ ''.part'') \<ge> 5" by simp
    then show ?thesis by (auto simp: plain_name_def)
  qed
  ultimately show ?thesis by simp
qed

lemma split_slash_single [simp]: "split_slash s = [[]] \<longleftrightarrow> s = []"
  by (cases s) (auto split: list.splits)

lemma split_slash_last: "s \<noteq> [] \<Longrightarrow> last (split_slash s) = [] \<longleftrightarrow> last s = CHR ''/''"
proof (induction s)
  case (Cons c s)
  obtain w ws where ws: "split_slash s = w # ws" by (cases "split_slash s") auto
  show ?case
  proof (cases "s = []")
    case False
    then have "split_slash s \<noteq> [[]]" by simp
    then show ?thesis using Cons.IH[OF False] False ws by (cases ws) auto
  qed simp
qed simp

text \<open>So the name of the \<open>.part\<close> file differs from the name of the target.\<close>

lemma part_name_differs:
  assumes "parts (path_of s) \<noteq> []" and "plain_name (last (parts (path_of s)))"
  shows "last (parts (path_of (s @ ''.part''))) \<noteq> last (parts (path_of s))"
proof -
  let ?names = "filter (\<lambda>w. w \<noteq> []) (split_slash s)"
  have "s \<noteq> []" using assms(1) by (auto simp: path_of_def)
  have "last s \<noteq> CHR ''/''"
    using assms by (auto simp: path_of_def Let_def plain_name_def split: if_splits)
  then have l: "last (split_slash s) \<noteq> []" using \<open>s \<noteq> []\<close> split_slash_last by simp
  obtain xs x where "split_slash s = xs @ [x]" by (metis rev_exhaust split_slash_nonempty)
  then have "last ?names = last (split_slash s)" using l by simp
  moreover have "parts (path_of s) = ?names"
    using \<open>last s \<noteq> CHR ''/''\<close> by (simp add: path_of_def Let_def)
  moreover have "last (parts (path_of (s @ ''.part''))) = last (split_slash s) @ ''.part''"
    using parts_path_of_append[of "''.part''" s] by simp
  ultimately show ?thesis by simp
qed

end
