(* ===== verification/Sha256.thy ===== *)
theory Sha256
  imports Prelude
begin

text \<open>
  \<^verbatim>\<open>net/sha256.cpp\<close>: the class \<open>Sha256\<close> (a streaming SHA-256 over 64-byte blocks) and
  \<open>sha256_file\<close>. The model keeps the class's four fields and its loops. An access to the
  block array outside its 64 elements is undefined behaviour in C++; here it is \<open>None\<close>, and
  the lemmas show that it never happens. The reference definition \<open>sha256_spec\<close> is the
  function of FIPS 180-4: pad, cut into blocks, fold the compression function.
\<close>

unbundle bit_operations_syntax

section \<open>Constants and the compression function\<close>

definition kConstants :: "u32 list" where
  "kConstants = concat [
     [0x428a2f98, 0x71374491, 0xb5c0fbcf, 0xe9b5dba5, 0x3956c25b, 0x59f111f1, 0x923f82a4, 0xab1c5ed5],
     [0xd807aa98, 0x12835b01, 0x243185be, 0x550c7dc3, 0x72be5d74, 0x80deb1fe, 0x9bdc06a7, 0xc19bf174],
     [0xe49b69c1, 0xefbe4786, 0x0fc19dc6, 0x240ca1cc, 0x2de92c6f, 0x4a7484aa, 0x5cb0a9dc, 0x76f988da],
     [0x983e5152, 0xa831c66d, 0xb00327c8, 0xbf597fc7, 0xc6e00bf3, 0xd5a79147, 0x06ca6351, 0x14292967],
     [0x27b70a85, 0x2e1b2138, 0x4d2c6dfc, 0x53380d13, 0x650a7354, 0x766a0abb, 0x81c2c92e, 0x92722c85],
     [0xa2bfe8a1, 0xa81a664b, 0xc24b8b70, 0xc76c51a3, 0xd192e819, 0xd6990624, 0xf40e3585, 0x106aa070],
     [0x19a4c116, 0x1e376c08, 0x2748774c, 0x34b0bcb5, 0x391c0cb3, 0x4ed8aa4a, 0x5b9cca4f, 0x682e6ff3],
     [0x748f82ee, 0x78a5636f, 0x84c87814, 0x8cc70208, 0x90befffa, 0xa4506ceb, 0xbef9a3f7, 0xc67178f2]]"

definition rotate_right :: "u32 \<Rightarrow> nat \<Rightarrow> u32" where
  "rotate_right v shift = drop_bit shift v OR push_bit (32 - shift) v"

record sha256 =
  block :: "byte list"
  sha_state :: "u32 list"
  block_length :: nat
  bit_length :: u64

definition sha256_init :: sha256 where
  "sha256_init = \<lparr>block = replicate 64 0,
     sha_state = [0x6a09e667, 0xbb67ae85, 0x3c6ef372, 0xa54ff53a,
               0x510e527f, 0x9b05688c, 0x1f83d9ab, 0x5be0cd19],
     block_length = 0, bit_length = 0\<rparr>"

text \<open>The first loop of \<open>transform\<close>: sixteen big-endian words of the block.\<close>

definition load_word :: "byte list \<Rightarrow> nat \<Rightarrow> u32" where
  "load_word blk i = push_bit 24 (ucast (blk ! (i * 4))) OR push_bit 16 (ucast (blk ! (i * 4 + 1)))
                     OR push_bit 8 (ucast (blk ! (i * 4 + 2))) OR ucast (blk ! (i * 4 + 3))"

definition load_words :: "byte list \<Rightarrow> u32 list" where
  "load_words blk = fold (\<lambda>i ws. ws[i := load_word blk i]) [0..<16] (replicate 64 0)"

text \<open>The second loop: the array is filled from index 16 on, each word from earlier ones.\<close>

definition schedule_step :: "nat \<Rightarrow> u32 list \<Rightarrow> u32 list" where
  "schedule_step i ws =
     (let sigma0 = rotate_right (ws ! (i - 15)) 7 XOR rotate_right (ws ! (i - 15)) 18
                   XOR drop_bit 3 (ws ! (i - 15));
          sigma1 = rotate_right (ws ! (i - 2)) 17 XOR rotate_right (ws ! (i - 2)) 19
                   XOR drop_bit 10 (ws ! (i - 2))
      in ws[i := ws ! (i - 16) + sigma0 + ws ! (i - 7) + sigma1])"

definition expand_words :: "byte list \<Rightarrow> u32 list" where
  "expand_words blk = fold schedule_step [16..<64] (load_words blk)"

text \<open>The third loop: one round on the eight working variables.\<close>

type_synonym vars = "u32 \<times> u32 \<times> u32 \<times> u32 \<times> u32 \<times> u32 \<times> u32 \<times> u32"

fun sha_round :: "u32 list \<Rightarrow> nat \<Rightarrow> vars \<Rightarrow> vars" where
  "sha_round ws i (a, b, c, d, e, f, g, h) =
     (let sum1 = rotate_right e 6 XOR rotate_right e 11 XOR rotate_right e 25;
          choice = (e AND f) XOR (NOT e AND g);
          first = h + sum1 + choice + kConstants ! i + ws ! i;
          sum0 = rotate_right a 2 XOR rotate_right a 13 XOR rotate_right a 22;
          majority = (a AND b) XOR (a AND c) XOR (b AND c);
          second = sum0 + majority
      in (first + second, a, b, c, d + first, e, f, g))"

definition vars_of :: "u32 list \<Rightarrow> vars" where
  "vars_of st = (st ! 0, st ! 1, st ! 2, st ! 3, st ! 4, st ! 5, st ! 6, st ! 7)"

fun add_vars :: "u32 list \<Rightarrow> vars \<Rightarrow> u32 list" where
  "add_vars st (a, b, c, d, e, f, g, h) =
     [st ! 0 + a, st ! 1 + b, st ! 2 + c, st ! 3 + d, st ! 4 + e, st ! 5 + f, st ! 6 + g, st ! 7 + h]"

definition compress :: "u32 list \<Rightarrow> byte list \<Rightarrow> u32 list" where
  "compress st blk = add_vars st (fold (sha_round (expand_words blk)) [0..<64] (vars_of st))"

definition transform :: "sha256 \<Rightarrow> sha256" where
  "transform h = h\<lparr>sha_state := compress (sha_state h) (block h)\<rparr>"

section \<open>Streaming\<close>

text \<open>\<open>block[block_length++] = b\<close>, undefined when the index is not below 64.\<close>

definition put_byte :: "byte \<Rightarrow> sha256 \<Rightarrow> sha256 option" where
  "put_byte b h = (if block_length h < length (block h)
     then Some (h\<lparr>block := (block h)[block_length h := b],
                  block_length := block_length h + 1\<rparr>)
     else None)"

definition update_byte :: "byte \<Rightarrow> sha256 \<Rightarrow> sha256 option" where
  "update_byte b h = do {
     h1 \<leftarrow> put_byte b h;
     Some (if block_length h1 = length (block h1)
           then (transform h1)\<lparr>bit_length := bit_length h1 + 512, block_length := 0\<rparr>
           else h1) }"

definition update :: "byte list \<Rightarrow> sha256 \<Rightarrow> sha256 option" where
  "update input h = foldM update_byte input h"

text \<open>\<open>while (block_length < n) block[block_length++] = 0;\<close>\<close>

function pad_zeros :: "nat \<Rightarrow> sha256 \<Rightarrow> sha256 option" where
  "pad_zeros n h = (if block_length h < n
     then (case put_byte 0 h of None \<Rightarrow> None | Some h1 \<Rightarrow> pad_zeros n h1) else Some h)"
  by pat_completeness auto
termination
  by (relation "measure (\<lambda>(n, h). n - block_length h)") (auto simp: put_byte_def split: if_splits)

declare pad_zeros.simps [simp del]

definition put_length :: "u64 \<Rightarrow> sha256 \<Rightarrow> sha256 option" where
  "put_length total_bits h =
     foldM (\<lambda>shift. put_byte (ucast (drop_bit shift total_bits))) [56, 48, 40, 32, 24, 16, 8, 0] h"

text \<open>\<open>digest << std::hex << std::setfill('0') << std::setw(8) << value\<close>\<close>

definition hex_char :: "nat \<Rightarrow> char" where
  "hex_char d = (if d < 10 then char_of (48 + d) else char_of (87 + d))"

function hex_string :: "u32 \<Rightarrow> string" where
  "hex_string v = (if v < 16 then [hex_char (unat v)]
                   else hex_string (v div 16) @ [hex_char (unat (v mod 16))])"
  by pat_completeness auto
termination
  by (relation "measure unat") (auto simp: word_less_nat_alt unat_div unat_gt_0)

declare hex_string.simps [simp del]

definition hex_setw8 :: "u32 \<Rightarrow> string" where
  "hex_setw8 v = (let s = hex_string v in replicate (8 - length s) (CHR ''0'') @ s)"

definition digest_string :: "u32 list \<Rightarrow> string" where
  "digest_string st = concat (map hex_setw8 st)"

definition finish :: "sha256 \<Rightarrow> string option" where
  "finish h = do {
     let total_bits = bit_length h + of_nat (block_length h * 8);
     h1 \<leftarrow> put_byte 0x80 h;
     h2 \<leftarrow> (if block_length h1 > 56
            then map_option (\<lambda>h'. (transform h')\<lparr>block_length := 0\<rparr>) (pad_zeros 64 h1)
            else Some h1);
     h3 \<leftarrow> pad_zeros 56 h2;
     h4 \<leftarrow> put_length total_bits h3;
     Some (digest_string (sha_state (transform h4))) }"

text \<open>
  \<open>sha256_file\<close>: the file as \<open>std::ifstream\<close> sees it, what can still be read and whether the
  read that runs out of it meets an I/O error (\<open>badbit\<close>) instead of the end of the file. A
  read of 64 KiB that comes back short sets \<open>failbit\<close>, so the next read extracts nothing and
  the loop ends.
\<close>

record ifstream =
  remaining :: "byte list"
  io_error :: bool

definition buffer_size :: nat where
  "buffer_size = 64 * 1024"

function read_loop :: "byte list \<Rightarrow> sha256 \<Rightarrow> sha256 option" where
  "read_loop rest h = (if length rest \<ge> buffer_size
     then (case update (take buffer_size rest) h of
             None \<Rightarrow> None | Some h1 \<Rightarrow> read_loop (drop buffer_size rest) h1)
     else if rest \<noteq> [] then update rest h else Some h)"
  by pat_completeness auto
termination
  by (relation "measure (\<lambda>(rest, h). length rest)") (auto simp: buffer_size_def)

declare read_loop.simps [simp del]

text \<open>
  \<open>None\<close>: undefined behaviour; \<open>Some None\<close>: \<open>std::nullopt\<close>; \<open>Some (Some d)\<close>: a digest.
\<close>

definition sha256_file :: "ifstream option \<Rightarrow> string option option" where
  "sha256_file f = (case f of
     None \<Rightarrow> Some None
   | Some file \<Rightarrow> do {
       h \<leftarrow> read_loop (remaining file) sha256_init;
       if io_error file then Some None else map_option Some (finish h) })"


section \<open>The reference definition\<close>

text \<open>
  FIPS 180-4 on byte strings: the message, a \<open>1\<close> bit, zeros up to eight bytes short of a
  whole block, the bit length as a 64-bit big-endian number; then the compression function
  folded over the 64-byte blocks.
\<close>

definition be64 :: "u64 \<Rightarrow> byte list" where
  "be64 w = map (\<lambda>shift. ucast (drop_bit shift w)) [56, 48, 40, 32, 24, 16, 8, 0]"

definition pad_message :: "byte list \<Rightarrow> byte list" where
  "pad_message m = m @ [0x80] @ replicate ((119 - length m mod 64) mod 64) 0
                   @ be64 (of_nat (8 * length m))"

definition first_blocks :: "nat \<Rightarrow> byte list \<Rightarrow> byte list list" where
  "first_blocks n m = map (\<lambda>i. take 64 (drop (64 * i) m)) [0..<n]"

definition blocks :: "byte list \<Rightarrow> byte list list" where
  "blocks m = first_blocks (length m div 64) m"

definition sha256_spec :: "byte list \<Rightarrow> string" where
  "sha256_spec m = digest_string (foldl compress (sha_state sha256_init) (blocks (pad_message m)))"

section \<open>The interface of an incremental hash\<close>

text \<open>
  What a client of a streaming hash relies on: there is a relation between a hash object and
  the bytes it has absorbed, \<open>upd\<close> never fails and absorbs its argument, \<open>fin\<close> gives the
  digest of what was absorbed. Then the way the input is cut into calls does not matter.
\<close>

locale incremental_hash =
  fixes h0 :: 'h
    and upd :: "byte list \<Rightarrow> 'h \<Rightarrow> 'h option"
    and fin :: "'h \<Rightarrow> 'd option"
    and absorbed :: "'h \<Rightarrow> byte list \<Rightarrow> bool"
    and digest :: "byte list \<Rightarrow> 'd"
  assumes absorbed_init: "absorbed h0 []"
    and absorbed_upd: "absorbed h m \<Longrightarrow> \<exists>h'. upd bs h = Some h' \<and> absorbed h' (m @ bs)"
    and fin_digest: "absorbed h m \<Longrightarrow> fin h = Some (digest m)"
begin

lemma absorbed_chunks:
  "absorbed h m \<Longrightarrow> \<exists>h'. foldM upd chunks h = Some h' \<and> absorbed h' (m @ concat chunks)"
proof (induction chunks arbitrary: h m)
  case Nil
  then show ?case by simp
next
  case (Cons c chunks)
  then obtain h1 where "upd c h = Some h1" "absorbed h1 (m @ c)"
    using absorbed_upd by blast
  then show ?case using Cons.IH[of h1 "m @ c"] by simp
qed

lemma hash_chunks: "Option.bind (foldM upd chunks h0) fin = Some (digest (concat chunks))"
  using absorbed_chunks[OF absorbed_init, of chunks] fin_digest by auto

lemma hash_once: "Option.bind (upd m h0) fin = Some (digest m)"
  using absorbed_upd[OF absorbed_init, of m] fin_digest by auto

end

section \<open>The class implements the reference definition\<close>

text \<open>
  The simulation relation: \<open>n\<close> whole blocks of the message \<open>m\<close> have been compressed, the
  rest of it sits at the front of the block array.
\<close>

definition holds :: "nat \<Rightarrow> sha256 \<Rightarrow> byte list \<Rightarrow> bool" where
  "holds n h m \<longleftrightarrow> length (block h) = 64 \<and> block_length h \<le> 64
     \<and> length m = 64 * n + block_length h
     \<and> take (block_length h) (block h) = drop (64 * n) m
     \<and> sha_state h = foldl compress (sha_state sha256_init) (first_blocks n m)"

lemma first_blocks_append:
  assumes "64 * n \<le> length m"
  shows "first_blocks n (m @ x) = first_blocks n m"
  unfolding first_blocks_def
proof (rule map_cong)
  fix i assume "i \<in> set [0..<n]"
  then have "64 * i + 64 \<le> length m" using assms by simp
  then show "take 64 (drop (64 * i) (m @ x)) = take 64 (drop (64 * i) m)" by simp
qed simp

lemma first_blocks_Suc:
  "first_blocks (Suc n) m = first_blocks n m @ [take 64 (drop (64 * n) m)]"
  by (simp add: first_blocks_def)

lemma put_byte_holds:
  assumes "holds n h m" and "block_length h < 64"
  shows "\<exists>h'. put_byte b h = Some h' \<and> holds n h' (m @ [b])
           \<and> block_length h' = block_length h + 1 \<and> bit_length h' = bit_length h"
proof -
  let ?k = "block_length h"
  have "take (?k + 1) ((block h)[?k := b]) = take ?k (block h) @ [b]"
    using assms by (simp add: holds_def take_Suc_conv_app_nth)
  then show ?thesis
    using assms first_blocks_append[of n m "[b]"] by (simp add: put_byte_def holds_def)
qed

lemma transform_holds:
  assumes "holds n h m" and "block_length h = 64"
  shows "holds (Suc n) ((transform h)\<lparr>block_length := 0\<rparr>) m"
proof -
  have "drop (64 * n) m = block h" using assms by (auto simp: holds_def)
  moreover have "length (drop (64 * n) m) = 64" using assms by (simp add: holds_def)
  ultimately have "take 64 (drop (64 * n) m) = block h" by simp
  then show ?thesis
    using assms by (simp add: holds_def transform_def first_blocks_Suc)
qed

lemma pad_zeros_holds:
  assumes "holds n h m" and "block_length h \<le> k" and "k \<le> 64"
  shows "\<exists>h'. pad_zeros k h = Some h' \<and> holds n h' (m @ replicate (k - block_length h) 0)
           \<and> block_length h' = k"
  using assms
proof (induction "k - block_length h" arbitrary: h m)
  case 0
  then show ?case by (subst pad_zeros.simps) simp
next
  case (Suc d)
  then have lt: "block_length h < k" by simp
  with Suc.prems obtain h1 where h1: "put_byte 0 h = Some h1" "holds n h1 (m @ [0])"
    "block_length h1 = block_length h + 1" using put_byte_holds[of n h m 0] by auto
  have "d = k - block_length h1" using Suc.hyps h1 by simp
  then obtain h2 where h2: "pad_zeros k h1 = Some h2"
    "holds n h2 ((m @ [0]) @ replicate (k - block_length h1) 0)" "block_length h2 = k"
    using Suc.hyps(1)[of h1 "m @ [0]"] h1 lt Suc.prems by auto
  have "replicate (k - block_length h) (0::byte) = 0 # replicate (k - block_length h1) 0"
    using lt h1 by (metis Suc_diff_Suc Suc_eq_plus1 replicate_Suc)
  then show ?case using h1 h2 lt by (subst pad_zeros.simps) simp
qed

lemma put_bytes_holds:
  assumes "holds n h m" and "block_length h + length bs \<le> 64"
  shows "\<exists>h'. foldM put_byte bs h = Some h' \<and> holds n h' (m @ bs)
           \<and> block_length h' = block_length h + length bs"
  using assms
proof (induction bs arbitrary: h m)
  case Nil
  then show ?case by simp
next
  case (Cons b bs)
  then obtain h1 where "put_byte b h = Some h1" "holds n h1 (m @ [b])"
    "block_length h1 = block_length h + 1" using put_byte_holds[of n h m b] by auto
  then show ?case using Cons.IH[of h1 "m @ [b]"] Cons.prems by auto
qed

lemma foldM_map: "foldM f (map g xs) s = foldM (\<lambda>x. f (g x)) xs s"
  by (induction xs arbitrary: s) (auto split: bind_splits)

lemma put_length_eq: "put_length w h = foldM put_byte (be64 w) h"
  by (simp only: put_length_def be64_def foldM_map)

definition absorbed :: "sha256 \<Rightarrow> byte list \<Rightarrow> bool" where
  "absorbed h m \<longleftrightarrow> holds (length m div 64) h m \<and> block_length h < 64
     \<and> bit_length h = of_nat (512 * (length m div 64))"

lemma absorbed_start: "absorbed sha256_init []"
  by (simp add: absorbed_def holds_def sha256_init_def first_blocks_def)

lemma update_byte_absorbed:
  assumes "absorbed h m"
  shows "\<exists>h'. update_byte b h = Some h' \<and> absorbed h' (m @ [b])"
proof -
  let ?n = "length m div 64"
  obtain h1 where h1: "put_byte b h = Some h1" "holds ?n h1 (m @ [b])"
    "block_length h1 = block_length h + 1" "bit_length h1 = bit_length h"
    using assms put_byte_holds[of ?n h m b] by (auto simp: absorbed_def)
  have len: "length (block h1) = 64" and lm: "length m = 64 * ?n + block_length h"
    using h1 assms by (auto simp: holds_def absorbed_def)
  show ?thesis
  proof (cases "block_length h1 = 64")
    case True
    then have n: "length (m @ [b]) div 64 = Suc ?n" using h1 lm by simp
    have "holds (Suc ?n) ((transform h1)\<lparr>block_length := 0\<rparr>) (m @ [b])"
      using transform_holds[OF h1(2) True] .
    then have "absorbed ((transform h1)\<lparr>bit_length := bit_length h1 + 512, block_length := 0\<rparr>) (m @ [b])"
      unfolding absorbed_def n using assms h1 by (simp add: holds_def absorbed_def)
    then show ?thesis using h1 len True by (simp add: update_byte_def)
  next
    case False
    then have lt: "block_length h1 < 64" using h1 assms by (simp add: absorbed_def)
    then have "length (m @ [b]) div 64 = ?n" using h1 lm by simp
    then show ?thesis using False lt h1 len assms by (simp add: update_byte_def absorbed_def)
  qed
qed

lemma update_absorbed:
  "absorbed h m \<Longrightarrow> \<exists>h'. update bs h = Some h' \<and> absorbed h' (m @ bs)"
  unfolding update_def
proof (induction bs arbitrary: h m)
  case Nil
  then show ?case by simp
next
  case (Cons b bs)
  then obtain h1 where "update_byte b h = Some h1" "absorbed h1 (m @ [b])"
    using update_byte_absorbed by blast
  then show ?case using Cons.IH[of h1 "m @ [b]"] by simp
qed


text \<open>
  The end of \<open>finish\<close>, from a block that has room for the length: zeros to position 56,
  the eight length bytes, the last transform.
\<close>

lemma finish_tail:
  assumes "holds n h m" and "block_length h \<le> 56"
  shows "\<exists>h4. Option.bind (pad_zeros 56 h) (put_length w) = Some h4
     \<and> sha_state (transform h4) = foldl compress (sha_state sha256_init)
         (first_blocks (Suc n) (m @ replicate (56 - block_length h) 0 @ be64 w))"
proof -
  obtain h3 where h3: "pad_zeros 56 h = Some h3"
    "holds n h3 (m @ replicate (56 - block_length h) 0)" "block_length h3 = 56"
    using pad_zeros_holds[OF assms] by auto
  have "length (be64 w) = 8" by (simp add: be64_def)
  then obtain h4 where h4: "put_length w h3 = Some h4"
    "holds n h4 ((m @ replicate (56 - block_length h) 0) @ be64 w)" "block_length h4 = 64"
    using put_bytes_holds[OF h3(2), of "be64 w"] h3(3) by (auto simp: put_length_eq)
  from transform_holds[OF h4(2,3)] have "sha_state (transform h4)
      = foldl compress (sha_state sha256_init)
          (first_blocks (Suc n) (m @ replicate (56 - block_length h) 0 @ be64 w))"
    by (simp add: holds_def)
  then show ?thesis using h3 h4 by simp
qed

lemma absorbed_facts:
  assumes "absorbed h m"
  shows "block_length h = length m mod 64"
    and "bit_length h + of_nat (block_length h * 8) = of_nat (8 * length m)"
    and "length m = 64 * (length m div 64) + block_length h"
proof -
  let ?n = "length m div 64"
  have lm: "length m = 64 * ?n + block_length h" and lt: "block_length h < 64"
    and bits: "bit_length h = of_nat (512 * ?n)"
    using assms by (auto simp: absorbed_def holds_def)
  show "block_length h = length m mod 64"
    using lm lt by (metis mod_mult_self4 mod_less)
  have "of_nat (8 * length m) = (of_nat (512 * ?n + block_length h * 8) :: u64)"
    by (subst lm) simp
  then show "bit_length h + of_nat (block_length h * 8) = of_nat (8 * length m)"
    using bits by simp
  show "length m = 64 * ?n + block_length h" by (rule lm)
qed

lemma finish_short:
  assumes "absorbed h m" and "block_length h < 56"
  shows "finish h = Some (sha256_spec m)"
proof -
  let ?n = "length m div 64" and ?w = "of_nat (8 * length m) :: u64"
  note facts = absorbed_facts[OF assms(1)]
  obtain h1 where h1: "put_byte 0x80 h = Some h1" "holds ?n h1 (m @ [0x80])"
    "block_length h1 = block_length h + 1"
    using assms put_byte_holds[of ?n h m "0x80"] by (auto simp: absorbed_def)
  have "(119 - block_length h) mod 64 = (64 + (55 - block_length h)) mod 64"
    using assms(2) by (intro arg_cong[where f = "\<lambda>x. x mod 64"]) simp
  also have "\<dots> = 56 - block_length h1" using h1(3) by simp
  finally have pad: "pad_message m = (m @ [0x80]) @ replicate (56 - block_length h1) 0 @ be64 ?w"
    using facts(1) by (simp add: pad_message_def)
  have "length (pad_message m) = 64 * Suc ?n"
    unfolding pad using h1(3) facts(3) assms(2) by (simp add: be64_def)
  then have "blocks (pad_message m) = first_blocks (Suc ?n) (pad_message m)"
    by (simp add: blocks_def)
  note spec = sha256_spec_def[of m, unfolded this, unfolded pad]
  have le: "block_length h1 \<le> 56" using h1(3) assms(2) by simp
  from finish_tail[OF h1(2) this, of ?w] show ?thesis
    unfolding finish_def Let_def spec facts(2) h1(1) using le
    by (auto split: bind_splits)
qed

lemma finish_long:
  assumes "absorbed h m" and "56 \<le> block_length h"
  shows "finish h = Some (sha256_spec m)"
proof -
  let ?n = "length m div 64" and ?w = "of_nat (8 * length m) :: u64"
  note facts = absorbed_facts[OF assms(1)]
  have lt: "block_length h < 64" using assms(1) by (simp add: absorbed_def)
  obtain h1 where h1: "put_byte 0x80 h = Some h1" "holds ?n h1 (m @ [0x80])"
    "block_length h1 = block_length h + 1"
    using assms put_byte_holds[of ?n h m "0x80"] by (auto simp: absorbed_def)
  obtain h2 where h2: "pad_zeros 64 h1 = Some h2" "block_length h2 = 64"
    "holds ?n h2 ((m @ [0x80]) @ replicate (64 - block_length h1) 0)"
    using pad_zeros_holds[OF h1(2), of 64] h1(3) lt by auto
  let ?h2 = "(transform h2)\<lparr>block_length := 0\<rparr>"
  have h2': "holds (Suc ?n) ?h2 ((m @ [0x80]) @ replicate (64 - block_length h1) 0)"
    by (rule transform_holds[OF h2(3,2)])
  have zeros: "replicate (119 - block_length h) (0::byte)
      = replicate (64 - block_length h1) 0 @ replicate 56 0"
    unfolding replicate_add[symmetric] using h1(3) lt by simp
  have pad: "pad_message m = ((m @ [0x80]) @ replicate (64 - block_length h1) 0)
      @ replicate (56 - block_length ?h2) 0 @ be64 ?w"
    using facts(1) assms(2) lt zeros by (simp add: pad_message_def)
  have "length (pad_message m) = 64 * Suc (Suc ?n)"
    unfolding pad using h1(3) facts(3) lt by (simp add: be64_def)
  then have "blocks (pad_message m) = first_blocks (Suc (Suc ?n)) (pad_message m)"
    by (simp add: blocks_def)
  note spec = sha256_spec_def[of m, unfolded this, unfolded pad]
  have gt: "56 < block_length h1" using h1(3) assms(2) by simp
  have "block_length ?h2 \<le> 56" by simp
  from finish_tail[OF h2' this, of ?w] show ?thesis
    unfolding finish_def Let_def spec facts(2) h1(1) using gt h2(1)
    by (auto split: bind_splits)
qed

lemma finish_absorbed: "absorbed h m \<Longrightarrow> finish h = Some (sha256_spec m)"
  by (cases "block_length h < 56") (auto intro: finish_short finish_long)

interpretation sha: incremental_hash sha256_init update finish absorbed sha256_spec
  by unfold_locales (auto intro: absorbed_start update_absorbed finish_absorbed)

section \<open>Hashing a file\<close>

lemma read_loop_absorbed:
  "absorbed h m \<Longrightarrow> \<exists>h'. read_loop rest h = Some h' \<and> absorbed h' (m @ rest)"
proof (induction "length rest" arbitrary: rest h m rule: less_induct)
  case less
  show ?case
  proof (cases "length rest \<ge> buffer_size")
    case True
    obtain h1 where h1: "update (take buffer_size rest) h = Some h1"
      "absorbed h1 (m @ take buffer_size rest)" using update_absorbed[OF less.prems] by blast
    have "length (drop buffer_size rest) < length rest" using True by (simp add: buffer_size_def)
    from less.hyps[OF this h1(2)] True h1(1) show ?thesis by (subst read_loop.simps) auto
  next
    case False
    then show ?thesis using update_absorbed[OF less.prems, of rest] less.prems
      by (subst read_loop.simps) auto
  qed
qed

lemma sha256_file_eq:
  "sha256_file f = Some (case f of None \<Rightarrow> None
     | Some file \<Rightarrow> if io_error file then None else Some (sha256_spec (remaining file)))"
proof (cases f)
  case None
  then show ?thesis by (simp add: sha256_file_def)
next
  case (Some fl)
  obtain h where "read_loop (remaining fl) sha256_init = Some h" "absorbed h (remaining fl)"
    using read_loop_absorbed[OF absorbed_start, of "remaining fl"] by auto
  then show ?thesis using Some finish_absorbed by (simp add: sha256_file_def)
qed

text \<open>C6. \<open>sha256_file\<close> never leaves the bounds of its block array, for a file of any length
  returns the FIPS 180-4 digest of the whole content, and returns \<open>nullopt\<close> exactly when the
  file cannot be opened or a read fails.\<close>

theorem sha256_file_correct:
  "sha256_file f = Some (case f of None \<Rightarrow> None
     | Some file \<Rightarrow> if io_error file then None else Some (sha256_spec (remaining file)))"
  by (rule sha256_file_eq)

text \<open>The digest does not depend on how the input is cut into calls of \<open>update\<close>: any
  sequence of updates on a new object followed by \<open>finish\<close> gives the digest of the
  concatenation.\<close>

lemma update_chunks_finish:
  "Option.bind (foldM update chunks sha256_init) finish = Some (sha256_spec (concat chunks))"
  by (rule sha.hash_chunks)

section \<open>The shape of a digest\<close>

lemma hex_char_isxdigit: "d < 16 \<Longrightarrow> isxdigit (hex_char d) \<and> tolower (hex_char d) = hex_char d"
  by (auto simp: hex_char_def isxdigit_def isdigit_def tolower_def Let_def)

lemma hex_string_length: "unat v < 16 ^ k \<Longrightarrow> 0 < k \<Longrightarrow> length (hex_string v) \<le> k"
proof (induction v arbitrary: k rule: hex_string.induct)
  case (1 v)
  show ?case
  proof (cases "v < 16")
    case True
    then show ?thesis using 1 by (subst hex_string.simps) simp
  next
    case False
    then have ge: "16 \<le> unat v" by (simp add: word_less_nat_alt)
    obtain k' where k: "k = Suc k'" using "1.prems"(2) by (cases k) auto
    have "0 < k'" using ge "1.prems"(1) k by (cases k') auto
    moreover have "unat (v div 16) < 16 ^ k'"
      using "1.prems"(1) k by (simp add: unat_div less_mult_imp_div_less mult.commute)
    ultimately have "length (hex_string (v div 16)) \<le> k'" using "1.IH" False by blast
    then show ?thesis using False k by (subst hex_string.simps) simp
  qed
qed

lemma hex_string_chars: "c \<in> set (hex_string v) \<Longrightarrow> isxdigit c \<and> tolower c = c"
proof (induction v rule: hex_string.induct)
  case (1 v)
  have mod16: "unat (v mod 16) < 16" by (simp add: unat_mod)
  show ?case
  proof (cases "v < 16")
    case True
    then have "c = hex_char (unat v)" using "1.prems" by (subst (asm) hex_string.simps) simp
    then show ?thesis using True hex_char_isxdigit by (simp add: word_less_nat_alt)
  next
    case False
    then have "c \<in> set (hex_string (v div 16)) \<or> c = hex_char (unat (v mod 16))"
      using "1.prems" by (subst (asm) hex_string.simps) auto
    then show ?thesis using "1.IH"[OF False] hex_char_isxdigit[OF mod16] by auto
  qed
qed

lemma hex_setw8_shape:
  "length (hex_setw8 v) = 8 \<and> (\<forall>c\<in>set (hex_setw8 v). isxdigit c \<and> tolower c = c)"
proof -
  have "unat v < 16 ^ 8" using unat_u32_less[of v] by simp
  then have "length (hex_string v) \<le> 8" by (rule hex_string_length) simp
  moreover have "isxdigit (CHR ''0'') \<and> tolower (CHR ''0'') = CHR ''0''"
    by (simp add: isxdigit_def isdigit_def tolower_def)
  ultimately show ?thesis
    using hex_string_chars by (auto simp: hex_setw8_def Let_def)
qed

lemma compress_length [simp]: "length (compress st blk) = 8"
proof -
  have "length (add_vars st v) = 8" for v by (cases "(st, v)" rule: add_vars.cases) simp
  then show ?thesis by (simp add: compress_def)
qed

lemma digest_string_shape:
  "length (digest_string st) = 8 * length st
   \<and> (\<forall>c\<in>set (digest_string st). isxdigit c \<and> tolower c = c)"
  using hex_setw8_shape by (induction st) (auto simp: digest_string_def)

lemma foldl_compress_length: "length st = 8 \<Longrightarrow> length (foldl compress st bs) = 8"
  by (induction bs arbitrary: st) auto

lemma sha256_spec_shape:
  "length (sha256_spec m) = 64 \<and> (\<forall>c\<in>set (sha256_spec m). isxdigit c \<and> tolower c = c)"
proof -
  have "length (sha_state sha256_init) = 8" by (simp add: sha256_init_def)
  then show ?thesis
    using digest_string_shape foldl_compress_length by (simp add: sha256_spec_def)
qed

section \<open>The message schedule and the round functions of FIPS 180-4\<close>

lemma rotate_right_rotr:
  assumes "0 < k" and "k < 32"
  shows "rotate_right v k = word_rotr k v"
proof (rule bit_word_eqI)
  fix n assume "n < LENGTH(32)"
  then have n: "n < 32" by simp
  show "bit (rotate_right v k) n \<longleftrightarrow> bit (word_rotr k v) n"
  proof (cases "n + k < 32")
    case True
    then have "\<not> 32 - k \<le> n" and "(n + k) mod 32 = n + k" by simp_all
    then show ?thesis using n
      by (simp add: rotate_right_def bit_word_rotr_iff bit_or_iff bit_drop_bit_eq bit_push_bit_iff
          add.commute)
  next
    case False
    then have "(n + k) mod 32 = n - (32 - k)" and "\<not> bit v (n + k)" and "32 - k \<le> n"
      using n assms by (auto simp: mod_if dest: bit_imp_le_length)
    then show ?thesis using n
      by (simp add: rotate_right_def bit_word_rotr_iff bit_or_iff bit_drop_bit_eq bit_push_bit_iff
          add.commute)
  qed
qed

definition small_sigma0 :: "u32 \<Rightarrow> u32" where
  "small_sigma0 x = word_rotr 7 x XOR word_rotr 18 x XOR drop_bit 3 x"

definition small_sigma1 :: "u32 \<Rightarrow> u32" where
  "small_sigma1 x = word_rotr 17 x XOR word_rotr 19 x XOR drop_bit 10 x"

fun W_spec :: "byte list \<Rightarrow> nat \<Rightarrow> u32" where
  "W_spec blk t = (if t < 16 then load_word blk t
     else small_sigma1 (W_spec blk (t - 2)) + W_spec blk (t - 7)
          + small_sigma0 (W_spec blk (t - 15)) + W_spec blk (t - 16))"

declare W_spec.simps [simp del]

lemma load_words_nth:
  "length (load_words blk) = 64 \<and> (\<forall>t<16. load_words blk ! t = load_word blk t)"
proof -
  have "length (fold (\<lambda>i ws. ws[i := load_word blk i]) [0..<k] (replicate 64 0)) = 64
    \<and> (\<forall>t<k. fold (\<lambda>i ws. ws[i := load_word blk i]) [0..<k] (replicate 64 0) ! t = load_word blk t)"
    if "k \<le> 64" for k
    using that by (induction k) (auto simp: nth_list_update less_Suc_eq)
  from this[of 16] show ?thesis by (simp add: load_words_def)
qed

lemma schedule_step_nth:
  assumes "length ws = 64" and "16 \<le> i" and "i < 64" and "\<forall>t<i. ws ! t = W_spec blk t"
  shows "length (schedule_step i ws) = 64 \<and> (\<forall>t<Suc i. schedule_step i ws ! t = W_spec blk t)"
proof -
  have "schedule_step i ws = ws[i := W_spec blk i]"
    using assms by (subst W_spec.simps)
      (simp add: schedule_step_def Let_def rotate_right_rotr small_sigma0_def small_sigma1_def ac_simps)
  then show ?thesis using assms by (auto simp: nth_list_update less_Suc_eq)
qed

lemma expand_words_W: "length (expand_words blk) = 64 \<and> (\<forall>t<64. expand_words blk ! t = W_spec blk t)"
proof -
  have "length (fold schedule_step [16..<16 + d] (load_words blk)) = 64
    \<and> (\<forall>t<16 + d. fold schedule_step [16..<16 + d] (load_words blk) ! t = W_spec blk t)"
    if "d \<le> 48" for d
    using that
  proof (induction d)
    case 0
    then show ?case using load_words_nth[of blk] by (simp add: W_spec.simps)
  next
    case (Suc d)
    have "[16..<16 + Suc d] = [16..<16 + d] @ [16 + d]"
      by (metis add_Suc_right le_add1 upt_Suc_append)
    then show ?case
      using Suc schedule_step_nth[of "fold schedule_step [16..<16 + d] (load_words blk)" "16 + d" blk]
      by (simp only: fold_append fold.simps o_apply id_apply add_Suc_right) auto
  qed
  from this[of 48] show ?thesis by (simp add: expand_words_def)
qed


text \<open>The choice and majority functions of the code, bit by bit.\<close>

lemma choice_bit:
  "bit ((e AND f) XOR (NOT e AND g)) n = (if bit e n then bit f n else n < 32 \<and> bit g n)"
  for e f g :: u32
  by (auto simp: bit_xor_iff bit_and_iff bit_not_iff dest: bit_imp_le_length)

lemma majority_bit:
  "bit ((a AND b) XOR (a AND c) XOR (b AND c)) n
     = (bit a n \<and> bit b n \<or> bit a n \<and> bit c n \<or> bit b n \<and> bit c n)"
  for a b c :: u32
  by (auto simp: bit_xor_iff bit_and_iff)

text \<open>C33. A digest is always 64 lower-case hexadecimal digits, the form that
  \<open>http_download_file\<close> compares it in and that \<open>valid_checksum\<close> asks of a task.\<close>

theorem sha256_file_shape:
  assumes "sha256_file f = Some (Some d)"
  shows "length d = 64 \<and> list_all isxdigit d \<and> map tolower d = d"
  using assms sha256_file_eq[of f] sha256_spec_shape
  by (auto simp: list_all_iff map_idI split: option.splits if_splits)

end
