(* ===== verification/File_System.thy ===== *)
theory File_System
  imports Fs_Path Sha256
begin

text \<open>
  The file system as \<^verbatim>\<open>net/network.cpp\<close> and \<^verbatim>\<open>net/sync_manager.cpp\<close> see it through
  \<open>std::filesystem\<close> and the file streams: directories, regular files and symbolic links, with
  the functions the sources call. What the operating system may refuse at any moment
  (permissions, a full disk, a failing device) is a parameter, the record \<open>os\<close>; every theorem
  holds for all its values. The search for a file follows symbolic links, at most 40 of them,
  the limit of the Linux kernel.
\<close>

section \<open>Nodes, the operating system, error messages\<close>

datatype node = Dir | Regular "byte list" | Symlink path

type_synonym fs = "string list \<Rightarrow> node option"

datatype fs_call = Stat | Mkdir | Unlink | Rename | OpenRead | OpenWrite

text \<open>
  \<open>refuse\<close> gives the message of the \<open>std::error_code\<close> when a call is refused; \<open>write_fault\<close>
  says whether a write to an output stream fails, after the bytes accepted so far;
  \<open>close_keeps\<close> is \<open>Some k\<close> when flushing the stream at \<open>close\<close> fails after \<open>k\<close> bytes;
  \<open>read_fault\<close> is \<open>Some k\<close> when reading fails after \<open>k\<close> bytes.
\<close>

record os =
  cwd :: "string list"
  refuse :: "fs_call \<Rightarrow> path \<Rightarrow> fs \<Rightarrow> string option"
  write_fault :: "path \<Rightarrow> byte list \<Rightarrow> byte list \<Rightarrow> bool"
  close_keeps :: "path \<Rightarrow> byte list \<Rightarrow> nat option"
  read_fault :: "path \<Rightarrow> byte list \<Rightarrow> nat option"

definition ENOENT :: string where "ENOENT = ''No such file or directory''"
definition ENOTDIR :: string where "ENOTDIR = ''Not a directory''"
definition EISDIR :: string where "EISDIR = ''Is a directory''"
definition EEXIST :: string where "EEXIST = ''File exists''"
definition ENOTEMPTY :: string where "ENOTEMPTY = ''Directory not empty''"
definition ELOOP :: string where "ELOOP = ''Too many levels of symbolic links''"

section \<open>Finding a file\<close>

text \<open>
  The location a list of elements leads to, starting in a directory. All elements but the last
  must exist; links are followed, the last one too.
\<close>

fun locate :: "nat \<Rightarrow> fs \<Rightarrow> string list \<Rightarrow> string list \<Rightarrow> string + string list" where
  "locate fuel fs cur [] = Inr cur"
| "locate fuel fs cur (w # ws) =
     (if fs cur = None then Inl ENOENT
      else if fs cur \<noteq> Some Dir then Inl ENOTDIR
      else if w = [] \<or> w = ''.'' then locate fuel fs cur ws
      else if w = ''..'' then locate fuel fs (butlast cur) ws
      else (case fs (cur @ [w]) of
          None \<Rightarrow> if ws = [] then Inr (cur @ [w]) else Inl ENOENT
        | Some (Symlink t) \<Rightarrow> (case fuel of 0 \<Rightarrow> Inl ELOOP
            | Suc n \<Rightarrow> locate n fs (if has_root_directory t then [] else cur) (parts t @ ws))
        | Some n \<Rightarrow> locate fuel fs (cur @ [w]) ws))"

definition start_dir :: "os \<Rightarrow> path \<Rightarrow> string list" where
  "start_dir os p = (if has_root_directory p then [] else cwd os)"

definition resolve :: "os \<Rightarrow> fs \<Rightarrow> path \<Rightarrow> string + string list" where
  "resolve os fs p = locate 40 fs (start_dir os p) (parts p)"

text \<open>The directory entry a path names: its last element is not followed when it is a link.\<close>

definition resolve_entry :: "os \<Rightarrow> fs \<Rightarrow> path \<Rightarrow> string + string list" where
  "resolve_entry os fs p =
     (if parts p = [] \<or> \<not> plain_name (last (parts p)) then resolve os fs p
      else case resolve os fs (parent_path p) of
          Inl e \<Rightarrow> Inl e
        | Inr d \<Rightarrow> if fs d = Some Dir then Inr (d @ [last (parts p)])
                   else Inl (if fs d = None then ENOENT else ENOTDIR))"

lemma locate_snoc:
  assumes "locate fuel fs cur ws = Inr d" and "fs d = Some Dir" and "plain_name w"
    and "\<And>t. fs (d @ [w]) \<noteq> Some (Symlink t)"
  shows "locate fuel fs cur (ws @ [w]) = Inr (d @ [w])"
  using assms
proof (induction fuel fs cur ws rule: locate.induct)
  case (1 fuel fs cur)
  then show ?case by (auto simp: plain_name_def split: option.splits node.splits)
next
  case (2 fuel fs cur x ws)
  show ?case
  proof (cases "fs (cur @ [x])")
    case None
    then show ?thesis using 2 by (auto split: if_splits)
  next
    case (Some n)
    then show ?thesis using 2 by (cases n) (force split: if_splits nat.splits)+
  qed
qed

section \<open>Queries\<close>

text \<open>\<open>status\<close>: an error, not found, or the location and the node.\<close>

definition status :: "os \<Rightarrow> fs \<Rightarrow> path \<Rightarrow> string + (string list \<times> node) option" where
  "status os fs p = (case refuse os Stat p fs of
       Some e \<Rightarrow> Inl e
     | None \<Rightarrow> (case resolve os fs p of
           Inl e \<Rightarrow> if e = ENOENT \<or> e = ENOTDIR then Inr None else Inl e
         | Inr l \<Rightarrow> Inr (map_option (Pair l) (fs l))))"

definition is_regular_file :: "os \<Rightarrow> fs \<Rightarrow> path \<Rightarrow> bool" where
  "is_regular_file os fs p = (case status os fs p of
       Inr (Some (l, Regular bs)) \<Rightarrow> True | _ \<Rightarrow> False)"

definition file_size :: "os \<Rightarrow> fs \<Rightarrow> path \<Rightarrow> string + nat" where
  "file_size os fs p = (case status os fs p of
       Inl e \<Rightarrow> Inl e
     | Inr None \<Rightarrow> Inl ENOENT
     | Inr (Some (l, Regular bs)) \<Rightarrow> Inr (length bs)
     | Inr (Some (l, _)) \<Rightarrow> Inl EISDIR)"

definition canonical :: "os \<Rightarrow> fs \<Rightarrow> path \<Rightarrow> string + path" where
  "canonical os fs p = (case status os fs p of
       Inl e \<Rightarrow> Inl e | Inr None \<Rightarrow> Inl ENOENT | Inr (Some (l, _)) \<Rightarrow> Inr (Path True l))"

text \<open>
  \<open>weakly_canonical\<close>: the longest existing front of the path is made canonical, the other
  elements are appended, the result is normalised.
\<close>

definition element_path :: "string \<Rightarrow> path" where
  "element_path w = (if w = ''/'' then Path True [] else Path False (if w = [] then [] else [w]))"

fun existing_front :: "os \<Rightarrow> fs \<Rightarrow> path \<Rightarrow> string list \<Rightarrow> string + path \<times> string list" where
  "existing_front os fs result [] = Inr (result, [])"
| "existing_front os fs result (w # ws) = (let tmp = path_append result (element_path w) in
     (case status os fs tmp of
        Inl e \<Rightarrow> Inl e
      | Inr None \<Rightarrow> Inr (result, w # ws)
      | Inr (Some _) \<Rightarrow> existing_front os fs tmp ws))"

definition weakly_canonical :: "os \<Rightarrow> fs \<Rightarrow> path \<Rightarrow> string + path" where
  "weakly_canonical os fs p = (case status os fs p of
       Inl e \<Rightarrow> Inl e
     | Inr (Some _) \<Rightarrow> canonical os fs p
     | Inr None \<Rightarrow> (case existing_front os fs (Path False []) (path_iter p) of
           Inl e \<Rightarrow> Inl e
         | Inr (front, rest) \<Rightarrow>
             (case (if path_empty front then Inr front else canonical os fs front) of
                Inl e \<Rightarrow> Inl e
              | Inr c \<Rightarrow> Inr (lexically_normal (foldl (\<lambda>q w. path_append q (element_path w)) c rest)))))"

lemma weakly_canonical_existing:
  "status os fs p = Inr (Some (l, n)) \<Longrightarrow> weakly_canonical os fs p = Inr (Path True l)"
  by (simp add: weakly_canonical_def canonical_def)

section \<open>Changes\<close>

text \<open>
  \<open>create_directories\<close>: every missing element becomes a directory. The directories made before
  an error stay.
\<close>

fun mkdirs :: "fs \<Rightarrow> string list \<Rightarrow> string list \<Rightarrow> string option \<times> fs" where
  "mkdirs fs cur [] = (if fs cur = Some Dir then None else Some ENOTDIR, fs)"
| "mkdirs fs cur (w # ws) =
     (if fs cur \<noteq> Some Dir then (Some ENOTDIR, fs)
      else if w = [] \<or> w = ''.'' then mkdirs fs cur ws
      else if w = ''..'' then mkdirs fs (butlast cur) ws
      else if fs (cur @ [w]) = None then mkdirs (fs(cur @ [w] \<mapsto> Dir)) (cur @ [w]) ws
      else (case locate 40 fs cur [w] of
          Inl e \<Rightarrow> (Some e, fs)
        | Inr l \<Rightarrow> if fs l = None then (Some EEXIST, fs) else mkdirs fs l ws))"

definition create_directories :: "os \<Rightarrow> fs \<Rightarrow> path \<Rightarrow> string option \<times> fs" where
  "create_directories os fs p = (case refuse os Mkdir p fs of
       Some e \<Rightarrow> (Some e, fs)
     | None \<Rightarrow> mkdirs fs (start_dir os p) (parts p))"

definition dir_empty :: "fs \<Rightarrow> string list \<Rightarrow> bool" where
  "dir_empty fs l \<longleftrightarrow> (\<forall>w. fs (l @ [w]) = None)"

text \<open>
  Emptiness looks at all names, so it is not computed; nothing evaluates it unless a directory
  is removed.
\<close>

declare dir_empty_def [code del]

text \<open>\<open>remove\<close>: a missing file is not an error.\<close>

definition remove_file :: "os \<Rightarrow> fs \<Rightarrow> path \<Rightarrow> string option \<times> fs" where
  "remove_file os fs p = (case refuse os Unlink p fs of
       Some e \<Rightarrow> (Some e, fs)
     | None \<Rightarrow> (case resolve_entry os fs p of
           Inl e \<Rightarrow> (if e = ENOENT \<or> e = ENOTDIR then None else Some e, fs)
         | Inr l \<Rightarrow> (case fs l of
               None \<Rightarrow> (None, fs)
             | Some Dir \<Rightarrow> if dir_empty fs l then (None, fs(l := None)) else (Some ENOTEMPTY, fs)
             | Some _ \<Rightarrow> (None, fs(l := None)))))"

text \<open>\<open>rename\<close> of a file that is not a directory.\<close>

definition rename_file :: "os \<Rightarrow> fs \<Rightarrow> path \<Rightarrow> path \<Rightarrow> string option \<times> fs" where
  "rename_file os fs p q = (case refuse os Rename p fs of
       Some e \<Rightarrow> (Some e, fs)
     | None \<Rightarrow> (case (resolve_entry os fs p, resolve_entry os fs q) of
           (Inl e, _) \<Rightarrow> (Some e, fs)
         | (Inr a, Inl e) \<Rightarrow> (Some e, fs)
         | (Inr a, Inr b) \<Rightarrow> (case fs a of
               None \<Rightarrow> (Some ENOENT, fs)
             | Some n \<Rightarrow> if fs b = Some Dir then (Some EISDIR, fs)
                         else (None, (fs(a := None))(b := Some n)))))"

section \<open>File streams\<close>

record ofstream =
  out_path :: path
  out_loc :: "string list"
  written :: "byte list"
  good :: bool

text \<open>\<open>std::ofstream out(p, binary | trunc)\<close>: \<open>None\<close> when \<open>is_open()\<close> is false.\<close>

definition open_out :: "os \<Rightarrow> fs \<Rightarrow> path \<Rightarrow> (ofstream \<times> fs) option" where
  "open_out os fs p = (case refuse os OpenWrite p fs of
       Some e \<Rightarrow> None
     | None \<Rightarrow> (case resolve os fs p of
           Inl e \<Rightarrow> None
         | Inr l \<Rightarrow> if fs l = Some Dir then None
             else Some (\<lparr>out_path = p, out_loc = l, written = [], good = True\<rparr>,
                        fs(l \<mapsto> Regular []))))"

definition write_out :: "os \<Rightarrow> byte list \<Rightarrow> ofstream \<Rightarrow> ofstream" where
  "write_out os bs f =
     (if \<not> good f \<or> write_fault os (out_path f) (written f) bs then f\<lparr>good := False\<rparr>
      else f\<lparr>written := written f @ bs\<rparr>)"

definition close_out :: "os \<Rightarrow> fs \<Rightarrow> ofstream \<Rightarrow> fs" where
  "close_out os fs f = fs(out_loc f \<mapsto> Regular (case close_keeps os (out_path f) (written f) of
       None \<Rightarrow> written f | Some k \<Rightarrow> take k (written f)))"

text \<open>\<open>std::ifstream in(p, binary)\<close>, in the form \<open>sha256_file\<close> reads it.\<close>

definition open_in :: "os \<Rightarrow> fs \<Rightarrow> path \<Rightarrow> ifstream option" where
  "open_in os fs p = (case refuse os OpenRead p fs of
       Some e \<Rightarrow> None
     | None \<Rightarrow> (case resolve os fs p of
           Inl e \<Rightarrow> None
         | Inr l \<Rightarrow> (case fs l of
               None \<Rightarrow> None
             | Some (Regular bs) \<Rightarrow> Some (case read_fault os p bs of
                   None \<Rightarrow> \<lparr>remaining = bs, io_error = False\<rparr>
                 | Some k \<Rightarrow> \<lparr>remaining = take k bs, io_error = True\<rparr>)
             | Some _ \<Rightarrow> Some \<lparr>remaining = [], io_error = True\<rparr>)))"


section \<open>Directories and links that only disappear\<close>

text \<open>
  None of the operations below makes a directory or a link. A location found in the later file
  system was therefore found, at the same place, in the earlier one.
\<close>

definition skel_le :: "fs \<Rightarrow> fs \<Rightarrow> bool" where
  "skel_le g f \<longleftrightarrow> (\<forall>x. (g x = Some Dir \<longrightarrow> f x = Some Dir)
                      \<and> (\<forall>t. g x = Some (Symlink t) \<longrightarrow> f x = Some (Symlink t)))"

lemma skel_le_refl [simp]: "skel_le f f"
  by (simp add: skel_le_def)

lemma skel_le_trans: "skel_le h g \<Longrightarrow> skel_le g f \<Longrightarrow> skel_le h f"
  by (simp add: skel_le_def)

lemma skel_le_delete [simp]: "skel_le (f(l := None)) f"
  by (simp add: skel_le_def)

lemma skel_le_regular [simp]: "skel_le (f(l \<mapsto> Regular bs)) f"
  by (simp add: skel_le_def)

lemma skel_le_remove_file [simp]: "skel_le (snd (remove_file os f p)) f"
  by (auto simp: remove_file_def split: option.splits sum.splits node.splits)

lemma locate_down:
  "plain_name w \<Longrightarrow> fs cur = Some Dir \<Longrightarrow> fs (cur @ [w]) = Some Dir \<Longrightarrow>
     locate n fs cur (w # ws) = locate n fs (cur @ [w]) ws"
  by (simp add: plain_name_def)

lemma locate_mono:
  "skel_le g f \<Longrightarrow> locate n g cur ws = Inr d \<Longrightarrow> g d = Some Dir \<Longrightarrow> locate n f cur ws = Inr d"
proof (induction n g cur ws rule: locate.induct)
  case (1 n g cur)
  then show ?case by simp
next
  case (2 n g cur w ws)
  then have cur: "g cur = Some Dir" "f cur = Some Dir"
    by (auto simp: skel_le_def split: if_splits)
  show ?case
  proof (cases "plain_name w")
    case False
    then show ?thesis using 2 cur by (auto simp: plain_name_def)
  next
    case True
    then have w: "w \<noteq> []" "w \<noteq> ''.''" "w \<noteq> ''..''" by (auto simp: plain_name_def)
    show ?thesis
    proof (cases "g (cur @ [w])")
      case None
      then show ?thesis using "2.prems" cur w by (auto split: if_splits)
    next
      case (Some m)
      show ?thesis
      proof (cases m)
        case Dir
        then have "f (cur @ [w]) = Some Dir" using "2.prems"(1) Some by (simp add: skel_le_def)
        moreover have "locate n g (cur @ [w]) ws = Inr d"
          using "2.prems"(2) locate_down[of w g cur n ws] True cur(1) Some Dir by simp
        ultimately show ?thesis
          using "2.IH"(3)[OF _ _ _ _ Some Dir] locate_down[of w f cur n ws] True cur(2) cur(1) w "2.prems"(1,3) by simp
      next
        case (Regular bs)
        then show ?thesis using "2.prems" cur w Some by (cases ws) auto
      next
        case (Symlink t)
        then have "f (cur @ [w]) = Some (Symlink t)" using "2.prems"(1) Some by (simp add: skel_le_def)
        then show ?thesis using 2 cur w Some Symlink by (cases n) auto
      qed
    qed
  qed
qed

lemma resolve_entry_mono:
  assumes "skel_le g f" and "parts p \<noteq> []" and "plain_name (last (parts p))"
    and "resolve_entry os g p = Inr b"
  shows "resolve_entry os f p = Inr b"
proof -
  obtain d where d: "resolve os g (parent_path p) = Inr d" "g d = Some Dir" "b = d @ [last (parts p)]"
    using assms(2-4) by (auto simp: resolve_entry_def split: sum.splits if_splits)
  then have "resolve os f (parent_path p) = Inr d"
    using locate_mono[OF assms(1)] by (simp add: resolve_def start_dir_def parent_path_def)
  moreover have "f d = Some Dir" using assms(1) d by (simp add: skel_le_def)
  ultimately show ?thesis using assms(2,3) d by (simp add: resolve_entry_def)
qed

text \<open>Writing the file a search ends at does not change the search.\<close>

lemma locate_regular:
  "locate n f cur ws = Inr l \<Longrightarrow> f l \<noteq> Some Dir \<Longrightarrow> (\<And>t. f l \<noteq> Some (Symlink t)) \<Longrightarrow>
     locate n (f(l \<mapsto> Regular bs)) cur ws = Inr l"
proof (induction n f cur ws rule: locate.induct)
  case (1 n f cur)
  then show ?case by simp
next
  case (2 n f cur w ws)
  then have cur: "f cur = Some Dir" "cur \<noteq> l" by (auto split: if_splits)
  show ?case
  proof (cases "plain_name w")
    case False
    then show ?thesis using 2 cur by (auto simp: plain_name_def)
  next
    case True
    then have w: "w \<noteq> []" "w \<noteq> ''.''" "w \<noteq> ''..''" by (auto simp: plain_name_def)
    show ?thesis
    proof (cases "f (cur @ [w])")
      case None
      then show ?thesis using "2.prems" cur w by (auto split: if_splits)
    next
      case (Some m)
      show ?thesis
      proof (cases m)
        case Dir
        then have "cur @ [w] \<noteq> l" using "2.prems"(2) Some by auto
        then show ?thesis using 2 cur w Some Dir by simp
      next
        case (Regular bs')
        then have "ws = [] \<and> l = cur @ [w]" using "2.prems"(1) cur w Some by (cases ws) auto
        then show ?thesis using cur w by simp
      next
        case (Symlink t)
        then have "cur @ [w] \<noteq> l" using "2.prems"(3) Some by auto
        then show ?thesis using 2 cur w Some Symlink by (cases n) auto
      qed
    qed
  qed
qed

text \<open>An entry that is not a link is the file itself.\<close>

lemma resolve_of_entry:
  assumes "parts p \<noteq> []" and "plain_name (last (parts p))" and "resolve_entry os f p = Inr a"
    and "\<And>t. f a \<noteq> Some (Symlink t)"
  shows "resolve os f p = Inr a"
proof -
  obtain d where d: "resolve os f (parent_path p) = Inr d" "f d = Some Dir" "a = d @ [last (parts p)]"
    using assms(1-3) by (auto simp: resolve_entry_def split: sum.splits if_splits)
  then have "locate 40 f (start_dir os p) (butlast (parts p) @ [last (parts p)]) = Inr a"
    using locate_snoc[of 40 f "start_dir os p" "butlast (parts p)" d "last (parts p)"] assms
    by (simp add: resolve_def start_dir_def parent_path_def)
  then show ?thesis using assms(1) by (simp add: resolve_def)
qed

text \<open>A search that ends well has found the directory the last element stands in.\<close>

lemma locate_snocD:
  "locate n f cur (ws @ [w]) = Inr l \<Longrightarrow> plain_name w \<Longrightarrow> \<exists>d. locate n f cur ws = Inr d \<and> f d = Some Dir"
proof (induction n f cur ws rule: locate.induct)
  case (1 n f cur)
  then show ?case by (auto split: if_splits)
next
  case (2 n f cur x ws)
  have cur: "f cur = Some Dir" using "2.prems"(1) by (auto split: if_splits)
  have link: "\<exists>d. locate k f (if has_root_directory t then [] else cur) (parts t @ ws) = Inr d \<and> f d = Some Dir"
    if "plain_name x" "n = Suc k" "f (cur @ [x]) = Some (Symlink t)"
    for k t
    using 2 cur that by (auto simp: plain_name_def)
  show ?case
  proof (cases "f (cur @ [x])")
    case None
    then show ?thesis using 2 by (auto split: if_splits)
  next
    case (Some m)
    then show ?thesis using 2 link
      by (cases m; cases n) (auto simp: plain_name_def split: if_splits)
  qed
qed

lemma resolve_entry_of_resolve:
  assumes "parts p \<noteq> []" and "plain_name (last (parts p))" and "resolve os f p = Inr l"
  shows "\<exists>a. resolve_entry os f p = Inr a"
proof -
  have "locate 40 f (start_dir os p) (butlast (parts p) @ [last (parts p)]) = Inr l"
    using assms by (simp add: resolve_def)
  from locate_snocD[OF this assms(2)] show ?thesis
    using assms(1,2) by (auto simp: resolve_entry_def resolve_def start_dir_def parent_path_def)
qed

end
