(* ===== verification/Network.thy ===== *)
theory Network
  imports Retry_Loop File_System
begin

text \<open>
  \<^verbatim>\<open>net/network.h\<close> and \<^verbatim>\<open>net/network.cpp\<close>: the class \<open>Network\<close>. libcurl is not part of the
  sources; it is the parameter \<open>libcurl\<close>: whether \<open>curl_easy_init\<close> gives a handle, what each
  call of \<open>curl_easy_perform\<close> does with the request that was configured (the data it hands to
  the write callback, its result code, the HTTP status), and \<open>curl_easy_strerror\<close>. Of libcurl's
  documentation the model uses one rule: a write callback that does not take all it is given
  ends the transfer with \<open>CURLE_WRITE_ERROR\<close>. Calls are numbered, so that the same request may
  be answered differently each time.
\<close>

section \<open>libcurl as a parameter\<close>

datatype body = No_Body | Post_Fields string | Mime_File path

record curl_request =
  req_url :: string
  req_user_agent :: string
  req_fail_on_error :: bool
  req_no_signal :: bool
  req_timeout_ms :: int
  req_connect_timeout_ms :: int
  req_method :: string
  req_body :: body

record curl_reply =
  reply_chunks :: "byte list list"
  reply_code :: nat
  reply_status :: int

record libcurl =
  init_ok :: bool
  transfer :: "nat \<Rightarrow> curl_request \<Rightarrow> curl_reply"
  strerror :: "nat \<Rightarrow> string"

definition CURLE_OK :: nat where "CURLE_OK = 0"
definition CURLE_FAILED_INIT :: nat where "CURLE_FAILED_INIT = 2"
definition CURLE_WRITE_ERROR :: nat where "CURLE_WRITE_ERROR = 23"

section \<open>The class and its requests\<close>

record download_validation =
  expected_size :: "u64 option"
  expected_sha256 :: string

text \<open>
  The fields of the class; \<open>calls\<close> counts the calls of \<open>curl_easy_perform\<close>, and the last two
  count the \<open>curl_mime\<close> forms allocated and freed.
\<close>

record network =
  curl :: bool
  timeout_ms :: int
  retries :: u32
  user_agent :: string
  last_http_status :: int
  calls :: nat
  forms_made :: nat
  forms_freed :: nat

definition new_network :: "libcurl \<Rightarrow> int \<Rightarrow> u32 \<Rightarrow> string \<Rightarrow> network" where
  "new_network lc timeout n ua = \<lparr>curl = init_ok lc, timeout_ms = timeout, retries = n,
     user_agent = (if ua = [] then ''clsync/1.0'' else ua), last_http_status = 0,
     calls = 0, forms_made = 0, forms_freed = 0\<rparr>"

text \<open>The destructor: whether \<open>curl_easy_cleanup\<close> is called, and the object afterwards.\<close>

definition destroy_network :: "network \<Rightarrow> bool \<times> network" where
  "destroy_network net = (if curl net then (True, net\<lparr>curl := False\<rparr>) else (False, net))"

text \<open>\<open>WriteCallback\<close>: append the data to the response.\<close>

definition write_callback :: "byte list \<Rightarrow> string \<Rightarrow> string" where
  "write_callback contents response = response @ map (\<lambda>b. char_of (unat b)) contents"

text \<open>\<open>FileWriteCallback\<close>: the stream after the write, and the number of bytes taken.\<close>

definition file_write_callback :: "os \<Rightarrow> byte list \<Rightarrow> ofstream \<Rightarrow> ofstream \<times> nat" where
  "file_write_callback os contents out =
     (let out' = write_out os contents out in (out', if good out' then length contents else 0))"

text \<open>
  \<open>configure_request\<close>: the handle is reset and the options are set; the response is emptied by
  the caller's state. A \<open>GET\<close> unless the caller overrides it.
\<close>

definition configure_request :: "string \<Rightarrow> network \<Rightarrow> network \<times> curl_request" where
  "configure_request url net = (net\<lparr>last_http_status := 0\<rparr>,
     \<lparr>req_url = url, req_user_agent = user_agent net, req_fail_on_error = True,
      req_no_signal = True, req_timeout_ms = timeout_ms net, req_connect_timeout_ms = timeout_ms net,
      req_method = ''GET'', req_body = No_Body\<rparr>)"

definition status_ok :: "int \<Rightarrow> bool" where
  "status_ok s \<longleftrightarrow> s = 0 \<or> (200 \<le> s \<and> s < 300)"

definition unexpected_status :: "int \<Rightarrow> string" where
  "unexpected_status s = ''Unexpected HTTP status: '' @ to_string_signed s"

text \<open>
  One round of the loop of \<open>perform\<close> on the handle, the response and the last result code.
\<close>

definition perform_attempt ::
  "libcurl \<Rightarrow> (network \<Rightarrow> network \<times> curl_request) \<Rightarrow> network \<times> string \<times> nat
    \<Rightarrow> (network \<times> string, network \<times> string \<times> nat) outcome" where
  "perform_attempt lc configure = (\<lambda>(net, response, result).
     let (net1, req) = configure net;
         reply = transfer lc (calls net1) req;
         response1 = fold write_callback (reply_chunks reply) [];
         net2 = net1\<lparr>calls := calls net1 + 1, last_http_status := reply_status reply\<rparr>
     in if reply_code reply = CURLE_OK \<and> status_ok (reply_status reply)
        then Return (net2, response1)
        else Continue (net2, if reply_code reply = CURLE_OK
                             then unexpected_status (reply_status reply) else response1,
                       reply_code reply))"

definition perform ::
  "libcurl \<Rightarrow> (network \<Rightarrow> network \<times> curl_request) \<Rightarrow> network \<times> string
    \<Rightarrow> (bool \<times> network \<times> string) option" where
  "perform lc configure = (\<lambda>(net, response).
     if \<not> curl net then Some (False, net, response)
     else map_option (\<lambda>x. case x of
         Inl (net', response') \<Rightarrow> (True, net', response')
       | Inr (net', response', result) \<Rightarrow>
           (False, net', if response' = [] then strerror lc result else response'))
       (retry_loop (perform_attempt lc configure) (retries net) 0 (net, response, CURLE_FAILED_INIT)))"

definition http_get :: "libcurl \<Rightarrow> string \<Rightarrow> network \<times> string \<Rightarrow> (bool \<times> network \<times> string) option" where
  "http_get lc url = perform lc (configure_request url)"

definition with_body :: "string \<Rightarrow> body \<Rightarrow> network \<times> curl_request \<Rightarrow> network \<times> curl_request" where
  "with_body meth b = (\<lambda>(net, req). (net, req\<lparr>req_method := meth, req_body := b\<rparr>))"

definition http_post :: "libcurl \<Rightarrow> string \<Rightarrow> string \<Rightarrow> network \<times> string \<Rightarrow> (bool \<times> network \<times> string) option" where
  "http_post lc url data =
     perform lc (\<lambda>net. with_body ''POST'' (Post_Fields data) (configure_request url net))"

definition http_put :: "libcurl \<Rightarrow> string \<Rightarrow> string \<Rightarrow> network \<times> string \<Rightarrow> (bool \<times> network \<times> string) option" where
  "http_put lc url data =
     perform lc (\<lambda>net. with_body ''PUT'' (Post_Fields data) (configure_request url net))"

definition http_delete :: "libcurl \<Rightarrow> string \<Rightarrow> network \<times> string \<Rightarrow> (bool \<times> network \<times> string) option" where
  "http_delete lc url =
     perform lc (\<lambda>net. with_body ''DELETE'' No_Body (configure_request url net))"

text \<open>
  \<open>http_upload_file\<close>: the form of an earlier attempt is freed before a new one is made, the
  last one after the loop. The form pointer is null until the first attempt, so a form is
  alive exactly when more forms were made than freed since the call began.
\<close>

definition configure_upload :: "string \<Rightarrow> path \<Rightarrow> network \<Rightarrow> network \<times> curl_request" where
  "configure_upload url file_path net =
     (let net1 = (if forms_made net > forms_freed net then net\<lparr>forms_freed := forms_freed net + 1\<rparr> else net);
          (net2, req) = configure_request url net1
      in with_body ''POST'' (Mime_File file_path) (net2\<lparr>forms_made := forms_made net2 + 1\<rparr>, req))"

definition http_upload_file ::
  "libcurl \<Rightarrow> os \<Rightarrow> fs \<Rightarrow> string \<Rightarrow> string \<Rightarrow> network \<times> string \<Rightarrow> (bool \<times> network \<times> string) option" where
  "http_upload_file lc os fs url file_path = (\<lambda>(net, response).
     if \<not> curl net then Some (False, net, response)
     else if \<not> is_regular_file os fs (path_of file_path)
     then Some (False, net, ''File does not exist.'')
     else map_option (\<lambda>(success, net', response').
            (success, if forms_made net' > forms_freed net'
                      then net'\<lparr>forms_freed := forms_freed net' + 1\<rparr> else net', response'))
          (perform lc (configure_upload url (path_of file_path)) (net, response)))"

section \<open>Downloading a file\<close>

text \<open>The write callback over the chunks of a reply, and the result code of the transfer.\<close>

fun feed :: "os \<Rightarrow> byte list list \<Rightarrow> nat \<Rightarrow> ofstream \<Rightarrow> ofstream \<times> nat" where
  "feed os [] code out = (out, code)"
| "feed os (c # cs) code out = (let (out', taken) = file_write_callback os c out
     in if taken \<noteq> length c then (out', CURLE_WRITE_ERROR) else feed os cs code out')"

text \<open>
  The two checks on the \<open>.part\<close> file, \<open>None\<close> when it is valid, else the message. The digest
  function is total, see the theory on SHA-256.
\<close>

definition file_digest :: "os \<Rightarrow> fs \<Rightarrow> path \<Rightarrow> string option" where
  "file_digest os fs p = (case sha256_file (open_in os fs p) of Some d \<Rightarrow> d | None \<Rightarrow> None)"

definition validate :: "os \<Rightarrow> fs \<Rightarrow> path \<Rightarrow> download_validation \<Rightarrow> string option" where
  "validate os fs partial v =
     (let actual_size = file_size os fs partial in
      if (case actual_size of Inl e \<Rightarrow> True
          | Inr n \<Rightarrow> (case expected_size v of None \<Rightarrow> False | Some e \<Rightarrow> n \<noteq> unat e))
      then Some (''File validation failed: expected_size='' @
             (case expected_size v of Some e \<Rightarrow> to_string (unat e) | None \<Rightarrow> ''unknown'') @
             '' actual_size='' @ (case actual_size of Inl e \<Rightarrow> ''unavailable'' | Inr n \<Rightarrow> to_string n))
      else if expected_sha256 v \<noteq> [] \<and>
              file_digest os fs partial \<noteq> Some (map tolower (expected_sha256 v))
      then Some ''File validation failed: SHA-256 mismatch.''
      else None)"

text \<open>
  One round of the loop of \<open>http_download_file\<close>. A \<open>Return\<close> carries the function's result; the
  state of the loop is the handle, the file system and the response.
\<close>

type_synonym download_state = "network \<times> fs \<times> string"

definition download_attempt ::
  "libcurl \<Rightarrow> os \<Rightarrow> string \<Rightarrow> path \<Rightarrow> path \<Rightarrow> download_validation \<Rightarrow> download_state
    \<Rightarrow> (bool \<times> download_state, download_state) outcome" where
  "download_attempt lc os url target partial v = (\<lambda>(net, fs, response).
     let fs1 = snd (remove_file os fs partial) in
     (case open_out os fs1 partial of
        None \<Rightarrow> Return (False, net, fs1, ''Failed to open file for writing.'')
      | Some (out, fs2) \<Rightarrow>
          let (net1, req) = configure_request url net;
              reply = transfer lc (calls net1) req;
              (out', result) = feed os (reply_chunks reply) (reply_code reply) out;
              net2 = net1\<lparr>calls := calls net1 + 1, last_http_status := reply_status reply\<rparr>;
              fs3 = close_out os fs2 out'
          in if result = CURLE_OK \<and> status_ok (reply_status reply) then
               (case validate os fs3 partial v of
                  Some message \<Rightarrow> Continue (net2, fs3, message)
                | None \<Rightarrow>
                    let fs4 = snd (remove_file os fs3 target);
                        (e, fs5) = rename_file os fs4 partial target
                    in (case e of
                          None \<Rightarrow> Return (True, net2, fs5, ''Success'')
                        | Some message \<Rightarrow> Continue (net2, fs5, message)))
             else if result \<noteq> CURLE_OK then Continue (net2, fs3, strerror lc result)
             else Continue (net2, fs3, unexpected_status (reply_status reply))))"

definition http_download_file ::
  "libcurl \<Rightarrow> os \<Rightarrow> string \<Rightarrow> string \<Rightarrow> download_validation \<Rightarrow> download_state
    \<Rightarrow> (bool \<times> download_state) option" where
  "http_download_file lc os url file_path v = (\<lambda>(net, fs, response).
     if \<not> curl net then Some (False, net, fs, response)
     else let target = path_of file_path; partial = path_of (file_path @ ''.part'') in
       map_option (\<lambda>x. case x of
           Inl r \<Rightarrow> r
         | Inr (net', fs', response') \<Rightarrow>
             (False, net', snd (remove_file os fs' partial), response'))
         (retry_loop (download_attempt lc os url target partial v) (retries net) 0
            (net, fs, response)))"

text \<open>For evaluation: a round is unfolded only when its state is known.\<close>

lemmas perform_attempt_code [code] =
  perform_attempt_def [THEN fun_cong, of _ _ "(net, response, result)", unfolded prod.case]
  for net response result

lemmas download_attempt_code [code] =
  download_attempt_def [THEN fun_cong, of _ _ _ _ _ _ "(net, fs, response)", unfolded prod.case]
  for net fs response


section \<open>What one round of a download does\<close>

lemma feed_frame [simp]:
  "out_loc (fst (feed os cs code out)) = out_loc out \<and> out_path (fst (feed os cs code out)) = out_path out"
  by (induction os cs code out rule: feed.induct)
     (auto simp: file_write_callback_def write_out_def Let_def)

text \<open>A content that a task's validation accepts.\<close>

definition valid_content :: "download_validation \<Rightarrow> byte list \<Rightarrow> bool" where
  "valid_content v content \<longleftrightarrow>
     (case expected_size v of None \<Rightarrow> True | Some e \<Rightarrow> length content = unat e)
     \<and> (expected_sha256 v = [] \<or> sha256_spec content = map tolower (expected_sha256 v))"

lemma file_digest_eq:
  "file_digest os f p = (case open_in os f p of None \<Rightarrow> None
     | Some s \<Rightarrow> if io_error s then None else Some (sha256_spec (remaining s)))"
  using sha256_file_eq[of "open_in os f p"] by (simp add: file_digest_def)

lemma validate_sound:
  assumes "validate os f p v = None" and "resolve os f p = Inr l" and "f l = Some (Regular content)"
  shows "valid_content v content"
proof -
  have size: "file_size os f p = Inr n \<Longrightarrow> n = length content" for n
    using assms(2,3) by (auto simp: file_size_def status_def split: option.splits)
  have digest: "file_digest os f p = Some d \<Longrightarrow> d = sha256_spec content" for d
    using assms(2,3) by (auto simp: file_digest_eq open_in_def split: option.splits if_splits)
  show ?thesis
    using assms(1) size digest
    by (auto simp: validate_def valid_content_def Let_def split: sum.splits option.splits if_splits)
qed

text \<open>
  The \<open>.part\<close> file, once its old entry could be removed: it is opened at its own entry, which
  no longer is a link.
\<close>

lemma open_part:
  assumes plain: "parts p \<noteq> []" "plain_name (last (parts p))"
    and unlink: "\<And>g. refuse os Unlink p g = None"
    and opened: "open_out os (snd (remove_file os f p)) p = Some (out, f2)"
  shows "resolve_entry os f p = Inr (out_loc out) \<and> f2 = f(out_loc out \<mapsto> Regular [])
    \<and> resolve_entry os (f(out_loc out \<mapsto> Regular bs)) p = Inr (out_loc out)
    \<and> resolve os (f(out_loc out \<mapsto> Regular bs)) p = Inr (out_loc out)"
proof -
  let ?f1 = "snd (remove_file os f p)"
  obtain l where l: "resolve os ?f1 p = Inr l" "?f1 l \<noteq> Some Dir" "out_loc out = l"
    "f2 = ?f1(l \<mapsto> Regular [])"
    using opened by (auto simp: open_out_def split: option.splits sum.splits if_splits)
  obtain a where a1: "resolve_entry os ?f1 p = Inr a"
    using resolve_entry_of_resolve[OF plain l(1)] by blast
  have a: "resolve_entry os f p = Inr a"
    by (rule resolve_entry_mono[OF skel_le_remove_file plain a1])
  have "?f1 = f(a := None) \<or> ?f1 a = Some Dir"
    using a unlink by (auto simp: remove_file_def fun_upd_idem split: option.splits node.splits)
  moreover have "l = a" if "\<And>t. ?f1 a \<noteq> Some (Symlink t)"
    using resolve_of_entry[OF plain a1 that] l(1) by simp
  ultimately have f1: "?f1 = f(a := None)" and la: "l = a" using l(2) by auto
  let ?f' = "f(a \<mapsto> Regular bs)"
  have "skel_le ?f1 ?f'" unfolding f1 by (simp add: skel_le_def)
  then have e: "resolve_entry os ?f' p = Inr a" by (rule resolve_entry_mono[OF _ plain a1])
  then have "resolve os ?f' p = Inr a" by (rule resolve_of_entry[OF plain]) simp
  then show ?thesis using a e l la f1 by simp
qed

text \<open>
  The rest of a round, after the transfer: \<open>f3\<close> is the file system once the stream is closed.
  A round that returns success has moved a valid content to the entry of the target.
\<close>

lemma publish_part:
  assumes plain: "parts p \<noteq> []" "plain_name (last (parts p))"
    and t: "parts t \<noteq> []" "plain_name (last (parts t))"
    and part: "resolve os f3 p = Inr l" "resolve_entry os f3 p = Inr l" "f3 l = Some (Regular content)"
    and ren: "rename_file os (snd (remove_file os f3 t)) p t = (None, f5)"
  shows "\<exists>b. resolve_entry os f3 t = Inr b \<and> f5 b = Some (Regular content)"
proof -
  let ?f4 = "snd (remove_file os f3 t)"
  obtain a b n where ab: "resolve_entry os ?f4 p = Inr a" "resolve_entry os ?f4 t = Inr b"
    "?f4 a = Some n" "f5 = (?f4(a := None))(b := Some n)"
    using ren by (auto simp: rename_file_def split: option.splits sum.splits if_splits)
  have "a = l" and b: "resolve_entry os f3 t = Inr b"
    using resolve_entry_mono[OF skel_le_remove_file plain ab(1)] part(2)
      resolve_entry_mono[OF skel_le_remove_file t ab(2)] by auto
  moreover have "?f4 x = Some m \<Longrightarrow> f3 x = Some m" for x m
    by (auto simp: remove_file_def split: option.splits sum.splits node.splits if_splits)
  ultimately show ?thesis using ab part(3) by auto
qed

text \<open>
  The invariant of the loop and the promise of its result: directories and links are those of
  the start, and a success leaves a valid content at the entry the target had at the start.
\<close>

definition dl_inv :: "fs \<Rightarrow> download_state \<Rightarrow> bool" where
  "dl_inv f0 s \<longleftrightarrow> skel_le (fst (snd s)) f0"

definition dl_post :: "os \<Rightarrow> fs \<Rightarrow> path \<Rightarrow> download_validation \<Rightarrow> bool \<times> download_state \<Rightarrow> bool" where
  "dl_post os f0 target v r \<longleftrightarrow> (fst r \<longrightarrow> (\<exists>b content. resolve_entry os f0 target = Inr b
      \<and> fst (snd (snd r)) b = Some (Regular content) \<and> valid_content v content))"

lemma close_out_eq: "\<exists>content. close_out os f out = f(out_loc out \<mapsto> Regular content)"
  by (auto simp: close_out_def)


text \<open>The outcomes of one round, with the file system after the transfer in closed form.\<close>

lemma download_attempt_cases:
  assumes plain: "parts p \<noteq> []" "plain_name (last (parts p))"
    and unlink: "\<And>g. refuse os Unlink p g = None"
  obtains (not_opened) "download_attempt lc os url t p v (net, f, response)
        = Return (False, net, snd (remove_file os f p), ''Failed to open file for writing.'')"
  | (rejected) l content st m where "resolve_entry os f p = Inr l"
      "download_attempt lc os url t p v (net, f, response)
        = Continue (net\<lparr>last_http_status := st, calls := calls net + 1\<rparr>, f(l \<mapsto> Regular content), m)"
  | (published) l content st f5 where "resolve_entry os f p = Inr l"
      "resolve_entry os (f(l \<mapsto> Regular content)) p = Inr l"
      "resolve os (f(l \<mapsto> Regular content)) p = Inr l" "status_ok st"
      "validate os (f(l \<mapsto> Regular content)) p v = None"
      "rename_file os (snd (remove_file os (f(l \<mapsto> Regular content)) t)) p t = (None, f5)"
      "download_attempt lc os url t p v (net, f, response)
        = Return (True, net\<lparr>last_http_status := st, calls := calls net + 1\<rparr>, f5, ''Success'')"
  | (unpublished) l content st f5 m where "resolve_entry os f p = Inr l"
      "resolve_entry os (f(l \<mapsto> Regular content)) p = Inr l"
      "rename_file os (snd (remove_file os (f(l \<mapsto> Regular content)) t)) p t = (Some m, f5)"
      "download_attempt lc os url t p v (net, f, response)
        = Continue (net\<lparr>last_http_status := st, calls := calls net + 1\<rparr>, f5, m)"
proof (cases "open_out os (snd (remove_file os f p)) p")
  case None
  then show thesis using not_opened by (simp add: download_attempt_def Let_def)
next
  case (Some of2)
  obtain out f2 where "of2 = (out, f2)" by fastforce
  with Some have opened: "open_out os (snd (remove_file os f p)) p = Some (out, f2)" by simp
  note part = open_part[OF plain unlink opened]
  define req where "req = snd (configure_request url net)"
  define reply where "reply = transfer lc (calls net) req"
  obtain out' result where feed: "feed os (reply_chunks reply) (reply_code reply) out = (out', result)"
    by fastforce
  have "out_loc out' = out_loc out" using feed_frame[of os "reply_chunks reply" "reply_code reply" out] feed
    by simp
  then obtain content where f3: "close_out os f2 out' = f(out_loc out \<mapsto> Regular content)"
    using close_out_eq[of os f2 out'] part by auto
  define net2 where "net2 = net\<lparr>last_http_status := reply_status reply, calls := calls net + 1\<rparr>"
  have net2: "(fst (configure_request url net))\<lparr>calls := calls net + 1,
      last_http_status := reply_status reply\<rparr> = net2"
    by (simp add: configure_request_def net2_def)
  have conf: "configure_request url net = (net\<lparr>last_http_status := 0\<rparr>, req)"
    by (simp add: configure_request_def req_def)
  obtain e f5 where ren: "rename_file os (snd (remove_file os (f(out_loc out \<mapsto> Regular content)) t)) p t
      = (e, f5)" by fastforce
  have step: "download_attempt lc os url t p v (net, f, response) =
     (if result = CURLE_OK \<and> status_ok (reply_status reply)
      then (case validate os (f(out_loc out \<mapsto> Regular content)) p v of
              Some m \<Rightarrow> Continue (net2, f(out_loc out \<mapsto> Regular content), m)
            | None \<Rightarrow> (case e of None \<Rightarrow> Return (True, net2, f5, ''Success'')
                        | Some m \<Rightarrow> Continue (net2, f5, m)))
      else Continue (net2, f(out_loc out \<mapsto> Regular content),
             if result \<noteq> CURLE_OK then strerror lc result else unexpected_status (reply_status reply)))"
    using opened feed f3 ren net2
    by (simp add: download_attempt_def Let_def conf reply_def split: option.split)
  show thesis
  proof (cases "result = CURLE_OK \<and> status_ok (reply_status reply)
      \<and> validate os (f(out_loc out \<mapsto> Regular content)) p v = None")
    case False
    then have "\<exists>m. download_attempt lc os url t p v (net, f, response)
        = Continue (net2, f(out_loc out \<mapsto> Regular content), m)"
      unfolding step by (cases "validate os (f(out_loc out \<mapsto> Regular content)) p v") auto
    then obtain m where "download_attempt lc os url t p v (net, f, response)
        = Continue (net2, f(out_loc out \<mapsto> Regular content), m)" by blast
    then show thesis using part rejected[of "out_loc out" "reply_status reply" content m]
      by (simp add: net2_def)
  next
    case True
    then show thesis using step part ren published[of "out_loc out" content] unpublished[of "out_loc out" content]
      by (cases e) (auto simp: net2_def)
  qed
qed

lemma rename_failed: "rename_file os f p q = (Some m, g) \<Longrightarrow> g = f"
  by (auto simp: rename_file_def split: option.splits sum.splits if_splits)

text \<open>
  The circumstances of a download: both paths end in a file name, and the operating system lets
  the program remove the entry of the \<open>.part\<close> file.
\<close>

definition part_ok :: "os \<Rightarrow> path \<Rightarrow> path \<Rightarrow> bool" where
  "part_ok os target partial \<longleftrightarrow> parts target \<noteq> [] \<and> plain_name (last (parts target))
     \<and> parts partial \<noteq> [] \<and> plain_name (last (parts partial))
     \<and> (\<forall>g. refuse os Unlink partial g = None)"

lemma part_okD:
  assumes "part_ok os target partial"
  shows "parts target \<noteq> []" "plain_name (last (parts target))"
    "parts partial \<noteq> []" "plain_name (last (parts partial))" "refuse os Unlink partial g = None"
  using assms by (auto simp: part_ok_def)

lemma attempt_continue:
  assumes "part_ok os target partial" and "dl_inv f0 s"
    and "download_attempt lc os url target partial v s = Continue s'"
  shows "dl_inv f0 s'"
proof -
  obtain net f r where s: "s = (net, f, r)" by (cases s)
  have le: "skel_le g f \<Longrightarrow> skel_le g f0" for g
    using assms(2) skel_le_trans by (auto simp: dl_inv_def s)
  note ok = part_okD[OF assms(1)]
  show ?thesis
    using ok(3-5)
  proof (cases rule: download_attempt_cases[of partial os lc url target v net f r])
    case (unpublished l content st f5 m)
    then have "f5 = snd (remove_file os (f(l \<mapsto> Regular content)) target)"
      by (simp add: rename_failed)
    then have "skel_le f5 f"
      using skel_le_trans[OF skel_le_remove_file skel_le_regular] by blast
    then show ?thesis using assms(3) unpublished le by (auto simp: s dl_inv_def)
  qed (use assms(3) le in \<open>auto simp: s dl_inv_def\<close>)
qed

lemma attempt_return:
  assumes "part_ok os target partial" and "dl_inv f0 s"
    and "download_attempt lc os url target partial v s = Return r"
  shows "dl_post os f0 target v r"
proof -
  obtain net f q where s: "s = (net, f, q)" by (cases s)
  have le: "skel_le f f0" using assms(2) by (simp add: dl_inv_def s)
  note ok = part_okD[OF assms(1)]
  show ?thesis
    using ok(3-5)
  proof (cases rule: download_attempt_cases[of partial os lc url target v net f q])
    case (published l content st f5)
    let ?f3 = "f(l \<mapsto> Regular content)"
    have "valid_content v content"
      using validate_sound[OF published(5,3), of content] by simp
    moreover obtain b where "resolve_entry os ?f3 target = Inr b" "f5 b = Some (Regular content)"
      using publish_part[OF ok(3,4) ok(1,2) published(3,2) _ published(6)] by auto
    moreover have "skel_le ?f3 f0" using skel_le_trans[OF skel_le_regular le] .
    ultimately show ?thesis
      using assms(3) published resolve_entry_mono[OF _ ok(1,2)]
      by (auto simp: s dl_post_def)
  qed (use assms(3) in \<open>auto simp: s dl_post_def\<close>)
qed

interpretation dl: retry_contract "download_attempt lc os url target partial v"
  "\<lambda>s. part_ok os target partial \<and> dl_inv f0 s" "dl_post os f0 target v"
  for lc os url target partial v f0
  by unfold_locales (auto intro: attempt_continue attempt_return)


section \<open>Properties of a download\<close>

lemma download_post:
  assumes "http_download_file lc os url file_path v (net, fs, response) = Some (True, net', fs', response')"
    and "part_ok os (path_of file_path) (path_of (file_path @ ''.part''))"
  shows "dl_post os fs (path_of file_path) v (True, net', fs', response')"
proof -
  let ?t = "path_of file_path" and ?p = "path_of (file_path @ ''.part'')"
  obtain x where x: "retry_loop (download_attempt lc os url ?t ?p v) (retries net) 0 (net, fs, response) = Some x"
      "(True, net', fs', response') = (case x of Inl r \<Rightarrow> r
         | Inr (n, f, r) \<Rightarrow> (False, n, snd (remove_file os f ?p), r))"
    using assms(1) by (auto simp: http_download_file_def Let_def split: if_splits)
  then have "x = Inl (True, net', fs', response')" by (auto split: sum.splits)
  with dl.retry_loop_result[OF x(1), of fs] assms(2) show ?thesis by (simp add: dl_inv_def)
qed

text \<open>C1. A download that reports success has put at the entry of the target a regular file whose
  size and SHA-256 digest are those the task asked for, whatever libcurl delivered and however
  often it was retried. Validation happens before the file gets its final name.\<close>

theorem download_success_valid:
  assumes "http_download_file lc os url file_path v (net, fs, response) = Some (True, net', fs', response')"
    and "parts (path_of file_path) \<noteq> []" and "plain_name (last (parts (path_of file_path)))"
    and "\<And>g. refuse os Unlink (path_of (file_path @ ''.part'')) g = None"
  shows "\<exists>b content. resolve_entry os fs (path_of file_path) = Inr b
           \<and> fs' b = Some (Regular content) \<and> valid_content v content"
proof -
  have "part_ok os (path_of file_path) (path_of (file_path @ ''.part''))"
    using assms(2-4) path_of_part[of file_path] by (simp add: part_ok_def)
  from download_post[OF assms(1) this] show ?thesis by (simp add: dl_post_def)
qed


section \<open>What a download leaves alone\<close>

lemma remove_file_frame:
  "resolve_entry os f p \<noteq> Inr x \<Longrightarrow> snd (remove_file os f p) x = f x"
  by (auto simp: remove_file_def split: option.splits sum.splits node.splits)

lemma rename_file_frame:
  "rename_file os f p q = (e, g) \<Longrightarrow> resolve_entry os f p \<noteq> Inr x \<Longrightarrow> resolve_entry os f q \<noteq> Inr x
     \<Longrightarrow> g x = f x"
  by (auto simp: rename_file_def split: option.splits sum.splits if_splits)

definition same_outside :: "os \<Rightarrow> path \<Rightarrow> path \<Rightarrow> fs \<Rightarrow> fs \<Rightarrow> bool" where
  "same_outside os target partial f0 f \<longleftrightarrow>
     (\<forall>x. resolve_entry os f0 target \<noteq> Inr x \<longrightarrow> resolve_entry os f0 partial \<noteq> Inr x \<longrightarrow> f x = f0 x)"

lemma same_outside_remove:
  assumes "skel_le f f0" and "same_outside os t p f0 f" and "parts q \<noteq> []" and "plain_name (last (parts q))"
    and "q = t \<or> q = p"
  shows "same_outside os t p f0 (snd (remove_file os f q))"
  unfolding same_outside_def
proof (intro allI impI)
  fix x assume x: "resolve_entry os f0 t \<noteq> Inr x" "resolve_entry os f0 p \<noteq> Inr x"
  then have "resolve_entry os f q \<noteq> Inr x"
    using resolve_entry_mono[OF assms(1,3,4), of os x] assms(5) by metis
  then have "snd (remove_file os f q) x = f x" by (rule remove_file_frame)
  also have "f x = f0 x" using assms(2) x by (simp add: same_outside_def)
  finally show "snd (remove_file os f q) x = f0 x" .
qed

lemma same_outside_write:
  assumes "skel_le f f0" and "same_outside os t p f0 f" and "parts p \<noteq> []" and "plain_name (last (parts p))"
    and "resolve_entry os f p = Inr l"
  shows "same_outside os t p f0 (f(l \<mapsto> Regular bs))"
  using assms resolve_entry_mono[OF assms(1,3,4)] by (auto simp: same_outside_def)

lemma attempt_same_outside:
  assumes "part_ok os t p" and "skel_le (fst (snd s)) f0 \<and> same_outside os t p f0 (fst (snd s))"
  shows "download_attempt lc os url t p v s = Continue s' \<Longrightarrow>
           skel_le (fst (snd s')) f0 \<and> same_outside os t p f0 (fst (snd s'))"
    and "download_attempt lc os url t p v s = Return r \<Longrightarrow>
           same_outside os t p f0 (fst (snd (snd r)))"
proof -
  obtain net f q where s: "s = (net, f, q)" by (cases s)
  note ok = part_okD[OF assms(1)]
  have le: "skel_le f f0" and same: "same_outside os t p f0 f" using assms(2) by (simp_all add: s)
  have wr: "skel_le (f(l \<mapsto> Regular bs)) f0 \<and> same_outside os t p f0 (f(l \<mapsto> Regular bs))"
    if "resolve_entry os f p = Inr l" for l bs
    using same_outside_write[OF le same ok(3,4) that] skel_le_trans[OF skel_le_regular le] by blast
  have removed: "skel_le (snd (remove_file os (f(l \<mapsto> Regular bs)) t)) f0
      \<and> same_outside os t p f0 (snd (remove_file os (f(l \<mapsto> Regular bs)) t))"
    if "resolve_entry os f p = Inr l" for l bs
    using wr[OF that] same_outside_remove[OF _ _ ok(1,2)] skel_le_trans[OF skel_le_remove_file]
    by blast
  show "skel_le (fst (snd s')) f0 \<and> same_outside os t p f0 (fst (snd s'))"
    if "download_attempt lc os url t p v s = Continue s'"
    using ok(3-5)
    by (cases rule: download_attempt_cases[of p os lc url t v net f q])
       (use that s wr removed rename_failed in fastforce)+
  show "same_outside os t p f0 (fst (snd (snd r)))"
    if ret: "download_attempt lc os url t p v s = Return r"
    using ok(3-5)
  proof (cases rule: download_attempt_cases[of p os lc url t v net f q])
    case not_opened
    then show ?thesis using ret s same_outside_remove[OF le same ok(3,4)] by auto
  next
    case (published l content st f5)
    let ?f4 = "snd (remove_file os (f(l \<mapsto> Regular content)) t)"
    have "f5 x = ?f4 x" if "resolve_entry os f0 t \<noteq> Inr x" "resolve_entry os f0 p \<noteq> Inr x" for x
      using that rename_file_frame[OF published(6)] removed[OF published(1), of content]
        resolve_entry_mono[OF _ ok(1,2)] resolve_entry_mono[OF _ ok(3,4)] by blast
    then show ?thesis using ret s published removed[OF published(1), of content]
      by (auto simp: same_outside_def)
  qed (use ret s in auto)
qed

interpretation dl_frame: retry_contract "download_attempt lc os url target partial v"
  "\<lambda>s. part_ok os target partial \<and> skel_le (fst (snd s)) f0 \<and> same_outside os target partial f0 (fst (snd s))"
  "\<lambda>r. same_outside os target partial f0 (fst (snd (snd r)))"
  for lc os url target partial v f0
  by unfold_locales (use attempt_same_outside in blast)+


section \<open>A failed download\<close>

definition no_special :: "fs \<Rightarrow> string list \<Rightarrow> bool" where
  "no_special f x \<longleftrightarrow> f x \<noteq> Some Dir \<and> (\<forall>u. f x \<noteq> Some (Symlink u))"

text \<open>
  The target and its \<open>.part\<close> file are missing or regular files, and the operating system lets
  the program rename the one to the other.
\<close>

definition calm_part :: "os \<Rightarrow> path \<Rightarrow> path \<Rightarrow> fs \<Rightarrow> string list \<Rightarrow> string list \<Rightarrow> bool" where
  "calm_part os t p f0 a b \<longleftrightarrow> part_ok os t p \<and> (\<forall>g. refuse os Rename p g = None)
     \<and> resolve_entry os f0 t = Inr b \<and> resolve_entry os f0 p = Inr a \<and> a \<noteq> b
     \<and> no_special f0 a \<and> no_special f0 b"

definition keeps_target :: "fs \<Rightarrow> string list \<Rightarrow> fs \<Rightarrow> bool" where
  "keeps_target f0 b f \<longleftrightarrow> skel_le f0 f \<and> skel_le f f0 \<and> f b = f0 b"

lemma keeps_target_upd:
  assumes "keeps_target f0 b f" and "no_special f0 a" and "a \<noteq> b" and "n = None \<or> (\<exists>bs. n = Some (Regular bs))"
  shows "keeps_target f0 b (f(a := n))"
proof -
  have sk: "skel_le f0 f" "skel_le f f0" using assms(1) by (simp_all add: keeps_target_def)
  have "skel_le f0 (f(a := n))"
    using sk(1) assms(2) unfolding skel_le_def no_special_def by auto
  moreover have "skel_le (f(a := n)) f0"
    using sk(2) assms(4) unfolding skel_le_def by auto
  ultimately show ?thesis using assms(1,3) by (simp add: keeps_target_def)
qed

lemma remove_part_calm:
  assumes "calm_part os t p f0 a b" and "keeps_target f0 b f"
  shows "snd (remove_file os f p) = f(a := None)" and "keeps_target f0 b (f(a := None))"
proof -
  have ok: "part_ok os t p" and a: "resolve_entry os f0 p = Inr a" and na: "no_special f0 a" "a \<noteq> b"
    using assms(1) by (simp_all add: calm_part_def)
  have sk: "skel_le f0 f" "skel_le f f0" using assms(2) by (simp_all add: keeps_target_def)
  note ok = part_okD[OF ok]
  have "resolve_entry os f p = Inr a" by (rule resolve_entry_mono[OF sk(1) ok(3,4) a])
  moreover have "f a \<noteq> Some Dir" using sk(2) na(1) by (auto simp: skel_le_def no_special_def)
  ultimately show "snd (remove_file os f p) = f(a := None)"
    using ok(5) by (auto simp: remove_file_def fun_upd_idem split: option.splits node.splits)
  show "keeps_target f0 b (f(a := None))"
    by (rule keeps_target_upd[OF assms(2) na]) simp
qed

lemma rename_part_calm:
  assumes calm: "calm_part os t p f0 a b" and keep: "keeps_target f0 b (f(a \<mapsto> Regular c))"
  shows "fst (rename_file os (snd (remove_file os (f(a \<mapsto> Regular c)) t)) p t) = None"
proof -
  let ?f3 = "f(a \<mapsto> Regular c)" and ?f4 = "snd (remove_file os (f(a \<mapsto> Regular c)) t)"
  have "part_ok os t p" using calm by (simp add: calm_part_def)
  note ok = part_okD[OF this]
  have sk: "skel_le f0 ?f3" and b3: "?f3 b = f0 b" using keep by (auto simp: keeps_target_def)
  have t3: "resolve_entry os ?f3 t = Inr b" and p3: "resolve_entry os ?f3 p = Inr a"
    using calm resolve_entry_mono[OF sk ok(1,2)] resolve_entry_mono[OF sk ok(3,4)]
    by (auto simp: calm_part_def)
  have f4: "?f4 = ?f3 \<or> ?f4 = ?f3(b := None)"
    using t3 by (auto simp: remove_file_def split: option.splits node.splits)
  have "no_special ?f3 b" using b3 calm by (simp add: calm_part_def no_special_def)
  then have "skel_le ?f3 ?f4" using f4 by (auto simp: skel_le_def no_special_def)
  then have "resolve_entry os ?f4 t = Inr b" "resolve_entry os ?f4 p = Inr a"
    using t3 p3 resolve_entry_mono[OF _ ok(1,2)] resolve_entry_mono[OF _ ok(3,4)] by blast+
  moreover have "?f4 a = Some (Regular c)" "?f4 b \<noteq> Some Dir" "refuse os Rename p ?f4 = None"
    using f4 calm b3 by (auto simp: calm_part_def no_special_def)
  ultimately show ?thesis by (simp add: rename_file_def)
qed

lemma attempt_calm:
  assumes calm: "calm_part os t p f0 a b" and keep: "keeps_target f0 b (fst (snd s))"
  shows "download_attempt lc os url t p v s = Continue s' \<Longrightarrow> keeps_target f0 b (fst (snd s'))"
    and "download_attempt lc os url t p v s = Return r \<Longrightarrow>
           fst r \<or> (fst (snd (snd r)) b = f0 b \<and> fst (snd (snd r)) a = None)"
proof -
  obtain net f q where s: "s = (net, f, q)" by (cases s)
  have keep: "keeps_target f0 b f" using keep s by simp
  have ok: "part_ok os t p" using calm by (simp add: calm_part_def)
  note ok = part_okD[OF ok]
  have la: "l = a" if "resolve_entry os f p = Inr l" for l
  proof -
    have "skel_le f f0" using keep by (simp add: keeps_target_def)
    from resolve_entry_mono[OF this ok(3,4) that] calm show ?thesis by (simp add: calm_part_def)
  qed
  have up: "keeps_target f0 b (f(a \<mapsto> Regular c))" for c
    using calm by (intro keeps_target_upd[OF keep]) (auto simp: calm_part_def)
  show "keeps_target f0 b (fst (snd s'))" if step: "download_attempt lc os url t p v s = Continue s'"
    using ok(3-5)
  proof (cases rule: download_attempt_cases[of p os lc url t v net f q])
    case (unpublished l content st f5 m)
    then show ?thesis using rename_part_calm[OF calm up, of content] la by simp
  qed (use step s la up in auto)
  show "fst r \<or> (fst (snd (snd r)) b = f0 b \<and> fst (snd (snd r)) a = None)"
    if step: "download_attempt lc os url t p v s = Return r"
    using ok(3-5)
  proof (cases rule: download_attempt_cases[of p os lc url t v net f q])
    case not_opened
    then show ?thesis using step s remove_part_calm[OF calm keep] by (auto simp: keeps_target_def)
  qed (use step s in auto)
qed

interpretation dl_calm: retry_contract "download_attempt lc os url target partial v"
  "\<lambda>s. calm_part os target partial f0 a b \<and> keeps_target f0 b (fst (snd s))"
  "\<lambda>r. fst r \<or> (fst (snd (snd r)) b = f0 b \<and> fst (snd (snd r)) a = None)"
  for lc os url target partial v f0 a b
proof unfold_locales
  fix s s'
  assume "calm_part os target partial f0 a b \<and> keeps_target f0 b (fst (snd s))"
    and "download_attempt lc os url target partial v s = Continue s'"
  then show "calm_part os target partial f0 a b \<and> keeps_target f0 b (fst (snd s'))"
    using attempt_calm(1) by metis
next
  fix s r
  assume "calm_part os target partial f0 a b \<and> keeps_target f0 b (fst (snd s))"
    and "download_attempt lc os url target partial v s = Return r"
  then show "fst r \<or> (fst (snd (snd r)) b = f0 b \<and> fst (snd (snd r)) a = None)"
    using attempt_calm(2) by metis
qed

lemma download_run:
  assumes "http_download_file lc os url file_path v (net, fs, response) = Some (ok, net', fs', response')"
    and "curl net"
  obtains x where
    "retry_loop (download_attempt lc os url (path_of file_path) (path_of (file_path @ ''.part'')) v)
       (retries net) 0 (net, fs, response) = Some x"
    "(ok, net', fs', response') = (case x of Inl r \<Rightarrow> r
       | Inr (n, f, r) \<Rightarrow> (False, n, snd (remove_file os f (path_of (file_path @ ''.part''))), r))"
  using assms by (auto simp: http_download_file_def Let_def split: if_splits)


text \<open>A download, whether it fails or succeeds, changes nothing but the entries of the target and
  of its \<open>.part\<close> file.\<close>

lemma download_touches_two_entries:
  assumes "http_download_file lc os url file_path v (net, fs, response) = Some (ok, net', fs', response')"
    and "part_ok os (path_of file_path) (path_of (file_path @ ''.part''))"
    and "resolve_entry os fs (path_of file_path) \<noteq> Inr x"
    and "resolve_entry os fs (path_of (file_path @ ''.part'')) \<noteq> Inr x"
  shows "fs' x = fs x"
proof (cases "curl net")
  case False
  then show ?thesis using assms(1) by (simp add: http_download_file_def)
next
  case True
  obtain y where y: "retry_loop (download_attempt lc os url (path_of file_path)
       (path_of (file_path @ ''.part'')) v) (retries net) 0 (net, fs, response) = Some y"
    "(ok, net', fs', response') = (case y of Inl r \<Rightarrow> r
       | Inr (n, f, r) \<Rightarrow> (False, n, snd (remove_file os f (path_of (file_path @ ''.part''))), r))"
    by (rule download_run[OF assms(1) True])
  note ok = part_okD[OF assms(2)]
  have "same_outside os (path_of file_path) (path_of (file_path @ ''.part'')) fs fs"
    by (simp add: same_outside_def)
  with dl_frame.retry_loop_result[OF y(1), of fs] assms(2)
  have "same_outside os (path_of file_path) (path_of (file_path @ ''.part'')) fs fs'"
    using y(2) same_outside_remove[OF _ _ ok(3,4)] by (auto split: sum.splits)
  then show ?thesis using assms(3,4) by (simp add: same_outside_def)
qed


section \<open>The requests\<close>

text \<open>The specification of a request: calls are made until one is answered well.\<close>

definition reply_good :: "curl_reply \<Rightarrow> bool" where
  "reply_good reply \<longleftrightarrow> reply_code reply = CURLE_OK \<and> status_ok (reply_status reply)"

definition reply_text :: "curl_reply \<Rightarrow> string" where
  "reply_text reply = map (\<lambda>b. char_of (unat b)) (concat (reply_chunks reply))"

definition reply_message :: "libcurl \<Rightarrow> curl_reply \<Rightarrow> string" where
  "reply_message lc reply =
     (if reply_code reply = CURLE_OK then unexpected_status (reply_status reply)
      else if reply_text reply = [] then strerror lc (reply_code reply) else reply_text reply)"

definition request_spec :: "libcurl \<Rightarrow> curl_request \<Rightarrow> network \<Rightarrow> bool \<times> network \<times> string" where
  "request_spec lc req net =
     (let reply = (\<lambda>j. transfer lc (calls net + j) req);
          after = (\<lambda>j. net\<lparr>last_http_status := reply_status (reply j), calls := calls net + Suc j\<rparr>)
      in case List.find (\<lambda>j. reply_good (reply j)) [0..<Suc (unat (retries net))] of
           Some j \<Rightarrow> (True, after j, reply_text (reply j))
         | None \<Rightarrow> (False, after (unat (retries net)), reply_message lc (reply (unat (retries net)))))"

lemma fold_write_callback: "fold write_callback cs r = r @ map (\<lambda>b. char_of (unat b)) (concat cs)"
  by (induction cs arbitrary: r) (simp_all add: write_callback_def)

lemma unexpected_status_nonempty [simp]: "unexpected_status s \<noteq> []"
  by (simp add: unexpected_status_def)

lemma perform_request_spec:
  assumes "curl net" and "retries net \<noteq> UINT_MAX"
  shows "perform lc (\<lambda>net. with_body meth b (configure_request url net)) (net, response) =
    Some (request_spec lc (snd (with_body meth b (configure_request url net))) net)"
proof -
  define req where "req = snd (with_body meth b (configure_request url net))"
  define reply where "reply = (\<lambda>j. transfer lc (calls net + j) req)"
  define after where "after = (\<lambda>j. net\<lparr>last_http_status := reply_status (reply j), calls := calls net + Suc j\<rparr>)"
  define msg where "msg = (\<lambda>j. if reply_code (reply j) = CURLE_OK
      then unexpected_status (reply_status (reply j)) else reply_text (reply j))"
  define st where "st = case_nat (net, response, CURLE_FAILED_INIT)
      (\<lambda>j. (after j, msg j, reply_code (reply j)))"
  have "perform_attempt lc (\<lambda>net. with_body meth b (configure_request url net)) (st j) =
     (if reply_good (reply j) then Return (after j, reply_text (reply j)) else Continue (st (Suc j)))" for j
    by (cases j) (auto simp: st_def perform_attempt_def with_body_def configure_request_def req_def[symmetric]
        fold_write_callback reply_text_def reply_good_def reply_def after_def msg_def Let_def req_def)
  from retry_loop_find[OF assms(2), of _ st, OF this] assms(1)
  show ?thesis
    by (auto simp: perform_def st_def request_spec_def Let_def req_def[symmetric] reply_def[symmetric]
        after_def msg_def reply_message_def simp del: upt_Suc split: option.split)
qed

text \<open>C27. Each of the four plain requests makes calls of libcurl until one is answered with success
  and an acceptable status, at most \<open>retries + 1\<close> of them, and reports the body of that answer,
  or the failure of the last one.\<close>

theorem requests_spec:
  assumes "curl net" and "retries net \<noteq> UINT_MAX"
  shows "http_get lc url (net, response) = Some (request_spec lc (snd (configure_request url net)) net)
    \<and> http_post lc url data (net, response) =
        Some (request_spec lc (snd (with_body ''POST'' (Post_Fields data) (configure_request url net))) net)
    \<and> http_put lc url data (net, response) =
        Some (request_spec lc (snd (with_body ''PUT'' (Post_Fields data) (configure_request url net))) net)
    \<and> http_delete lc url (net, response) =
        Some (request_spec lc (snd (with_body ''DELETE'' No_Body (configure_request url net))) net)"
proof -
  have "with_body ''GET'' No_Body (configure_request url n) = configure_request url n" for n
    by (simp add: with_body_def configure_request_def)
  then show ?thesis
    using perform_request_spec[OF assms, of lc "''GET''" No_Body url response]
    by (simp add: http_get_def http_post_def http_put_def http_delete_def perform_request_spec[OF assms])
qed

section \<open>The forms of an upload\<close>

definition forms_inv :: "network \<Rightarrow> network \<times> string \<times> nat \<Rightarrow> bool" where
  "forms_inv net0 = (\<lambda>(net, response, result). forms_freed net \<le> forms_made net
     \<and> forms_made net \<le> forms_freed net + 1
     \<and> forms_made net + calls net0 = forms_made net0 + calls net)"

interpretation up_forms: retry_contract "perform_attempt lc (configure_upload url p)" "forms_inv net0"
  "\<lambda>(net, response). forms_inv net0 (net, response, 0) \<and> status_ok (last_http_status net)"
  for lc url p net0
  by unfold_locales
     (auto simp: forms_inv_def perform_attempt_def configure_upload_def configure_request_def with_body_def
        Let_def split: if_splits)

text \<open>C29. An upload frees every form it makes, one per call of libcurl, whether it succeeds or not;
  one that reports success was answered with an acceptable status, and the file was there.\<close>

theorem upload_frees_forms:
  assumes "http_upload_file lc os fs url file_path (net, response) = Some (success, net', response')"
    and "forms_made net = forms_freed net"
  shows "forms_made net' = forms_freed net' \<and> forms_made net' - forms_made net = calls net' - calls net
    \<and> (success \<longrightarrow> status_ok (last_http_status net') \<and> is_regular_file os fs (path_of file_path))"
proof (cases "curl net \<and> is_regular_file os fs (path_of file_path)")
  case False
  then show ?thesis using assms by (auto simp: http_upload_file_def split: if_splits)
next
  case True
  then obtain x n where x: "retry_loop (perform_attempt lc (configure_upload url (path_of file_path)))
      (retries net) 0 (net, response, CURLE_FAILED_INIT) = Some x"
    "(success, n, response') = (case x of Inl r \<Rightarrow> (True, r)
       | Inr (n, r, c) \<Rightarrow> (False, n, if r = [] then strerror lc c else r))"
    "net' = (if forms_made n > forms_freed n then n\<lparr>forms_freed := forms_freed n + 1\<rparr> else n)"
    using assms(1) by (auto simp: http_upload_file_def perform_def)
  have "forms_inv net (net, response, CURLE_FAILED_INIT)" using assms(2) by (simp add: forms_inv_def)
  from up_forms.retry_loop_result[OF x(1) this] x(2,3) True assms(2) show ?thesis
    by (auto simp: forms_inv_def split: sum.splits if_splits)
qed


section \<open>The retry count stays\<close>

interpretation keep_retries: retry_contract "perform_attempt lc configure"
  "\<lambda>s. (\<forall>net. retries (fst (configure net)) = retries net) \<and> retries (fst s) = k"
  "\<lambda>r. retries (fst r) = k"
  for lc configure k
proof unfold_locales
  have step: "retries (case perform_attempt lc configure s of Return r \<Rightarrow> fst r | Continue t \<Rightarrow> fst t) = retries (fst s)"
    if "\<forall>net. retries (fst (configure net)) = retries net" for s
  proof -
    obtain net r c where s: "s = (net, r, c)" by (cases s)
    obtain net1 req where conf: "configure net = (net1, req)" by fastforce
    have "retries net1 = retries net" using that[rule_format, of net] conf by simp
    then show ?thesis by (simp add: s perform_attempt_def conf Let_def)
  qed
  fix s s' :: "network \<times> string \<times> nat" and r :: "network \<times> string"
  assume I: "(\<forall>net. retries (fst (configure net)) = retries net) \<and> retries (fst s) = k"
  show "perform_attempt lc configure s = Continue s' \<Longrightarrow>
      (\<forall>net. retries (fst (configure net)) = retries net) \<and> retries (fst s') = k"
    using I step[of s] by simp
  show "perform_attempt lc configure s = Return r \<Longrightarrow> retries (fst r) = k"
    using I step[of s] by simp
qed

lemma perform_retries:
  assumes "perform lc configure (net, response) = Some (ok, net', response')"
    and "\<And>net. retries (fst (configure net)) = retries net"
  shows "retries net' = retries net"
proof (cases "curl net")
  case False
  then show ?thesis using assms(1) by (simp add: perform_def)
next
  case True
  then obtain x where x: "retry_loop (perform_attempt lc configure) (retries net) 0
      (net, response, CURLE_FAILED_INIT) = Some x"
    "(ok, net', response') = (case x of Inl r \<Rightarrow> (True, r)
       | Inr (n, r, c) \<Rightarrow> (False, n, if r = [] then strerror lc c else r))"
    using assms(1) by (auto simp: perform_def)
  from keep_retries.retry_loop_result[OF x(1), of "retries net"] assms(2) x(2) show ?thesis
    by (auto split: sum.splits)
qed

lemma upload_retries:
  assumes "http_upload_file lc os fs url file_path (net, response) = Some (ok, net', response')"
  shows "retries net' = retries net"
proof -
  have "retries (fst (configure_upload url p net)) = retries net" for p net
    by (simp add: configure_upload_def configure_request_def with_body_def Let_def)
  from perform_retries[OF _ this] assms show ?thesis
    by (fastforce simp: http_upload_file_def split: if_splits)
qed

interpretation dl_retries: retry_contract "download_attempt lc os url target partial v"
  "\<lambda>s. retries (fst s) = k" "\<lambda>r. retries (fst (snd r)) = k"
  for lc os url target partial v k
proof unfold_locales
  have step: "retries (case download_attempt lc os url target partial v s of
      Return r \<Rightarrow> fst (snd r) | Continue t \<Rightarrow> fst t) = retries (fst s)" for s
    by (cases s) (auto simp: download_attempt_def configure_request_def Let_def split: option.split prod.split)
  fix s s' :: download_state and r :: "bool \<times> download_state"
  assume I: "retries (fst s) = k"
  show "download_attempt lc os url target partial v s = Continue s' \<Longrightarrow> retries (fst s') = k"
    using I step[of s] by simp
  show "download_attempt lc os url target partial v s = Return r \<Longrightarrow> retries (fst (snd r)) = k"
    using I step[of s] by simp
qed

lemma download_retries:
  assumes "http_download_file lc os url file_path v (net, fs, response) = Some (ok, net', fs', response')"
  shows "retries net' = retries net"
proof (cases "curl net")
  case False
  then show ?thesis using assms(1) by (simp add: http_download_file_def)
next
  case True
  from assms True obtain x where x:
    "retry_loop (download_attempt lc os url (path_of file_path) (path_of (file_path @ ''.part'')) v)
       (retries net) 0 (net, fs, response) = Some x"
    "(ok, net', fs', response') = (case x of Inl r \<Rightarrow> r
       | Inr (n, f, r) \<Rightarrow> (False, n, snd (remove_file os f (path_of (file_path @ ''.part''))), r))"
    by (rule download_run)
  from dl_retries.retry_loop_result[OF x(1), of "retries net"] x(2) show ?thesis
    by (auto split: sum.splits)
qed

lemma perform_returns: "retries net \<noteq> UINT_MAX \<Longrightarrow> perform lc configure (net, response) \<noteq> None"
proof
  assume "retries net \<noteq> UINT_MAX" and none: "perform lc configure (net, response) = None"
  from retry_loop_returns[OF this(1)] obtain x where
    "retry_loop (perform_attempt lc configure) (retries net) 0 (net, response, CURLE_FAILED_INIT) = Some x" ..
  with none show False by (simp add: perform_def split: if_splits)
qed

lemma download_not_none:
  "retries net \<noteq> UINT_MAX \<Longrightarrow> http_download_file lc os url file_path v (net, fs, response) \<noteq> None"
proof
  assume "retries net \<noteq> UINT_MAX" and none: "http_download_file lc os url file_path v (net, fs, response) = None"
  from retry_loop_returns[OF this(1)] obtain x where
    "retry_loop (download_attempt lc os url (path_of file_path)
      (path_of (file_path @ ''.part'')) v) (retries net) 0 (net, fs, response) = Some x" ..
  with none show False by (simp add: http_download_file_def Let_def split: if_splits)
qed

lemma upload_not_none:
  "retries net \<noteq> UINT_MAX \<Longrightarrow> http_upload_file lc os fs url file_path (net, response) \<noteq> None"
  using perform_returns[of net lc "configure_upload url (path_of file_path)" response]
  by (cases "perform lc (configure_upload url (path_of file_path)) (net, response)")
     (simp_all add: http_upload_file_def del: not_None_eq)

text \<open>C28. Below the largest retry count every operation of the class returns, whatever libcurl and the
  file system do.\<close>

theorem network_returns:
  assumes "retries net \<noteq> UINT_MAX"
  shows "(\<exists>r. http_download_file lc os url file_path v (net, fs, response) = Some r)
    \<and> (\<exists>r. http_upload_file lc os fs url file_path (net, response) = Some r)
    \<and> (\<exists>r. http_get lc url (net, response) = Some r)
    \<and> (\<exists>r. http_post lc url data (net, response) = Some r)
    \<and> (\<exists>r. http_put lc url data (net, response) = Some r)
    \<and> (\<exists>r. http_delete lc url (net, response) = Some r)"
proof -
  have p: "\<exists>r. perform lc configure (net, response) = Some r" for configure
    using perform_returns[OF assms] by simp
  have "\<exists>r. http_upload_file lc os fs url file_path (net, response) = Some r"
    using upload_not_none[OF assms] by simp
  moreover have "\<exists>r. http_download_file lc os url file_path v (net, fs, response) = Some r"
    using download_not_none[OF assms] by simp
  ultimately show ?thesis
    using p by (simp add: http_get_def http_post_def http_put_def http_delete_def)
qed

end
