(* ===== verification/Sync_Types.thy ===== *)
theory Sync_Types
  imports Network
begin

text \<open>
  The data of \<^verbatim>\<open>net/sync_manager.h\<close>: the three enumerations, the configuration, a task and its
  result, and the name of a service state as the log prints it. Times are in milliseconds.
\<close>

datatype sync_direction = Download | Upload

datatype task_state = Pending | InProgress | Completed | Failed | Retry | Cancelled

datatype service_state = Connecting | Connected | Disconnected | Error | Stopping

record sync_config =
  local_root :: path
  health_url :: string
  cfg_user_agent :: string
  large_file_threshold :: u64
  small_file_workers :: u32
  large_file_workers :: u32
  max_retries :: u32
  network_timeout_ms :: int
  retry_delay :: int
  monitor_interval :: int

text \<open>A configuration as its default member initialisers leave it.\<close>

definition default_config :: sync_config where
  "default_config = \<lparr>local_root = Path False [], health_url = [], cfg_user_agent = ''clsync/1.0'',
     large_file_threshold = 8 * 1024 * 1024, small_file_workers = 2, large_file_workers = 2,
     max_retries = 3, network_timeout_ms = 30000, retry_delay = 500, monitor_interval = 1000\<rparr>"

record sync_task =
  task_id :: string
  direction :: sync_direction
  task_url :: string
  local_path :: path
  validation :: download_validation

record sync_result =
  res_task :: sync_task
  res_state :: task_state
  res_attempts :: u32
  res_http_status :: int
  res_error :: string

text \<open>\<open>SyncResult{task}\<close>: the other members have their defaults.\<close>

definition new_result :: "sync_task \<Rightarrow> sync_result" where
  "new_result t = \<lparr>res_task = t, res_state = Pending, res_attempts = 0, res_http_status = 0, res_error = []\<rparr>"

record queue_item =
  item_id :: string
  item_large :: bool
  ready_at :: int

fun state_name :: "service_state \<Rightarrow> string" where
  "state_name Connecting = ''CONNECTING''"
| "state_name Connected = ''CONNECTED''"
| "state_name Disconnected = ''DISCONNECTED''"
| "state_name Error = ''ERROR''"
| "state_name Stopping = ''STOPPING''"

text \<open>The states in which a task waits in a queue, and those it never leaves.\<close>

definition queued_state :: "task_state \<Rightarrow> bool" where
  "queued_state s \<longleftrightarrow> s = Pending \<or> s = Retry"

definition terminal_state :: "task_state \<Rightarrow> bool" where
  "terminal_state s \<longleftrightarrow> s = Completed \<or> s = Failed \<or> s = Cancelled"

lemma task_state_cases: "queued_state s \<or> s = InProgress \<or> terminal_state s"
  by (cases s) (auto simp: queued_state_def terminal_state_def)

end
