(* ===== verification/Result_Store.thy ===== *)
theory Result_Store
  imports Sync_Types
begin

text \<open>
  The \<open>std::unordered_map\<close> \<open>results_\<close> of \<^verbatim>\<open>net/sync_manager.h\<close>: an association list in the
  order of iteration, which the C++ library leaves open, with at most one entry per key. The
  interface \<open>keyed_store\<close> is what the manager relies on: \<open>find\<close>, \<open>emplace\<close> of a new key, a
  change through the reference that \<open>at\<close> returns, and a change of all entries in a loop.
\<close>

locale keyed_store =
  fixes wf :: "'s \<Rightarrow> bool"
    and find :: "'s \<Rightarrow> 'k \<Rightarrow> 'v option"
    and emplace :: "'k \<Rightarrow> 'v \<Rightarrow> 's \<Rightarrow> 's"
    and change :: "'k \<Rightarrow> ('v \<Rightarrow> 'v) \<Rightarrow> 's \<Rightarrow> 's"
    and change_all :: "('v \<Rightarrow> 'v) \<Rightarrow> 's \<Rightarrow> 's"
  assumes wf_emplace: "wf s \<Longrightarrow> find s k = None \<Longrightarrow> wf (emplace k v s)"
    and wf_change: "wf s \<Longrightarrow> wf (change k f s)"
    and wf_change_all: "wf s \<Longrightarrow> wf (change_all g s)"
    and find_emplace: "find s k = None \<Longrightarrow> find (emplace k v s) j = (if j = k then Some v else find s j)"
    and find_change: "find (change k f s) j = (if j = k then map_option f (find s j) else find s j)"
    and find_change_all: "find (change_all g s) j = map_option g (find s j)"
begin

lemma change_same: "find s k = Some v \<Longrightarrow> find (change k f s) k = Some (f v)"
  by (simp add: find_change)

text \<open>A property of all entries is kept when it is kept at the changed one.\<close>

lemma all_change:
  assumes "\<And>j v. find s j = Some v \<Longrightarrow> P j v" and "\<And>v. find s k = Some v \<Longrightarrow> P k (f v)"
  shows "find (change k f s) j = Some w \<Longrightarrow> P j w"
  using assms by (auto simp: find_change split: if_splits)

lemma all_change_all:
  assumes "\<And>j v. find s j = Some v \<Longrightarrow> P j (g v)"
  shows "find (change_all g s) j = Some w \<Longrightarrow> P j w"
  using assms by (auto simp: find_change_all)

lemma all_emplace:
  assumes "\<And>j v. find s j = Some v \<Longrightarrow> P j v" and "P k v" and "find s k = None"
  shows "find (emplace k v s) j = Some w \<Longrightarrow> P j w"
  using assms by (auto simp: find_emplace split: if_splits)

end

type_synonym result_map = "(string \<times> sync_result) list"

definition results_ok :: "result_map \<Rightarrow> bool" where
  "results_ok rs \<longleftrightarrow> distinct (map fst rs)"

definition emplace_result :: "string \<Rightarrow> sync_result \<Rightarrow> result_map \<Rightarrow> result_map" where
  "emplace_result k r rs = rs @ [(k, r)]"

definition change_result :: "string \<Rightarrow> (sync_result \<Rightarrow> sync_result) \<Rightarrow> result_map \<Rightarrow> result_map" where
  "change_result k f rs = map (\<lambda>(j, r). (j, if j = k then f r else r)) rs"

definition change_results :: "(sync_result \<Rightarrow> sync_result) \<Rightarrow> result_map \<Rightarrow> result_map" where
  "change_results f rs = map (\<lambda>(j, r). (j, f r)) rs"

lemma map_of_change_result:
  "map_of (change_result k f rs) j = (if j = k then map_option f (map_of rs j) else map_of rs j)"
  by (induction rs) (auto simp: change_result_def)

lemma map_of_change_results: "map_of (change_results f rs) j = map_option f (map_of rs j)"
  by (induction rs) (auto simp: change_results_def)

lemma map_of_emplace_result:
  "map_of rs k = None \<Longrightarrow> map_of (emplace_result k r rs) j = (if j = k then Some r else map_of rs j)"
  by (auto simp: emplace_result_def map_add_def split: option.split)

lemma keys_change_result [simp]: "map fst (change_result k f rs) = map fst rs"
  by (induction rs) (auto simp: change_result_def)

lemma keys_change_results [simp]: "map fst (change_results f rs) = map fst rs"
  by (induction rs) (auto simp: change_results_def)

interpretation store: keyed_store results_ok map_of emplace_result change_result change_results
proof unfold_locales
  fix s k v assume "results_ok s" "map_of s k = None"
  then show "results_ok (emplace_result k v s)"
    by (auto simp: results_ok_def emplace_result_def map_of_eq_None_iff)
qed (simp_all add: results_ok_def map_of_change_result map_of_change_results map_of_emplace_result)

end
