(* ===== verification/Ipc_Command.thy ===== *)
theory Ipc_Command
  imports Sync_Types
begin

text \<open>
  The text commands of \<^verbatim>\<open>net/SYNC_PROTOCOL.md\<close> as \<^verbatim>\<open>net/sync_manager.cpp\<close> reads them:
  \<open>parse_tokens\<close>, \<open>valid_checksum\<close>, \<open>is_http_url\<close>, and the part of \<open>enqueue_ipc_command\<close> that
  turns a command into a task. How a client spells a token is defined here too, and the theory
  proves that reading undoes it.
\<close>

section \<open>Tokens\<close>

definition backslash :: char where "backslash = CHR 0x5C"

fun tokens_loop :: "string \<Rightarrow> string list \<Rightarrow> string \<Rightarrow> bool \<Rightarrow> char \<Rightarrow> string list" where
  "tokens_loop [] tokens current in_quotes quote_char =
     (if current \<noteq> [] \<or> in_quotes then tokens @ [current] else tokens)"
| "tokens_loop (ch # rest) tokens current in_quotes quote_char =
     (if in_quotes then
        (if ch = quote_char then tokens_loop rest tokens current False quote_char
         else if ch = backslash \<and> rest \<noteq> []
              then tokens_loop (tl rest) tokens (current @ [hd rest]) True quote_char
         else tokens_loop rest tokens (current @ [ch]) True quote_char)
      else if ch = CHR 0x22 \<or> ch = CHR 0x27 then tokens_loop rest tokens current True ch
      else if isspace ch then
        (if current \<noteq> [] then tokens_loop rest (tokens @ [current]) [] False quote_char
         else tokens_loop rest tokens current False quote_char)
      else tokens_loop rest tokens (current @ [ch]) False quote_char)"

definition parse_tokens :: "string \<Rightarrow> string list" where
  "parse_tokens command = tokens_loop command [] [] False CHR 0x00"

definition valid_checksum :: "string \<Rightarrow> bool" where
  "valid_checksum value \<longleftrightarrow> value = [] \<or> (length value = 64 \<and> list_all isxdigit value)"

definition is_http_url :: "string \<Rightarrow> bool" where
  "is_http_url value =
     (let scheme = map tolower (case str_find '':'' value of Some n \<Rightarrow> take n value | None \<Rightarrow> value)
      in scheme = ''http'' \<or> scheme = ''https'')"

section \<open>Commands\<close>

datatype ipc_command = Stop_Command | Task_Command sync_task

text \<open>
  \<open>expected_size\<close> and \<open>expected_sha256\<close> of a download. \<open>Inl\<close> is the message in \<open>error\<close>; both
  exceptions of \<open>std::stoull\<close> are caught.
\<close>

definition parse_expected_size :: "string \<Rightarrow> string + u64 option" where
  "parse_expected_size size_token =
     (if size_token \<noteq> ''-'' \<and> size_token \<noteq> [] then
        (case stoull size_token of
           Inl e \<Rightarrow> Inl ''Invalid expected size.''
         | Inr (n, pos) \<Rightarrow> if pos \<noteq> length size_token then Inl ''Invalid expected size.''
                           else Inr (Some n))
      else Inr None)"

definition parse_command :: "string \<Rightarrow> string + ipc_command" where
  "parse_command command =
     (let tokens = parse_tokens command in
      if tokens = [] then Inl ''Empty IPC command.''
      else let operation = tokens ! 0 in
      if operation = ''STOP'' then
        (if length tokens \<noteq> 1 then Inl ''Malformed IPC command.'' else Inr Stop_Command)
      else if operation = ''DOWNLOAD'' then
        (if length tokens \<noteq> 6 then Inl ''Malformed IPC command.''
         else (case parse_expected_size (tokens ! 4) of
             Inl e \<Rightarrow> Inl e
           | Inr sz \<Rightarrow> Inr (Task_Command \<lparr>task_id = tokens ! 1, direction = Download,
               task_url = tokens ! 2, local_path = path_of (tokens ! 3),
               validation = \<lparr>expected_size = sz,
                 expected_sha256 = (if tokens ! 5 \<noteq> ''-'' \<and> tokens ! 5 \<noteq> [] then tokens ! 5 else [])\<rparr>\<rparr>)))
      else if operation = ''UPLOAD'' then
        (if length tokens \<noteq> 4 then Inl ''Malformed IPC command.''
         else Inr (Task_Command \<lparr>task_id = tokens ! 1, direction = Upload,
               task_url = tokens ! 2, local_path = path_of (tokens ! 3),
               validation = \<lparr>expected_size = None, expected_sha256 = []\<rparr>\<rparr>))
      else Inl ''Unsupported IPC command.'')"

section \<open>Reading undoes writing\<close>

text \<open>A token in double quotes, the quote and the backslash escaped; a plain word; a command line.\<close>

fun escape :: "string \<Rightarrow> string" where
  "escape [] = []"
| "escape (c # s) = (if c = CHR 0x22 \<or> c = backslash then [backslash, c] else [c]) @ escape s"

definition quote_token :: "string \<Rightarrow> string" where
  "quote_token t = CHR 0x22 # escape t @ [CHR 0x22]"

definition plain_word :: "string \<Rightarrow> bool" where
  "plain_word t \<longleftrightarrow> (\<forall>c\<in>set t. \<not> isspace c \<and> c \<noteq> CHR 0x22 \<and> c \<noteq> CHR 0x27)"

definition spells :: "string \<Rightarrow> string \<Rightarrow> bool" where
  "spells s t \<longleftrightarrow> s = quote_token t \<or> (plain_word t \<and> s = t)"

fun join_space :: "string list \<Rightarrow> string" where
  "join_space [] = []"
| "join_space [w] = w"
| "join_space (w # ws) = w @ CHR '' '' # join_space ws"

lemma tokens_loop_quote_char:
  "tokens_loop s tokens current False q = tokens_loop s tokens current False q'"
  by (induction s arbitrary: tokens current) auto

lemma tokens_loop_escape:
  "tokens_loop (escape t @ rest) tokens current True CHR 0x22
     = tokens_loop rest tokens (current @ t) True CHR 0x22"
proof (induction t arbitrary: current)
  case Nil
  then show ?case by simp
next
  case (Cons c t)
  then show ?case by (auto simp: backslash_def)
qed

lemma tokens_loop_plain:
  "plain_word t \<Longrightarrow> tokens_loop (t @ rest) tokens current False q
     = tokens_loop rest tokens (current @ t) False q"
  by (induction t arbitrary: current) (auto simp: plain_word_def)

lemma tokens_loop_spells:
  assumes "spells s t"
  shows "tokens_loop (s @ rest) tokens current False q = tokens_loop rest tokens (current @ t) False q"
proof (cases "s = quote_token t")
  case True
  have "tokens_loop (s @ rest) tokens current False q
      = tokens_loop (escape t @ CHR 0x22 # rest) tokens current True CHR 0x22"
    using True by (simp add: quote_token_def)
  also have "\<dots> = tokens_loop rest tokens (current @ t) False CHR 0x22"
    by (simp add: tokens_loop_escape)
  also have "\<dots> = tokens_loop rest tokens (current @ t) False q" by (rule tokens_loop_quote_char)
  finally show ?thesis .
next
  case False
  then show ?thesis using assms tokens_loop_plain by (auto simp: spells_def)
qed

lemma tokens_loop_join:
  assumes "list_all2 spells ss ts" and "\<forall>t\<in>set ts. t \<noteq> []"
  shows "tokens_loop (join_space ss) tokens [] False q = tokens @ ts"
  using assms
proof (induction arbitrary: tokens rule: list_all2_induct)
  case Nil
  then show ?case by simp
next
  case (Cons s ss t ts)
  show ?case
  proof (cases ss)
    case Nil
    then show ?thesis using Cons.hyps Cons.prems tokens_loop_spells[OF Cons.hyps(1), of "[]"] by simp
  next
    case (Cons s' ss')
    have sp: "isspace CHR '' ''" by (simp add: isspace_def)
    have "tokens_loop (join_space (s # ss)) tokens [] False q
        = tokens_loop (CHR '' '' # join_space ss) tokens t False q"
      using Cons tokens_loop_spells[OF Cons.hyps(1), of _ tokens "[]"] by simp
    also have "\<dots> = (tokens @ [t]) @ ts"
      using Cons.IH[of "tokens @ [t]"] Cons.prems sp by simp
    finally show ?thesis by simp
  qed
qed



text \<open>The command a client writes for a task.\<close>

definition size_text :: "u64 option \<Rightarrow> string" where
  "size_text sz = (case sz of None \<Rightarrow> ''-'' | Some n \<Rightarrow> to_string (unat n))"

definition sha_text :: "string \<Rightarrow> string" where
  "sha_text sha = (if sha = [] then ''-'' else sha)"

definition download_command :: "string \<Rightarrow> string \<Rightarrow> string \<Rightarrow> u64 option \<Rightarrow> string \<Rightarrow> string" where
  "download_command tid url lp sz sha = join_space [''DOWNLOAD'', quote_token tid, quote_token url,
     quote_token lp, quote_token (size_text sz), quote_token (sha_text sha)]"

definition upload_command :: "string \<Rightarrow> string \<Rightarrow> string \<Rightarrow> string" where
  "upload_command tid url lp = join_space [''UPLOAD'', quote_token tid, quote_token url, quote_token lp]"

lemma isdigit_minus: "\<not> isdigit CHR ''-''"
  by (simp add: isdigit_def)

lemma size_text_ok: "size_text (Some n) \<noteq> ''-''" "size_text sz \<noteq> []"
proof -
  have "CHR ''-'' \<notin> set (to_string (unat n))" using to_string_digits isdigit_minus by blast
  then show "size_text (Some n) \<noteq> ''-''" by (auto simp: size_text_def)
  show "size_text sz \<noteq> []" by (simp add: size_text_def split: option.split)
qed

lemma parse_size_text: "parse_expected_size (size_text sz) = Inr sz"
proof (cases sz)
  case None
  then show ?thesis by (simp add: parse_expected_size_def size_text_def)
next
  case (Some n)
  have "stoull (size_text sz) = Inr (n, length (size_text sz))"
    using stoull_to_string[of "unat n"] unat_u64_less[of n] Some by (simp add: size_text_def)
  then show ?thesis using size_text_ok Some by (simp add: parse_expected_size_def)
qed

lemma parse_tokens_quoted:
  assumes "plain_word w" and "w \<noteq> []" and "\<forall>t\<in>set ts. t \<noteq> []"
  shows "parse_tokens (join_space (w # map quote_token ts)) = w # ts"
proof -
  have "list_all2 spells (w # map quote_token ts) (w # ts)"
    using assms(1) by (auto simp: spells_def list.rel_map intro: list.rel_refl)
  from tokens_loop_join[OF this, of "[]"] assms show ?thesis by (simp add: parse_tokens_def)
qed

text \<open>C30. A command written for a task is read back as that task: the id, the URL and the path may
  contain white space, quotes and backslashes, every 64-bit size survives, and so does every
  checksum other than a single dash.\<close>

theorem parse_command_roundtrip:
  assumes "tid \<noteq> []" and "url \<noteq> []" and "lp \<noteq> []" and "sha \<noteq> ''-''"
  shows "parse_command (download_command tid url lp sz sha) =
      Inr (Task_Command \<lparr>task_id = tid, direction = Download, task_url = url, local_path = path_of lp,
        validation = \<lparr>expected_size = sz, expected_sha256 = sha\<rparr>\<rparr>)
    \<and> parse_command (upload_command tid url lp) =
      Inr (Task_Command \<lparr>task_id = tid, direction = Upload, task_url = url, local_path = path_of lp,
        validation = \<lparr>expected_size = None, expected_sha256 = []\<rparr>\<rparr>)"
proof -
  have w: "plain_word ''DOWNLOAD''" "plain_word ''UPLOAD''" by (auto simp: plain_word_def isspace_def)
  have "parse_tokens (download_command tid url lp sz sha) =
      [''DOWNLOAD'', tid, url, lp, size_text sz, sha_text sha]"
    using parse_tokens_quoted[OF w(1), of "[tid, url, lp, size_text sz, sha_text sha]"] assms size_text_ok
    by (simp add: download_command_def sha_text_def)
  moreover have "parse_tokens (upload_command tid url lp) = [''UPLOAD'', tid, url, lp]"
    using parse_tokens_quoted[OF w(2), of "[tid, url, lp]"] assms by (simp add: upload_command_def)
  ultimately show ?thesis using assms
    by (auto simp: parse_command_def parse_size_text sha_text_def)
qed

section \<open>What a command may contain\<close>

text \<open>
  The tokens of a command: no error case depends on anything but their number, the first one
  and, for a download, the size.
\<close>

lemma parse_command_cases:
  obtains (empty_line) "parse_tokens command = []" "parse_command command = Inl ''Empty IPC command.''"
  | (stop) "parse_tokens command = [''STOP'']" "parse_command command = Inr Stop_Command"
  | (download) tid url lp sz sha n where "parse_tokens command = [''DOWNLOAD'', tid, url, lp, sz, sha]"
      "parse_expected_size sz = Inr n"
      "parse_command command = Inr (Task_Command \<lparr>task_id = tid, direction = Download, task_url = url,
         local_path = path_of lp,
         validation = \<lparr>expected_size = n, expected_sha256 = (if sha = ''-'' then [] else sha)\<rparr>\<rparr>)"
  | (bad_size) tid url lp sz sha where "parse_tokens command = [''DOWNLOAD'', tid, url, lp, sz, sha]"
      "parse_expected_size sz = Inl ''Invalid expected size.''"
      "parse_command command = Inl ''Invalid expected size.''"
  | (upload) tid url lp where "parse_tokens command = [''UPLOAD'', tid, url, lp]"
      "parse_command command = Inr (Task_Command \<lparr>task_id = tid, direction = Upload, task_url = url,
         local_path = path_of lp, validation = \<lparr>expected_size = None, expected_sha256 = []\<rparr>\<rparr>)"
  | (malformed) op args where "parse_tokens command = op # args"
      "op = ''STOP'' \<and> length args \<noteq> 0 \<or> op = ''DOWNLOAD'' \<and> length args \<noteq> 5
        \<or> op = ''UPLOAD'' \<and> length args \<noteq> 3"
      "parse_command command = Inl ''Malformed IPC command.''"
  | (unsupported) op args where "parse_tokens command = op # args"
      "op \<notin> {''STOP'', ''DOWNLOAD'', ''UPLOAD''}"
      "parse_command command = Inl ''Unsupported IPC command.''"
proof (cases "parse_tokens command")
  case Nil
  then show thesis using empty_line by (simp add: parse_command_def)
next
  case (Cons op args)
  note c = Cons
  have size: "parse_expected_size sz = Inl e \<Longrightarrow> e = ''Invalid expected size.''" for sz e
    by (auto simp: parse_expected_size_def split: if_splits sum.splits)
  show thesis
  proof (cases "op = ''STOP''")
    case True
    then show thesis using c stop malformed by (cases args) (auto simp: parse_command_def)
  next
    case False
    show thesis
    proof (cases "op = ''DOWNLOAD'' \<and> length args = 5")
      case True
      then obtain tid url lp sz sha where a: "args = [tid, url, lp, sz, sha]"
        by (auto simp: numeral_eq_Suc length_Suc_conv)
      show thesis
      proof (cases "parse_expected_size sz")
        case (Inl e)
        then show thesis using c a True size[OF Inl] bad_size by (simp add: parse_command_def)
      next
        case (Inr n)
        then show thesis using c a True download by (auto simp: parse_command_def)
      qed
    next
      case nd: False
      show thesis
      proof (cases "op = ''UPLOAD'' \<and> length args = 3")
        case True
        then obtain tid url lp where "args = [tid, url, lp]" by (auto simp: numeral_eq_Suc length_Suc_conv)
        then show thesis using c True upload by (simp add: parse_command_def)
      next
        case False
        show thesis
        proof (cases "op = ''DOWNLOAD'' \<or> op = ''UPLOAD''")
          case True
          then have "parse_command command = Inl ''Malformed IPC command.''"
            using nd False c by (auto simp: parse_command_def)
          then show thesis using malformed[OF c] True nd False by blast
        next
          case nu: False
          then show thesis using c \<open>op \<noteq> ''STOP''\<close> unsupported[OF c] by (simp add: parse_command_def)
        qed
      qed
    qed
  qed
qed

end
