(* ===== verification/Local_Path.thy ===== *)
theory Local_Path
  imports Sync_Types
begin

text \<open>
  \<open>SyncManager::resolve_local_path\<close> and \<open>SyncManager::is_large_task\<close> of
  \<^verbatim>\<open>net/sync_manager.cpp\<close>: how the relative path of a task becomes a path below the configured
  root, and which of the two queues the task goes to. The theory shows that an accepted path
  leads to a directory below the root, links followed, and that a download to it changes
  nothing elsewhere.
\<close>

section \<open>The two operations\<close>

text \<open>\<open>Inl\<close> is the message left in \<open>error\<close>; the second component is the file system afterwards.\<close>

definition resolve_local_path ::
  "os \<Rightarrow> sync_config \<Rightarrow> fs \<Rightarrow> path \<Rightarrow> bool \<Rightarrow> (string + path) \<times> fs" where
  "resolve_local_path os config fs path create_parent =
     (let normalized = lexically_normal path in
      if path_empty normalized \<or> is_absolute normalized \<or> has_root_directory normalized
         \<or> path_iter normalized = path_iter (path_of ''.'')
      then (Inl ''Local path must be a non-empty relative path.'', fs)
      else if list_ex (\<lambda>part. part = ''..'') (path_iter normalized)
      then (Inl ''Local path must not escape local_root.'', fs)
      else (case weakly_canonical os fs (local_root config) of
          Inl e \<Rightarrow> (Inl (''Cannot resolve local root: '' @ e), fs)
        | Inr root \<Rightarrow>
            let candidate = path_append root normalized;
                (e, fs1) = (if create_parent then create_directories os fs (parent_path candidate)
                            else (None, fs))
            in (case e of
                  Some m \<Rightarrow> (Inl (''Cannot create output directory: '' @ m), fs1)
                | None \<Rightarrow> (case weakly_canonical os fs1 (parent_path candidate) of
                      Inl _ \<Rightarrow> (Inl ''Local path resolves outside local_root.'', fs1)
                    | Inr parent \<Rightarrow>
                        if \<not> is_descendant_of parent root
                        then (Inl ''Local path resolves outside local_root.'', fs1)
                        else (Inr candidate, fs1)))))"

text \<open>The result and the value of the reference argument \<open>error\<close> afterwards.\<close>

definition is_large_task :: "os \<Rightarrow> sync_config \<Rightarrow> fs \<Rightarrow> sync_task \<Rightarrow> string \<Rightarrow> bool \<times> string" where
  "is_large_task os config fs task error =
     (case fst (resolve_local_path os config fs (local_path task) False) of
        Inl e \<Rightarrow> (False, e)
      | Inr path \<Rightarrow>
          (case direction task of
             Download \<Rightarrow> (case expected_size (validation task) of
                 None \<Rightarrow> (False, error)
               | Some n \<Rightarrow> (n \<ge> large_file_threshold config, error))
           | Upload \<Rightarrow> (case file_size os fs path of
                 Inl m \<Rightarrow> (False, ''Cannot read upload file size: '' @ m)
               | Inr n \<Rightarrow> (n \<ge> unat (large_file_threshold config), error))))"

section \<open>Paths without separators inside their elements\<close>

definition slash_free :: "string list \<Rightarrow> bool" where
  "slash_free ws \<longleftrightarrow> (\<forall>w\<in>set ws. CHR ''/'' \<notin> set w)"

lemma slash_free_split: "slash_free (split_slash s)"
proof (induction s)
  case Nil
  then show ?case by (simp add: slash_free_def)
next
  case (Cons c s)
  then show ?case by (auto simp: slash_free_def split: list.splits)
qed

lemma slash_free_path_of: "slash_free (parts (path_of s))"
  using slash_free_split[of s] by (auto simp: path_of_def Let_def slash_free_def)

lemma normal_loop_set: "normal_loop root kept ws sep = (kept', sep') \<Longrightarrow> set kept' \<subseteq> set kept \<union> set ws"
proof (induction root kept ws sep rule: normal_loop.induct)
  case (1 root kept sep)
  then show ?case by simp
next
  case (2 root kept w ws sep)
  then show ?case by (cases kept) (auto split: if_splits; blast)+
qed

lemma slash_free_normal:
  assumes "slash_free (parts p)"
  shows "slash_free (parts (lexically_normal p))"
proof -
  obtain kept sep where l: "normal_loop (has_root_directory p) [] (parts p) False = (kept, sep)"
    by fastforce
  have "set kept \<subseteq> set (parts p)" using normal_loop_set[OF l] by simp
  then have "slash_free kept" using assms by (auto simp: slash_free_def)
  then show ?thesis using l assms by (auto simp: lexically_normal_def slash_free_def)
qed

lemma split_slash_append_slash:
  "CHR ''/'' \<notin> set w \<Longrightarrow> split_slash (w @ CHR ''/'' # s) = w # split_slash s"
  by (induction w) auto

lemma split_slash_plain: "CHR ''/'' \<notin> set w \<Longrightarrow> split_slash w = [w]"
  by (induction w) auto

lemma split_join_slash: "ws \<noteq> [] \<Longrightarrow> slash_free ws \<Longrightarrow> split_slash (join_slash ws) = ws"
  by (induction ws rule: join_slash.induct)
     (auto simp: slash_free_def split_slash_append_slash split_slash_plain)

lemma join_slash_snoc: "ws \<noteq> [] \<Longrightarrow> join_slash (ws @ [w]) = join_slash ws @ CHR ''/'' # w"
  by (induction ws rule: join_slash.induct) auto

text \<open>The text of a path whose elements are names, read back.\<close>

lemma split_path_string:
  assumes "ws \<noteq> []" and "slash_free ws"
  shows "split_slash (path_string (Path True ws)) = [] # ws"
  using split_join_slash[OF assms] by (simp add: path_string_def)

lemma last_path_string:
  assumes "ws \<noteq> []" and "slash_free ws" and "last ws \<noteq> []"
  shows "last (path_string (Path True ws)) \<noteq> CHR ''/''"
proof -
  have "last (split_slash (path_string (Path True ws))) \<noteq> []"
    using split_path_string[OF assms(1,2)] assms(1,3) by simp
  then show ?thesis using split_slash_last[of "path_string (Path True ws)"] by (simp add: path_string_def)
qed

lemma path_of_path_string:
  assumes "ws \<noteq> []" and "slash_free ws" and "\<forall>w\<in>set ws. w \<noteq> []"
  shows "path_of (path_string (Path True ws)) = Path True ws"
proof -
  have "filter (\<lambda>w. w \<noteq> []) ws = ws" using assms(3) by simp
  moreover have "last ws \<noteq> []" using assms by simp
  ultimately show ?thesis
    using split_path_string[OF assms(1,2)] last_path_string[OF assms(1,2)]
    by (simp add: path_of_def Let_def) (simp add: path_string_def)
qed

lemma parent_of_part:
  assumes "ws \<noteq> []" and "slash_free ws" and "\<forall>w\<in>set ws. w \<noteq> []"
  shows "parent_path (path_of (path_string (Path True ws) @ ''.part'')) = Path True (butlast ws)"
proof -
  have "butlast (split_slash (path_string (Path True ws))) = [] # butlast ws"
    using split_path_string[OF assms(1,2)] assms(1) by simp
  moreover have "filter (\<lambda>w. w \<noteq> []) (butlast ws) = butlast ws"
    using assms(3) by (auto simp: filter_id_conv dest: in_set_butlastD)
  ultimately have p: "parts (path_of (path_string (Path True ws) @ ''.part''))
      = butlast ws @ [last (split_slash (path_string (Path True ws))) @ ''.part'']"
    using parts_path_of_append[of "''.part''" "path_string (Path True ws)"] by simp
  then show ?thesis by (simp add: parent_path_def) (simp add: path_of_def Let_def path_string_def)
qed


section \<open>An accepted path stays below the root\<close>

lemma resolve_local_path_no_parent [simp]: "snd (resolve_local_path os config fs path False) = fs"
  by (auto simp: resolve_local_path_def Let_def split: sum.split)

text \<open>What acceptance means.\<close>

lemma resolve_local_pathD:
  assumes "resolve_local_path os config fs path cp = (Inr c, fs1)"
  obtains root parent where
    "weakly_canonical os fs (local_root config) = Inr root"
    "c = path_append root (lexically_normal path)"
    "weakly_canonical os fs1 (parent_path c) = Inr parent" "is_descendant_of parent root"
    "\<not> has_root_directory path" "parts (lexically_normal path) \<noteq> []"
    "parts (lexically_normal path) \<noteq> [''.'']" "''..'' \<notin> set (parts (lexically_normal path))"
    "fs1 = (if cp then snd (create_directories os fs (parent_path c)) else fs)"
    "cp \<Longrightarrow> fst (create_directories os fs (parent_path c)) = None"
proof -
  have dot: "path_iter (path_of ''.'') = [''.'']" by (simp add: path_of_def path_iter_def)
  let ?n = "lexically_normal path"
  have syn: "\<not> path_empty ?n" "\<not> has_root_directory path" "path_iter ?n \<noteq> [''.'']"
    "''..'' \<notin> set (path_iter ?n)"
    using assms by (auto simp: resolve_local_path_def Let_def dot list_ex_iff split: if_splits)
  then have n: "parts ?n \<noteq> []" "parts ?n \<noteq> [''.'']" "''..'' \<notin> set (parts ?n)"
    by (simp_all add: path_empty_def path_iter_def)
  obtain root where root: "weakly_canonical os fs (local_root config) = Inr root"
    using assms syn by (cases "weakly_canonical os fs (local_root config)")
      (simp_all add: resolve_local_path_def Let_def dot list_ex_iff)
  let ?c = "path_append root ?n"
  obtain e f where ef: "(if cp then create_directories os fs (parent_path ?c) else (None, fs)) = (e, f)"
    by fastforce
  have r: "(case e of Some m \<Rightarrow> (Inl (''Cannot create output directory: '' @ m), f)
      | None \<Rightarrow> (case weakly_canonical os f (parent_path ?c) of
            Inl _ \<Rightarrow> (Inl ''Local path resolves outside local_root.'', f)
          | Inr parent \<Rightarrow> if \<not> is_descendant_of parent root
              then (Inl ''Local path resolves outside local_root.'', f) else (Inr ?c, f)))
      = (Inr c, fs1)"
    using assms syn root ef by (simp add: resolve_local_path_def Let_def dot list_ex_iff)
  then have e: "e = None" by (cases e) simp_all
  obtain parent where parent: "weakly_canonical os f (parent_path ?c) = Inr parent"
    "is_descendant_of parent root" "c = ?c" "fs1 = f"
    using r e by (auto split: sum.splits if_splits)
  show thesis
    by (rule that[of root parent]) (use root parent syn(2) n ef e in \<open>auto split: if_splits\<close>)
qed

lemma weakly_canonical_status:
  assumes "weakly_canonical os fs p = Inr q" and "resolve os fs p = Inr l" and "fs l \<noteq> None"
  shows "q = Path True l"
  using assms by (auto simp: weakly_canonical_def canonical_def status_def split: option.splits)

text \<open>The root of a running manager is a directory that was found at the location \<open>r\<close>.\<close>

definition root_at :: "os \<Rightarrow> sync_config \<Rightarrow> fs \<Rightarrow> string list \<Rightarrow> bool" where
  "root_at os config fs r \<longleftrightarrow> resolve os fs (local_root config) = Inr r \<and> fs r = Some Dir
     \<and> (\<forall>w\<in>set r. w \<noteq> [] \<and> CHR ''/'' \<notin> set w)"

lemma accepted_below_root:
  assumes "resolve_local_path os config fs path cp = (Inr c, fs1)" and "root_at os config fs r"
    and "resolve os fs1 (parent_path c) = Inr d" and "fs1 d \<noteq> None"
  shows "prefix r d"
proof -
  from assms(1) obtain root parent where w: "weakly_canonical os fs (local_root config) = Inr root"
    "weakly_canonical os fs1 (parent_path c) = Inr parent" "is_descendant_of parent root"
    by (rule resolve_local_pathD)
  have "root = Path True r" using weakly_canonical_status[OF w(1)] assms(2) by (simp add: root_at_def)
  moreover have "parent = Path True d" by (rule weakly_canonical_status[OF w(2) assms(3,4)])
  ultimately show ?thesis using w(3) by (simp add: is_descendant_of_prefix path_iter_def)
qed

text \<open>The elements of an accepted path: those of the root, then names.\<close>

lemma accepted_parts:
  assumes "resolve_local_path os config fs path cp = (Inr c, fs1)" and "root_at os config fs r"
    and "slash_free (parts path)" and "last (parts (lexically_normal path)) \<noteq> []"
  obtains ns where "c = Path True (r @ ns)" "ns \<noteq> []" "\<forall>w\<in>set ns. plain_name w"
    "slash_free (r @ ns)" "\<forall>w\<in>set (r @ ns). w \<noteq> []"
proof -
  from assms(1) obtain root where w: "weakly_canonical os fs (local_root config) = Inr root"
    "c = path_append root (lexically_normal path)" "\<not> has_root_directory path"
    "parts (lexically_normal path) \<noteq> []" "parts (lexically_normal path) \<noteq> [''.'']"
    "''..'' \<notin> set (parts (lexically_normal path))"
    by (rule resolve_local_pathD)
  let ?ns = "parts (lexically_normal path)"
  have root: "root = Path True r" using weakly_canonical_status[OF w(1)] assms(2) by (simp add: root_at_def)
  have ns: "\<forall>w\<in>set ?ns. plain_name w"
    using lexically_normal_plain[OF w(3-6)] assms(4) by auto
  have r: "\<forall>w\<in>set r. w \<noteq> [] \<and> CHR ''/'' \<notin> set w" using assms(2) by (simp add: root_at_def)
  have "c = Path True (r @ ?ns)"
    using w r root by (cases "r = []") (auto simp: path_append_def)
  moreover have "slash_free (r @ ?ns)" using slash_free_normal[OF assms(3)] r by (auto simp: slash_free_def)
  ultimately show thesis using that[of ?ns] ns w(4) r by (auto simp: plain_name_def)
qed

lemma entry_below_root:
  assumes "resolve_local_path os config fs path cp = (Inr c, fs1)" and "root_at os config fs r"
    and "parts q \<noteq> []" and "plain_name (last (parts q))" and "parent_path q = parent_path c"
    and "resolve_entry os fs1 q = Inr x"
  shows "strict_prefix r x"
proof -
  obtain d where d: "resolve os fs1 (parent_path q) = Inr d" "fs1 d = Some Dir" "x = d @ [last (parts q)]"
    using assms(3,4,6) by (auto simp: resolve_entry_def split: sum.splits if_splits)
  then have "prefix r d" using accepted_below_root[OF assms(1,2)] assms(5) by simp
  then show ?thesis using d(3) by (auto simp: strict_prefix_def prefix_def)
qed

text \<open>The circumstances of a download to an accepted path.\<close>

lemma accepted_part_ok:
  assumes "resolve_local_path os config fs path cp = (Inr c, fs1)" and "root_at os config fs r"
    and "slash_free (parts path)" and "last (parts (lexically_normal path)) \<noteq> []"
    and "\<And>g. refuse os Unlink (path_of (path_string c @ ''.part'')) g = None"
  shows "path_of (path_string c) = c" and "part_ok os c (path_of (path_string c @ ''.part''))"
    and "parent_path (path_of (path_string c @ ''.part'')) = parent_path c"
proof -
  from assms(1-4) obtain ns where c: "c = Path True (r @ ns)" "ns \<noteq> []" "\<forall>w\<in>set ns. plain_name w"
    "slash_free (r @ ns)" "\<forall>w\<in>set (r @ ns). w \<noteq> []"
    by (rule accepted_parts)
  show "path_of (path_string c) = c" unfolding c(1) by (rule path_of_path_string) (use c in auto)
  show "parent_path (path_of (path_string c @ ''.part'')) = parent_path c"
    using parent_of_part[OF _ c(4,5)] c(1,2) by (simp add: parent_path_def)
  have "parts c \<noteq> []" "plain_name (last (parts c))" using c(1-3) by auto
  then show "part_ok os c (path_of (path_string c @ ''.part''))"
    using path_of_part[of "path_string c"] assms(5) by (simp add: part_ok_def)
qed


end
