(* ===== verification/Sync_Manager.thy ===== *)
theory Sync_Manager
  imports Result_Store Ipc_Command Local_Path
begin

text \<open>
  The class \<open>SyncManager\<close> of \<^verbatim>\<open>net/sync_manager.cpp\<close>: its fields and, as functions on them, its
  operations. An operation that holds \<open>mutex_\<close> for its whole effect is one function; one that
  takes the lock several times is cut at the places where it does not hold it, so that the
  theory \<open>Sync_Steps\<close> can interleave the pieces. \<open>std::unordered_map::at\<close> throws when the key
  is missing; nothing catches that in a worker thread, so such an operation returns \<open>None\<close>.
  A call of the result callback is made after the lock is left; \<open>notified\<close> lists the calls that the
  critical sections have decided on, and the theory \<open>Program\<close> says when they are made.
\<close>

section \<open>Threads and fields\<close>

text \<open>
  What a worker has decided after a transfer: to complete the task, or to try again, in which
  case it may first have to report the service as disconnected.
\<close>

datatype verdict = Finish task_state string int | Disconnect string int | Requeue string int

text \<open>
  Where a worker thread is: in \<open>take_task\<close>; in \<open>process_task\<close> before its first critical
  section, before the transfer, and after it; or at the end of \<open>worker_loop\<close>.
\<close>

datatype worker_pc =
    Taking
  | Started queue_item
  | Loaded queue_item sync_task u32
  | Decided queue_item verdict
  | Exited

record worker =
  w_large :: bool
  w_network :: network
  w_pc :: worker_pc

text \<open>
  The monitor thread: at the test of \<open>stopping_\<close>, before the health request, after it with its
  answer, in the timed wait, or at its end.
\<close>

datatype monitor_pc = Checking | Probing | Probed bool | Waiting | Monitor_Exited

record monitor_thread =
  mon_network :: network
  consecutive_failures :: u32
  mon_pc :: monitor_pc

record manager =
  config :: sync_config
  service :: service_state
  small_queue :: "queue_item list"
  large_queue :: "queue_item list"
  results :: result_map
  has_callback :: bool
  notified :: "sync_result list"
  workers :: "worker list"
  monitor :: "monitor_thread option"
  started :: bool
  stopping :: bool
  active_tasks :: nat

definition new_manager :: "sync_config \<Rightarrow> manager" where
  "new_manager cfg = \<lparr>config = cfg, service = Disconnected, small_queue = [], large_queue = [],
     results = [], has_callback = False, notified = [], workers = [], monitor = None,
     started = False, stopping = False, active_tasks = 0\<rparr>"

definition notify :: "sync_result list \<Rightarrow> manager \<Rightarrow> manager" where
  "notify rs m = (if has_callback m then m\<lparr>notified := notified m @ rs\<rparr> else m)"

definition queue_of :: "bool \<Rightarrow> manager \<Rightarrow> queue_item list" where
  "queue_of large m = (if large then large_queue m else small_queue m)"

definition set_queue :: "bool \<Rightarrow> queue_item list \<Rightarrow> manager \<Rightarrow> manager" where
  "set_queue large q m = (if large then m\<lparr>large_queue := q\<rparr> else m\<lparr>small_queue := q\<rparr>)"

section \<open>Starting and stopping\<close>

text \<open>\<open>worker_loop\<close> and \<open>monitor_loop\<close> up to their loops.\<close>

definition new_worker :: "libcurl \<Rightarrow> sync_config \<Rightarrow> bool \<Rightarrow> worker" where
  "new_worker lc cfg large = \<lparr>w_large = large,
     w_network = new_network lc (network_timeout_ms cfg) 0 (cfg_user_agent cfg), w_pc = Taking\<rparr>"

definition new_monitor :: "libcurl \<Rightarrow> sync_config \<Rightarrow> monitor_thread" where
  "new_monitor lc cfg = \<lparr>mon_network = new_network lc (network_timeout_ms cfg) 0 (cfg_user_agent cfg),
     consecutive_failures = 0, mon_pc = Checking\<rparr>"

text \<open>The return value, \<open>error\<close> afterwards, the manager, the file system.\<close>

definition start ::
  "libcurl \<Rightarrow> os \<Rightarrow> fs \<Rightarrow> string \<Rightarrow> manager \<Rightarrow> bool \<times> string \<times> manager \<times> fs" where
  "start lc os fs error m =
     (let cfg = config m in
      if started m then (True, error, m, fs)
      else if path_empty (local_root cfg) \<or> health_url cfg = []
      then (False, ''local_root and health_url are required.'', m, fs)
      else if small_file_workers cfg = 0 \<or> large_file_workers cfg = 0 \<or> network_timeout_ms cfg \<le> 0
      then (False, ''worker counts and network timeout must be positive.'', m, fs)
      else (case create_directories os fs (local_root cfg) of
          (Some e, fs1) \<Rightarrow> (False, ''Cannot create local root: '' @ e, m, fs1)
        | (None, fs1) \<Rightarrow>
            (True, error,
             m\<lparr>stopping := False, started := True, service := Connecting,
               workers := workers m @ replicate (unat (small_file_workers cfg)) (new_worker lc cfg False)
                 @ replicate (unat (large_file_workers cfg)) (new_worker lc cfg True),
               monitor := Some (new_monitor lc cfg)\<rparr>, fs1)))"

definition fail_result :: "sync_result \<Rightarrow> sync_result" where
  "fail_result r = (if queued_state (res_state r)
     then r\<lparr>res_state := Failed, res_error := (if res_error r = []
              then ''Service health check failed permanently.'' else res_error r)\<rparr>
     else r)"

definition set_service_state :: "service_state \<Rightarrow> manager \<Rightarrow> manager" where
  "set_service_state st m =
     (let previous = service m; m1 = m\<lparr>service := st\<rparr> in
      if previous \<noteq> st \<and> st = Error
      then notify (map fail_result (filter (\<lambda>r. queued_state (res_state r)) (map snd (results m))))
             (m1\<lparr>results := change_results fail_result (results m), small_queue := [], large_queue := []\<rparr>)
      else m1)"

definition cancel_result :: "sync_result \<Rightarrow> sync_result" where
  "cancel_result r = (if queued_state (res_state r) then r\<lparr>res_state := Cancelled\<rparr> else r)"

text \<open>
  \<open>stop\<close> in three pieces: its critical section (\<open>None\<close>: it returns at once), then
  \<open>set_service_state(Stopping)\<close>, then the joins, which block (\<open>None\<close>) until every thread has
  ended.
\<close>

definition stop_request :: "manager \<Rightarrow> manager option" where
  "stop_request m = (if \<not> started m then None
     else Some (m\<lparr>stopping := True, started := False,
       results := change_results cancel_result (results m), small_queue := [], large_queue := []\<rparr>))"

definition stop_signal :: "manager \<Rightarrow> manager" where
  "stop_signal = set_service_state Stopping"

definition stop_join :: "manager \<Rightarrow> manager option" where
  "stop_join m = (if (case monitor m of None \<Rightarrow> True | Some t \<Rightarrow> mon_pc t = Monitor_Exited)
                     \<and> list_all (\<lambda>w. w_pc w = Exited) (workers m)
                  then Some (m\<lparr>monitor := None, workers := []\<rparr>) else None)"

section \<open>Queueing\<close>

definition enqueue ::
  "os \<Rightarrow> fs \<Rightarrow> int \<Rightarrow> sync_task \<Rightarrow> string \<Rightarrow> manager \<Rightarrow> bool \<times> string \<times> manager" where
  "enqueue os fs now task error m =
     (if task_id task = [] \<or> \<not> is_http_url (task_url task) \<or> path_empty (local_path task)
         \<or> \<not> valid_checksum (expected_sha256 (validation task))
      then (False, ''Task requires id, HTTP(S) URL, relative local path, and a valid optional SHA-256.'', m)
      else case is_large_task os (config m) fs task error of (large, error1) \<Rightarrow>
        if error1 \<noteq> [] then (False, error1, m)
        else if \<not> started m \<or> stopping m then (False, ''Sync manager is not running.'', m)
        else if map_of (results m) (task_id task) \<noteq> None then (False, ''Task id already exists.'', m)
        else (True, error1,
              set_queue large (queue_of large m @ [\<lparr>item_id = task_id task, item_large = large, ready_at = now\<rparr>])
                (m\<lparr>results := emplace_result (task_id task) (new_result task) (results m)\<rparr>)))"

text \<open>A command either returns, or calls \<open>stop\<close> and then returns \<open>true\<close>.\<close>

datatype ipc_outcome = Ipc_Return bool string | Ipc_Stop

definition enqueue_ipc_command ::
  "os \<Rightarrow> fs \<Rightarrow> int \<Rightarrow> string \<Rightarrow> string \<Rightarrow> manager \<Rightarrow> ipc_outcome \<times> manager" where
  "enqueue_ipc_command os fs now command error m = (case parse_command command of
       Inl e \<Rightarrow> (Ipc_Return False e, m)
     | Inr Stop_Command \<Rightarrow> (Ipc_Stop, m)
     | Inr (Task_Command task) \<Rightarrow>
         (case enqueue os fs now task error m of (ok, error', m') \<Rightarrow> (Ipc_Return ok error', m')))"

section \<open>Taking a task\<close>

text \<open>
  One round of the loop of \<open>take_task\<close>, from the test of \<open>stopping_\<close> to a return or to a wait on
  \<open>queue_cv_\<close>; the lock is held throughout. After a wait the loop starts over: the test that
  follows the first wait is the one at the top of the loop.
\<close>

datatype take_outcome = No_Task | Task_Taken queue_item manager | Wait_Notify | Wait_Until int | Take_Throws

definition take_result :: "sync_result \<Rightarrow> sync_result" where
  "take_result r = r\<lparr>res_state := InProgress, res_attempts := res_attempts r + 1\<rparr>"

definition take_round :: "bool \<Rightarrow> int \<Rightarrow> manager \<Rightarrow> take_outcome" where
  "take_round large now m =
     (let queue = queue_of large m in
      if stopping m then No_Task
      else if service m = Error then No_Task
      else if service m \<noteq> Connected then Wait_Notify
      else (case List.extract (\<lambda>item. ready_at item \<le> now) queue of
          Some (before, item, after) \<Rightarrow>
            (case map_of (results m) (item_id item) of
               None \<Rightarrow> Take_Throws
             | Some _ \<Rightarrow> Task_Taken item
                 (set_queue large (before @ after)
                   (m\<lparr>results := change_result (item_id item) take_result (results m),
                      active_tasks := active_tasks m + 1\<rparr>)))
        | None \<Rightarrow> if queue = [] then Wait_Notify
                  else Wait_Until (Min (set (map ready_at queue)))))"

section \<open>Processing a task\<close>

definition is_retryable :: "int \<Rightarrow> string \<Rightarrow> bool" where
  "is_retryable http_status error =
     (if contains_str error ''File does not exist'' \<or> contains_str error ''Failed to open file''
         \<or> contains_str error ''Cannot read'' \<or> contains_str error ''Cannot create''
      then False
      else http_status = 0 \<or> http_status = 408 \<or> http_status = 425 \<or> http_status = 429
           \<or> http_status \<ge> 500 \<or> contains_str error ''validation failed'')"

definition idle :: "manager \<Rightarrow> bool" where
  "idle m \<longleftrightarrow> active_tasks m = 0 \<and> small_queue m = [] \<and> large_queue m = []"

definition finish_result :: "task_state \<Rightarrow> string \<Rightarrow> int \<Rightarrow> sync_result \<Rightarrow> sync_result" where
  "finish_result st error code r = r\<lparr>res_state := st, res_error := error, res_http_status := code\<rparr>"

definition complete_task :: "string \<Rightarrow> task_state \<Rightarrow> string \<Rightarrow> int \<Rightarrow> manager \<Rightarrow> manager option" where
  "complete_task tid st error code m = (case map_of (results m) tid of
       None \<Rightarrow> None
     | Some stored \<Rightarrow> Some (notify [finish_result st error code stored]
         (m\<lparr>results := change_result tid (finish_result st error code) (results m),
            active_tasks := active_tasks m - 1\<rparr>)))"

definition requeue_task :: "int \<Rightarrow> queue_item \<Rightarrow> string \<Rightarrow> int \<Rightarrow> manager \<Rightarrow> manager option" where
  "requeue_task now item error code m = (case map_of (results m) (item_id item) of
       None \<Rightarrow> None
     | Some stored \<Rightarrow>
         let given_up = stopping m \<or> service m = Error;
             st = (if given_up then (if stopping m then Cancelled else Failed) else Retry);
             m1 = m\<lparr>results := change_result (item_id item) (finish_result st error code) (results m)\<rparr>;
             m2 = (if given_up then m1
                   else set_queue (item_large item)
                          (queue_of (item_large item) m1 @ [item\<lparr>ready_at := now + retry_delay (config m)\<rparr>]) m1)
         in Some (notify [finish_result st error code stored] (m2\<lparr>active_tasks := active_tasks m2 - 1\<rparr>)))"

text \<open>
  The part of \<open>process_task\<close> that holds no lock: the local path and the transfer. \<open>Inl\<close> is the
  error of a path that is not accepted; \<open>Inr\<close> is success, the HTTP status and \<open>error\<close>.
\<close>

definition transfer_task ::
  "libcurl \<Rightarrow> os \<Rightarrow> sync_config \<Rightarrow> sync_task \<Rightarrow> network \<Rightarrow> fs
    \<Rightarrow> ((string + bool \<times> int \<times> string) \<times> network \<times> fs) option" where
  "transfer_task lc os cfg task net fs =
     (case resolve_local_path os cfg fs (local_path task) (direction task = Download) of
        (Inl e, fs1) \<Rightarrow> Some (Inl e, net, fs1)
      | (Inr p, fs1) \<Rightarrow>
          (case direction task of
             Download \<Rightarrow> map_option (\<lambda>(success, net', fs2, error).
                 (Inr (success, last_http_status net', error), net', fs2))
               (http_download_file lc os (task_url task) (path_string p) (validation task) (net, fs1, []))
           | Upload \<Rightarrow> map_option (\<lambda>(success, net', error).
                 (Inr (success, last_http_status net', error), net', fs1))
               (http_upload_file lc os fs1 (task_url task) (path_string p) (net, []))))"

definition decide :: "sync_config \<Rightarrow> u32 \<Rightarrow> string + bool \<times> int \<times> string \<Rightarrow> verdict" where
  "decide cfg attempts outcome = (case outcome of
       Inl error \<Rightarrow> Finish Failed error 0
     | Inr (success, code, error) \<Rightarrow>
         if success then Finish Completed [] code
         else if is_retryable code error \<and> attempts \<le> max_retries cfg
         then (if code = 0 \<or> code \<ge> 500 then Disconnect error code else Requeue error code)
         else Finish Failed error code)"

definition carry_out :: "int \<Rightarrow> queue_item \<Rightarrow> verdict \<Rightarrow> manager \<Rightarrow> manager option" where
  "carry_out now item v m = (case v of
       Finish st error code \<Rightarrow> complete_task (item_id item) st error code m
     | Disconnect error code \<Rightarrow> requeue_task now item error code (set_service_state Disconnected m)
     | Requeue error code \<Rightarrow> requeue_task now item error code m)"

text \<open>\<open>process_task\<close> when no other thread runs meanwhile.\<close>

definition process_task ::
  "libcurl \<Rightarrow> os \<Rightarrow> int \<Rightarrow> queue_item \<Rightarrow> network \<times> fs \<times> manager \<Rightarrow> (network \<times> fs \<times> manager) option" where
  "process_task lc os now item = (\<lambda>(net, fs, m).
     (case map_of (results m) (item_id item) of
        None \<Rightarrow> None
      | Some r \<Rightarrow>
          (case transfer_task lc os (config m) (res_task r) net fs of
             None \<Rightarrow> None
           | Some (outcome, net', fs') \<Rightarrow>
               map_option (\<lambda>m'. (net', fs', m'))
                 (carry_out now item (decide (config m) (res_attempts r) outcome) m))))"

section \<open>The monitor\<close>

text \<open>The health request, and what its answer does to the failure count and the service state.\<close>

definition probe :: "libcurl \<Rightarrow> sync_config \<Rightarrow> network \<Rightarrow> (bool \<times> network) option" where
  "probe lc cfg net = map_option (\<lambda>(connected, net', response). (connected, net')) (http_get lc (health_url cfg) (net, []))"

definition health_step :: "sync_config \<Rightarrow> bool \<Rightarrow> u32 \<Rightarrow> u32 \<times> service_state" where
  "health_step cfg connected failures =
     (if connected then (0, Connected)
      else let failures1 = failures + 1
           in (failures1, if failures1 > max_retries cfg then Error else Disconnected))"

section \<open>Queries\<close>

text \<open>\<open>wait_for_idle\<close>: the condition it waits for, and its result once the wait has ended.\<close>

definition idle_condition :: "manager \<Rightarrow> bool" where
  "idle_condition m \<longleftrightarrow> idle m \<or> service m = Error \<or> stopping m"

definition wait_for_idle_result :: "manager \<Rightarrow> bool" where
  "wait_for_idle_result m \<longleftrightarrow> idle_condition m \<and> service m \<noteq> Error \<and> \<not> stopping m"

definition result :: "string \<Rightarrow> manager \<Rightarrow> sync_result option" where
  "result tid m = map_of (results m) tid"

definition all_results :: "manager \<Rightarrow> sync_result list" where
  "all_results m = map snd (results m)"

definition service_state_of :: "manager \<Rightarrow> service_state" where
  "service_state_of m = service m"

definition set_result_callback :: "bool \<Rightarrow> manager \<Rightarrow> manager" where
  "set_result_callback present m = m\<lparr>has_callback := present\<rparr>"

end
