(* ===== verification/Sync_Steps.thy ===== *)
theory Sync_Steps
  imports Sync_Manager
begin

text \<open>
  The threads of \<open>SyncManager\<close>: the control thread (the one that calls \<open>start\<close>, \<open>stop\<close>,
  \<open>enqueue\<close> and \<open>enqueue_ipc_command\<close>), the workers and the monitor, interleaved at the points
  where they do not hold \<open>mutex_\<close>. A step of a thread is a function; \<open>None\<close> means that the
  thread is blocked there. Other programs may change the disk between any two steps, and the
  clock may show any time.
\<close>

section \<open>Steps\<close>

text \<open>\<open>Ready\<close>: in no operation; the other two are inside \<open>stop\<close>.\<close>

datatype control_pc = Ready | Signalling | Joining

record world =
  mgr :: manager
  disk :: fs
  control :: control_pc
  crashed :: bool

definition set_worker :: "nat \<Rightarrow> worker \<Rightarrow> manager \<Rightarrow> manager" where
  "set_worker i wk m = m\<lparr>workers := (workers m)[i := wk]\<rparr>"

definition or_crash :: "world \<Rightarrow> (manager \<Rightarrow> manager) \<Rightarrow> manager option \<Rightarrow> world" where
  "or_crash w f r = (case r of None \<Rightarrow> w\<lparr>crashed := True\<rparr> | Some m \<Rightarrow> w\<lparr>mgr := f m\<rparr>)"

text \<open>A worker: \<open>worker_loop\<close> with \<open>take_task\<close> and \<open>process_task\<close>.\<close>

definition worker_step :: "libcurl \<Rightarrow> os \<Rightarrow> int \<Rightarrow> nat \<Rightarrow> world \<Rightarrow> world option" where
  "worker_step lc os now i w =
     (let m = mgr w; wk = workers m ! i; goto = (\<lambda>pc. set_worker i (wk\<lparr>w_pc := pc\<rparr>)) in
      if length (workers m) \<le> i then None
      else (case w_pc wk of
          Taking \<Rightarrow> (case take_round (w_large wk) now m of
              No_Task \<Rightarrow> Some (w\<lparr>mgr := goto Exited m\<rparr>)
            | Task_Taken item m' \<Rightarrow> Some (w\<lparr>mgr := goto (Started item) m'\<rparr>)
            | Take_Throws \<Rightarrow> Some (w\<lparr>crashed := True\<rparr>)
            | _ \<Rightarrow> None)
        | Started item \<Rightarrow> (case map_of (results m) (item_id item) of
              None \<Rightarrow> Some (w\<lparr>crashed := True\<rparr>)
            | Some r \<Rightarrow> Some (w\<lparr>mgr := goto (Loaded item (res_task r) (res_attempts r)) m\<rparr>))
        | Loaded item task attempts \<Rightarrow>
            map_option (\<lambda>(outcome, net', fs').
                w\<lparr>mgr := set_worker i (wk\<lparr>w_network := net',
                      w_pc := Decided item (decide (config m) attempts outcome)\<rparr>) m,
                  disk := fs'\<rparr>)
              (transfer_task lc os (config m) task (w_network wk) (disk w))
        | Decided item (Finish st error code) \<Rightarrow>
            Some (or_crash w (goto Taking) (complete_task (item_id item) st error code m))
        | Decided item (Disconnect error code) \<Rightarrow>
            Some (w\<lparr>mgr := goto (Decided item (Requeue error code)) (set_service_state Disconnected m)\<rparr>)
        | Decided item (Requeue error code) \<Rightarrow>
            Some (or_crash w (goto Taking) (requeue_task now item error code m))
        | Exited \<Rightarrow> None))"

text \<open>The monitor: \<open>monitor_loop\<close>.\<close>

definition monitor_step :: "libcurl \<Rightarrow> world \<Rightarrow> world option" where
  "monitor_step lc w = (let m = mgr w in
     (case monitor m of
        None \<Rightarrow> None
      | Some t \<Rightarrow>
          (case mon_pc t of
             Checking \<Rightarrow> Some (w\<lparr>mgr := m\<lparr>monitor := Some (t\<lparr>mon_pc := if stopping m then Monitor_Exited else Probing\<rparr>)\<rparr>\<rparr>)
           | Probing \<Rightarrow> map_option (\<lambda>(connected, net').
                 w\<lparr>mgr := m\<lparr>monitor := Some (t\<lparr>mon_network := net', mon_pc := Probed connected\<rparr>)\<rparr>\<rparr>)
               (probe lc (config m) (mon_network t))
           | Probed connected \<Rightarrow> (case health_step (config m) connected (consecutive_failures t) of
                 (failures, st) \<Rightarrow> Some (w\<lparr>mgr := (set_service_state st m)\<lparr>monitor :=
                     Some (t\<lparr>consecutive_failures := failures, mon_pc := Waiting\<rparr>)\<rparr>\<rparr>))
           | Waiting \<Rightarrow> Some (w\<lparr>mgr := m\<lparr>monitor := Some (t\<lparr>mon_pc := if stopping m then Monitor_Exited else Checking\<rparr>)\<rparr>\<rparr>)
           | Monitor_Exited \<Rightarrow> None)))"

text \<open>
  The control thread. A command that is \<open>STOP\<close> begins a stop, as \<open>stop\<close> itself does; both do
  nothing when the manager is not started.
\<close>

datatype control_call =
    Call_Start string
  | Call_Enqueue int sync_task string
  | Call_Command int string string
  | Call_Stop
  | Call_Set_Callback bool

definition begin_stop :: "world \<Rightarrow> world" where
  "begin_stop w = (case stop_request (mgr w) of None \<Rightarrow> w | Some m \<Rightarrow> w\<lparr>mgr := m, control := Signalling\<rparr>)"

definition control_step :: "libcurl \<Rightarrow> os \<Rightarrow> control_call \<Rightarrow> world \<Rightarrow> world option" where
  "control_step lc os call w = (case control w of
       Signalling \<Rightarrow> Some (w\<lparr>mgr := stop_signal (mgr w), control := Joining\<rparr>)
     | Joining \<Rightarrow> map_option (\<lambda>m. w\<lparr>mgr := m, control := Ready\<rparr>) (stop_join (mgr w))
     | Ready \<Rightarrow> (case call of
           Call_Start error \<Rightarrow> (case start lc os (disk w) error (mgr w) of
               (ok, error', m, fs) \<Rightarrow> Some (w\<lparr>mgr := m, disk := fs\<rparr>))
         | Call_Enqueue now task error \<Rightarrow> (case enqueue os (disk w) now task error (mgr w) of
               (ok, error', m) \<Rightarrow> Some (w\<lparr>mgr := m\<rparr>))
         | Call_Command now command error \<Rightarrow>
             (case enqueue_ipc_command os (disk w) now command error (mgr w) of
                (Ipc_Return ok error', m) \<Rightarrow> Some (w\<lparr>mgr := m\<rparr>)
              | (Ipc_Stop, m) \<Rightarrow> Some (begin_stop w))
         | Call_Stop \<Rightarrow> Some (begin_stop w)
         | Call_Set_Callback present \<Rightarrow> Some (w\<lparr>mgr := set_result_callback present (mgr w)\<rparr>)))"

inductive step :: "libcurl \<Rightarrow> os \<Rightarrow> world \<Rightarrow> world \<Rightarrow> bool" for lc os where
  worker: "\<not> crashed w \<Longrightarrow> worker_step lc os now i w = Some w' \<Longrightarrow> step lc os w w'"
| monitor: "\<not> crashed w \<Longrightarrow> monitor_step lc w = Some w' \<Longrightarrow> step lc os w w'"
| control: "\<not> crashed w \<Longrightarrow> control_step lc os call w = Some w' \<Longrightarrow> step lc os w w'"
| other_program: "\<not> crashed w \<Longrightarrow> step lc os w (w\<lparr>disk := fs\<rparr>)"

definition initial :: "world \<Rightarrow> bool" where
  "initial w \<longleftrightarrow> (\<exists>cfg. mgr w = new_manager cfg) \<and> control w = Ready \<and> \<not> crashed w"

section \<open>The ledger: tasks in queues, in hands, in the map\<close>

text \<open>
  A bookkeeping predicate on the ids in the queues, the ids that workers hold, the result map,
  and the counter \<open>active_tasks_\<close>.
\<close>

definition attempts_ok :: "u32 \<Rightarrow> sync_result \<Rightarrow> bool" where
  "attempts_ok n r \<longleftrightarrow> n \<noteq> UINT_MAX \<longrightarrow>
     unat (res_attempts r) \<le> unat n + 1 \<and> (queued_state (res_state r) \<longrightarrow> res_attempts r \<le> n)"

definition ledger :: "u32 \<Rightarrow> string list \<Rightarrow> string list \<Rightarrow> result_map \<Rightarrow> nat \<Rightarrow> bool" where
  "ledger n q h rs act \<longleftrightarrow> results_ok rs \<and> distinct (q @ h) \<and> act = length h
     \<and> (\<forall>j. j \<in> set q \<longleftrightarrow> (\<exists>r. map_of rs j = Some r \<and> queued_state (res_state r)))
     \<and> (\<forall>j. j \<in> set h \<longleftrightarrow> (\<exists>r. map_of rs j = Some r \<and> res_state r = InProgress))
     \<and> (\<forall>j r. map_of rs j = Some r \<longrightarrow> task_id (res_task r) = j \<and> attempts_ok n r)"

lemma queued_state_simps [simp]:
  "queued_state Pending" "queued_state Retry" "\<not> queued_state InProgress" "\<not> queued_state Completed"
  "\<not> queued_state Failed" "\<not> queued_state Cancelled"
  by (simp_all add: queued_state_def)

lemma ledger_held:
  "ledger n q h rs act \<Longrightarrow> j \<in> set h \<Longrightarrow> \<exists>r. map_of rs j = Some r \<and> res_state r = InProgress"
  by (auto simp: ledger_def)

lemma ledger_queued:
  "ledger n q h rs act \<Longrightarrow> j \<in> set q \<Longrightarrow> \<exists>r. map_of rs j = Some r \<and> queued_state (res_state r)"
  by (auto simp: ledger_def)

lemma ledger_enqueue:
  assumes "ledger n (q1 @ q2) h rs act" and "map_of rs (task_id t) = None"
  shows "ledger n (q1 @ task_id t # q2) h (emplace_result (task_id t) (new_result t) rs) act"
proof -
  have "task_id t \<notin> set (q1 @ q2)" "task_id t \<notin> set h"
    using ledger_queued[OF assms(1)] ledger_held[OF assms(1)] assms(2) by fastforce+
  then show ?thesis using assms store.wf_emplace[OF _ assms(2)]
    by (auto simp: ledger_def map_of_emplace_result new_result_def attempts_ok_def)
qed

lemma attempts_take:
  assumes "attempts_ok n r" and "queued_state (res_state r)"
  shows "attempts_ok n (take_result r)"
proof -
  have "unat (res_attempts r + 1) \<le> unat (res_attempts r) + 1" by (simp add: unat_word_ariths)
  moreover have "res_attempts r \<le> n" if "n \<noteq> UINT_MAX" using assms that by (simp add: attempts_ok_def)
  ultimately show ?thesis by (auto simp: attempts_ok_def take_result_def word_le_nat_alt)
qed

lemma ledger_take:
  assumes "ledger n (q1 @ j # q2) (h1 @ h2) rs act"
  shows "ledger n (q1 @ q2) (h1 @ j # h2) (change_result j take_result rs) (act + 1)"
proof -
  obtain r where r: "map_of rs j = Some r" "queued_state (res_state r)" "attempts_ok n r"
    using ledger_queued[OF assms, of j] assms by (auto simp: ledger_def)
  have "attempts_ok n (take_result r)" by (rule attempts_take[OF r(3,2)])
  moreover have "res_state (take_result r) = InProgress" "res_task (take_result r) = res_task r"
    by (simp_all add: take_result_def)
  ultimately show ?thesis using assms r
    by (auto simp: ledger_def map_of_change_result store.wf_change)
qed

lemma ledger_finish:
  assumes "ledger n q (h1 @ j # h2) rs act" and "terminal_state st"
  shows "ledger n q (h1 @ h2) (change_result j (finish_result st e c) rs) (act - 1)"
  using assms ledger_held[OF assms(1), of j]
  by (auto simp: ledger_def map_of_change_result store.wf_change finish_result_def terminal_state_def attempts_ok_def)

lemma ledger_requeue:
  assumes "ledger n (q1 @ q2) (h1 @ j # h2) rs act"
    and "\<And>r. map_of rs j = Some r \<Longrightarrow> res_attempts r \<le> n"
  shows "ledger n (q1 @ j # q2) (h1 @ h2) (change_result j (finish_result Retry e c) rs) (act - 1)"
  using assms ledger_held[OF assms(1), of j]
  by (auto simp: ledger_def map_of_change_result store.wf_change finish_result_def attempts_ok_def)

lemma ledger_close:
  assumes "ledger n q h rs act"
    and "\<And>r. queued_state (res_state r) \<Longrightarrow> terminal_state (res_state (g r)) \<and> res_task (g r) = res_task r
           \<and> res_attempts (g r) = res_attempts r"
    and "\<And>r. \<not> queued_state (res_state r) \<Longrightarrow> g r = r"
  shows "ledger n [] h (change_results g rs) act"
proof -
  have st: "\<not> queued_state (res_state (g r))" "res_state (g r) = InProgress \<longleftrightarrow> res_state r = InProgress"
    "attempts_ok n r \<Longrightarrow> attempts_ok n (g r)" "res_task (g r) = res_task r" for r
    using assms(2,3)[of r] by (cases "queued_state (res_state r)";
      auto simp: terminal_state_def attempts_ok_def)+
  show ?thesis using assms(1) st
    by (auto simp: ledger_def map_of_change_results store.wf_change_all)
qed


section \<open>The invariant of the manager\<close>

definition held_by :: "worker \<Rightarrow> string list" where
  "held_by wk = (case w_pc wk of Started item \<Rightarrow> [item_id item] | Loaded item task attempts \<Rightarrow> [item_id item]
     | Decided item v \<Rightarrow> [item_id item] | _ \<Rightarrow> [])"

definition held :: "manager \<Rightarrow> string list" where
  "held m = concat (map held_by (workers m))"

definition queued :: "manager \<Rightarrow> string list" where
  "queued m = map item_id (small_queue m @ large_queue m)"

text \<open>What a worker remembers of its task is what the map says.\<close>

definition worker_ok :: "u32 \<Rightarrow> result_map \<Rightarrow> worker \<Rightarrow> bool" where
  "worker_ok n rs wk \<longleftrightarrow> retries (w_network wk) = 0 \<and> (case w_pc wk of
       Started item \<Rightarrow> item_large item = w_large wk
     | Loaded item task attempts \<Rightarrow> item_large item = w_large wk
         \<and> map_option (\<lambda>r. (res_task r, res_attempts r)) (map_of rs (item_id item)) = Some (task, attempts)
     | Decided item v \<Rightarrow> item_large item = w_large wk \<and> (case v of
           Finish st e c \<Rightarrow> terminal_state st
         | _ \<Rightarrow> (\<forall>r. map_of rs (item_id item) = Some r \<longrightarrow> res_attempts r \<le> n))
     | _ \<Rightarrow> True)"

definition manager_inv :: "manager \<Rightarrow> bool" where
  "manager_inv m \<longleftrightarrow>
     ledger (max_retries (config m)) (queued m) (held m) (results m) (active_tasks m)
     \<and> list_all (worker_ok (max_retries (config m)) (results m)) (workers m)
     \<and> list_all (\<lambda>item. \<not> item_large item) (small_queue m) \<and> list_all item_large (large_queue m)
     \<and> (stopping m \<longrightarrow> queued m = [])"

text \<open>Changing the entry of one worker in the list.\<close>

definition held_before :: "nat \<Rightarrow> worker list \<Rightarrow> string list" where
  "held_before i ws = concat (map held_by (take i ws))"

definition held_after :: "nat \<Rightarrow> worker list \<Rightarrow> string list" where
  "held_after i ws = concat (map held_by (drop (Suc i) ws))"

lemma workers_set_worker:
  "i < length (workers m) \<Longrightarrow>
     workers (set_worker i wk m) = take i (workers m) @ wk # drop (Suc i) (workers m)"
  by (simp add: set_worker_def upd_conv_take_nth_drop)

lemma held_set_worker:
  "i < length (workers m) \<Longrightarrow>
     held (set_worker i wk m) = held_before i (workers m) @ held_by wk @ held_after i (workers m)"
  by (simp add: held_def workers_set_worker held_before_def held_after_def)

lemma held_nth:
  assumes "i < length (workers m)"
  shows "held m = held_before i (workers m) @ held_by (workers m ! i) @ held_after i (workers m)"
  unfolding held_def by (subst id_take_nth_drop[OF assms]) (simp add: held_before_def held_after_def)

text \<open>A worker that does not hold \<open>j\<close> does not notice a change of the entry of \<open>j\<close>.\<close>

lemma worker_ok_change:
  "worker_ok n rs wk \<Longrightarrow> j \<notin> set (held_by wk) \<Longrightarrow> worker_ok n (change_result j f rs) wk"
  by (auto simp: worker_ok_def held_by_def map_of_change_result split: worker_pc.splits verdict.splits)

lemma worker_ok_emplace:
  "worker_ok n rs wk \<Longrightarrow> map_of rs j = None \<Longrightarrow> \<forall>i\<in>set (held_by wk). map_of rs i \<noteq> None
     \<Longrightarrow> worker_ok n (emplace_result j r rs) wk"
  by (auto simp: worker_ok_def held_by_def map_of_emplace_result split: worker_pc.splits verdict.splits)

lemma worker_ok_change_all:
  assumes "worker_ok n rs wk" and "\<And>j r. j \<in> set (held_by wk) \<Longrightarrow> map_of rs j = Some r \<Longrightarrow> g r = r"
  shows "worker_ok n (change_results g rs) wk"
  using assms by (cases "w_pc wk")
    (auto simp: worker_ok_def held_by_def map_of_change_results split: verdict.splits)

lemma held_by_held: "wk \<in> set (workers m) \<Longrightarrow> set (held_by wk) \<subseteq> set (held m)"
  by (auto simp: held_def)

lemma held_not_none:
  "manager_inv m \<Longrightarrow> wk \<in> set (workers m) \<Longrightarrow> j \<in> set (held_by wk) \<Longrightarrow>
     \<exists>r. map_of (results m) j = Some r \<and> res_state r = InProgress"
  using held_by_held ledger_held by (fastforce simp: manager_inv_def)

section \<open>Every operation keeps the invariant\<close>

lemma notify_frame [simp, frame_simps]:
  "config (notify rs m) = config m" "service (notify rs m) = service m"
  "small_queue (notify rs m) = small_queue m" "large_queue (notify rs m) = large_queue m"
  "results (notify rs m) = results m" "workers (notify rs m) = workers m"
  "monitor (notify rs m) = monitor m" "started (notify rs m) = started m"
  "stopping (notify rs m) = stopping m" "active_tasks (notify rs m) = active_tasks m"
  "has_callback (notify rs m) = has_callback m"
  by (simp_all add: notify_def)

lemma set_queue_frame [simp, frame_simps]:
  "config (set_queue l q m) = config m" "service (set_queue l q m) = service m"
  "results (set_queue l q m) = results m" "workers (set_queue l q m) = workers m"
  "monitor (set_queue l q m) = monitor m" "started (set_queue l q m) = started m"
  "stopping (set_queue l q m) = stopping m" "active_tasks (set_queue l q m) = active_tasks m"
  "small_queue (set_queue l q m) = (if l then small_queue m else q)"
  "large_queue (set_queue l q m) = (if l then q else large_queue m)"
  by (simp_all add: set_queue_def)

lemma set_worker_frame [simp, frame_simps]:
  "config (set_worker i wk m) = config m" "service (set_worker i wk m) = service m"
  "small_queue (set_worker i wk m) = small_queue m" "large_queue (set_worker i wk m) = large_queue m"
  "results (set_worker i wk m) = results m" "monitor (set_worker i wk m) = monitor m"
  "started (set_worker i wk m) = started m" "stopping (set_worker i wk m) = stopping m"
  "active_tasks (set_worker i wk m) = active_tasks m" "queued (set_worker i wk m) = queued m"
  "length (workers (set_worker i wk m)) = length (workers m)"
  by (simp_all add: set_worker_def queued_def)

text \<open>Closing all waiting tasks: what \<open>stop\<close> and a permanent failure of the service do.\<close>

lemma manager_inv_close:
  assumes inv: "manager_inv m"
    and g: "\<And>r. queued_state (res_state r) \<Longrightarrow> terminal_state (res_state (g r)) \<and> res_task (g r) = res_task r
           \<and> res_attempts (g r) = res_attempts r"
      "\<And>r. \<not> queued_state (res_state r) \<Longrightarrow> g r = r"
    and m': "config m' = config m" "workers m' = workers m" "active_tasks m' = active_tasks m"
      "small_queue m' = []" "large_queue m' = []" "results m' = change_results g (results m)"
  shows "manager_inv m'"
proof -
  have h: "held m' = held m" and q: "queued m' = []" using m' by (simp_all add: held_def queued_def)
  have "worker_ok n (change_results g (results m)) wk" if "wk \<in> set (workers m)" "worker_ok n (results m) wk" for wk n
    using that(2) held_not_none[OF inv that(1)] g(2) by (intro worker_ok_change_all) fastforce+
  then show ?thesis
    using inv ledger_close[OF _ g] m' h q by (auto simp: manager_inv_def list_all_iff)
qed

lemma set_service_state_inv [inv_intros]:
  assumes "manager_inv m"
  shows "manager_inv (set_service_state st m)"
proof (cases "service m \<noteq> st \<and> st = Error")
  case True
  show ?thesis
    by (rule manager_inv_close[OF assms, of fail_result])
       (use True in \<open>auto simp: fail_result_def terminal_state_def set_service_state_def Let_def\<close>)
next
  case False
  then show ?thesis using assms
    by (auto simp: set_service_state_def Let_def manager_inv_def held_def queued_def)
qed

lemma stop_request_inv [inv_intros]:
  assumes "manager_inv m" and "stop_request m = Some m'"
  shows "manager_inv m'"
  by (rule manager_inv_close[OF assms(1), of cancel_result])
     (use assms(2) in \<open>auto simp: cancel_result_def terminal_state_def stop_request_def split: if_splits\<close>)

lemma set_service_state_frame [simp, frame_simps]:
  "config (set_service_state st m) = config m" "workers (set_service_state st m) = workers m"
  "monitor (set_service_state st m) = monitor m" "started (set_service_state st m) = started m"
  "stopping (set_service_state st m) = stopping m" "active_tasks (set_service_state st m) = active_tasks m"
  by (simp_all add: set_service_state_def Let_def)


text \<open>\<open>enqueue\<close> rejects and changes nothing, or adds one new result and one queue item.\<close>

lemma enqueue_cases:
  obtains (rejected) e where "enqueue os fs now task error m = (False, e, m)" "e \<noteq> []"
  | (accepted) large where
      "started m" "\<not> stopping m" "map_of (results m) (task_id task) = None"
      "enqueue os fs now task error m = (True, [],
         set_queue large (queue_of large m @ [\<lparr>item_id = task_id task, item_large = large, ready_at = now\<rparr>])
           (m\<lparr>results := emplace_result (task_id task) (new_result task) (results m)\<rparr>))"
proof -
  obtain large error1 where l: "is_large_task os (config m) fs task error = (large, error1)" by fastforce
  let ?bad = "task_id task = [] \<or> \<not> is_http_url (task_url task) \<or> path_empty (local_path task)
    \<or> \<not> valid_checksum (expected_sha256 (validation task))"
  consider "?bad" | "\<not> ?bad" "error1 \<noteq> []" | "\<not> ?bad" "error1 = []" "\<not> started m \<or> stopping m"
    | "\<not> ?bad" "error1 = []" "started m" "\<not> stopping m" "map_of (results m) (task_id task) \<noteq> None"
    | "\<not> ?bad" "error1 = []" "started m" "\<not> stopping m" "map_of (results m) (task_id task) = None"
    by blast
  then show thesis
  proof cases
    case 5
    then show thesis by (intro accepted[of large]) (simp_all add: enqueue_def l)
  qed (rule rejected, simp add: enqueue_def l, simp)+
qed

text \<open>The manager after an accepted task.\<close>

definition queued_manager :: "int \<Rightarrow> bool \<Rightarrow> sync_task \<Rightarrow> manager \<Rightarrow> manager" where
  "queued_manager now large task m =
     set_queue large (queue_of large m @ [\<lparr>item_id = task_id task, item_large = large, ready_at = now\<rparr>])
       (m\<lparr>results := emplace_result (task_id task) (new_result task) (results m)\<rparr>)"

lemma queued_manager_frame [simp, frame_simps]:
  "workers (queued_manager now large task m) = workers m" "monitor (queued_manager now large task m) = monitor m"
  "started (queued_manager now large task m) = started m" "stopping (queued_manager now large task m) = stopping m"
  "config (queued_manager now large task m) = config m" "service (queued_manager now large task m) = service m"
  "notified (queued_manager now large task m) = notified m"
  "results (queued_manager now large task m) = emplace_result (task_id task) (new_result task) (results m)"
  by (simp_all add: queued_manager_def set_queue_def)

lemma accepted_inv:
  assumes inv: "manager_inv m" and "\<not> stopping m" and new: "map_of (results m) (task_id task) = None"
  shows "manager_inv (queued_manager now large task m)"
proof -
  have w: "list_all (worker_ok n (emplace_result (task_id task) (new_result task) (results m))) (workers m)"
    if "list_all (worker_ok n (results m)) (workers m)" for n
    using that held_not_none[OF inv] by (fastforce simp: list_all_iff intro!: worker_ok_emplace[OF _ new])
  have l: "ledger (max_retries (config m)) (queued m) (held m) (results m) (active_tasks m)"
    using inv by (simp add: manager_inv_def)
  show ?thesis
  proof (cases large)
    case True
    then show ?thesis using inv assms(2) w ledger_enqueue[of _ "queued m" "[]", OF _ new] l
      by (simp add: queued_manager_def manager_inv_def queue_of_def set_queue_def queued_def held_def)
  next
    case False
    then show ?thesis using inv assms(2) w
        ledger_enqueue[of _ "map item_id (small_queue m)" "map item_id (large_queue m)", OF _ new] l
      by (simp add: queued_manager_def manager_inv_def queue_of_def set_queue_def queued_def held_def)
  qed
qed

text \<open>Taking a task.\<close>

lemma take_round_taken:
  assumes "take_round large now m = Task_Taken item m'"
  obtains before after r where "queue_of large m = before @ item # after" "ready_at item \<le> now"
    "map_of (results m) (item_id item) = Some r" "\<not> stopping m" "service m = Connected"
    "m' = set_queue large (before @ after)
       (m\<lparr>results := change_result (item_id item) take_result (results m), active_tasks := active_tasks m + 1\<rparr>)"
  using assms
  by (auto simp: take_round_def Let_def split: if_splits option.splits dest!: extract_SomeE)

lemma take_round_not_throws: "manager_inv m \<Longrightarrow> take_round large now m \<noteq> Take_Throws"
proof
  assume inv: "manager_inv m" and "take_round large now m = Take_Throws"
  then have "\<exists>item\<in>set (queue_of large m). map_of (results m) (item_id item) = None"
    by (auto simp: take_round_def Let_def split: if_splits option.splits dest!: extract_SomeE)
  then obtain item where "item \<in> set (queue_of large m)" "map_of (results m) (item_id item) = None" ..
  then show False
    using inv ledger_queued[of _ "queued m" _ _ _ "item_id item"]
    by (force simp: manager_inv_def queue_of_def queued_def split: if_splits)
qed

text \<open>
  The shape common to taking, finishing and requeueing: one entry of the map changes, and one
  worker takes up or puts down the task of that entry.
\<close>

lemma manager_inv_worker:
  assumes inv: "manager_inv m" and i: "i < length (workers m)"
    and free: "j \<in> set (held_by (workers m ! i)) \<or> j \<notin> set (held m)"
    and m': "config m' = config m" "workers m' = workers m" "results m' = change_result j f (results m)"
    and wk: "worker_ok (max_retries (config m)) (results m') wk"
    and led: "ledger (max_retries (config m)) (queued m') (held (set_worker i wk m')) (results m') (active_tasks m')"
    and q: "list_all (\<lambda>item. \<not> item_large item) (small_queue m')" "list_all item_large (large_queue m')"
      "stopping m' \<longrightarrow> queued m' = []"
  shows "manager_inv (set_worker i wk m')"
proof -
  let ?us = "take i (workers m)" and ?vs = "drop (Suc i) (workers m)"
  have u: "workers (set_worker i wk m') = ?us @ wk # ?vs" using i m'(2) by (simp add: workers_set_worker)
  have d: "distinct (held m)" using inv by (auto simp: manager_inv_def ledger_def)
  have "j \<notin> set (held_by x)" if "x \<in> set ?us \<union> set ?vs" for x
    using that free d held_nth[OF i] by (fastforce simp: held_before_def held_after_def)
  then have "worker_ok n (results m') x" if "x \<in> set ?us \<union> set ?vs" "worker_ok n (results m) x" for x n
    using that m'(3) worker_ok_change by metis
  moreover have "\<forall>x\<in>set ?us \<union> set ?vs. worker_ok (max_retries (config m)) (results m) x"
    using inv by (auto simp: manager_inv_def list_all_iff dest: in_set_takeD in_set_dropD)
  ultimately show ?thesis using led q wk m' u
    by (auto simp: manager_inv_def list_all_iff)
qed


text \<open>A worker that moves on with the same task, or with none.\<close>

lemma manager_inv_goto:
  assumes "manager_inv m" and i: "i < length (workers m)" and "held_by wk = held_by (workers m ! i)"
    and "worker_ok (max_retries (config m)) (results m) wk"
  shows "manager_inv (set_worker i wk m)"
proof -
  have "held (set_worker i wk m) = held m" using assms(3) held_nth[OF i] held_set_worker[OF i] by simp
  moreover have "\<forall>x\<in>set (workers (set_worker i wk m)). worker_ok (max_retries (config m)) (results m) x"
    using assms(1,4) i by (auto simp: workers_set_worker manager_inv_def list_all_iff
        dest: in_set_takeD in_set_dropD)
  ultimately show ?thesis using assms(1) by (auto simp: manager_inv_def list_all_iff)
qed

lemma worker_in_ok:
  "manager_inv m \<Longrightarrow> i < length (workers m) \<Longrightarrow>
     worker_ok (max_retries (config m)) (results m) (workers m ! i)"
  by (simp add: manager_inv_def list_all_length)

lemma ledger_of: "manager_inv m \<Longrightarrow>
    ledger (max_retries (config m)) (queued m) (held m) (results m) (active_tasks m)"
  by (simp add: manager_inv_def)

lemma take_inv:
  assumes inv: "manager_inv m" and i: "i < length (workers m)" and pc: "w_pc (workers m ! i) = Taking"
    and take: "take_round (w_large (workers m ! i)) now m = Task_Taken item m'"
  shows "manager_inv (set_worker i ((workers m ! i)\<lparr>w_pc := Started item\<rparr>) m')"
proof -
  let ?wk = "workers m ! i" and ?n = "max_retries (config m)" and ?id = "item_id item"
  from take obtain before after r where t: "queue_of (w_large ?wk) m = before @ item # after" "ready_at item \<le> now"
    "map_of (results m) ?id = Some r" "\<not> stopping m" "service m = Connected"
    "m' = set_queue (w_large ?wk) (before @ after)
       (m\<lparr>results := change_result ?id take_result (results m), active_tasks := active_tasks m + 1\<rparr>)"
    by (rule take_round_taken)
  have h: "held m = held_before i (workers m) @ held_after i (workers m)"
    using held_nth[OF i] pc by (simp add: held_by_def)
  have q: "\<exists>q1 q2. queued m = q1 @ ?id # q2 \<and> queued m' = q1 @ q2"
  proof (cases "w_large ?wk")
    case True
    then show ?thesis using t
      by (intro exI[of _ "map item_id (small_queue m @ before)"] exI[of _ "map item_id after"])
         (simp add: queue_of_def queued_def)
  next
    case False
    then show ?thesis using t
      by (intro exI[of _ "map item_id before"] exI[of _ "map item_id (after @ large_queue m)"])
         (simp add: queue_of_def queued_def)
  qed
  then obtain q1 q2 where q: "queued m = q1 @ ?id # q2" "queued m' = q1 @ q2" by blast
  have large: "item_large item = w_large ?wk"
    using inv t(1) by (auto simp: manager_inv_def queue_of_def split: if_splits)
  have led: "ledger ?n (queued m') (held_before i (workers m) @ ?id # held_after i (workers m))
      (results m') (active_tasks m')"
    using ledger_take[of ?n q1 ?id q2] ledger_of[OF inv] h q t(6) by simp
  show ?thesis
  proof (rule manager_inv_worker[OF inv i, of ?id m' take_result])
    show "?id \<in> set (held_by ?wk) \<or> ?id \<notin> set (held m)"
      using ledger_of[OF inv] q(1) by (auto simp: ledger_def)
    show "worker_ok ?n (results m') (?wk\<lparr>w_pc := Started item\<rparr>)"
      using worker_in_ok[OF inv i] large by (simp add: worker_ok_def)
    show "ledger ?n (queued m') (held (set_worker i (?wk\<lparr>w_pc := Started item\<rparr>) m')) (results m') (active_tasks m')"
      using led i t(6) by (simp add: held_set_worker held_by_def)
  qed (use inv t in \<open>auto simp: manager_inv_def queue_of_def list_all_iff\<close>)
qed

text \<open>The end of a task, as \<open>complete_task\<close> and a cancelling or failing \<open>requeue_task\<close> make it.\<close>

lemma put_down_inv:
  assumes inv: "manager_inv m" and i: "i < length (workers m)" and pc: "w_pc (workers m ! i) = Decided item v"
    and m': "config m' = config m" "workers m' = workers m" "active_tasks m' = active_tasks m - 1"
      "results m' = change_result (item_id item) (finish_result st e c) (results m)" "stopping m' = stopping m"
    and q: "small_queue m' = small_queue m" "large_queue m' = large_queue m" and st: "terminal_state st"
  shows "manager_inv (set_worker i ((workers m ! i)\<lparr>w_pc := Taking\<rparr>) m')"
proof -
  let ?wk = "workers m ! i" and ?n = "max_retries (config m)" and ?id = "item_id item"
  have h: "held m = held_before i (workers m) @ ?id # held_after i (workers m)"
    using held_nth[OF i] pc by (simp add: held_by_def)
  have "queued m' = queued m" using q by (simp add: queued_def)
  then have led: "ledger ?n (queued m') (held_before i (workers m) @ held_after i (workers m))
      (results m') (active_tasks m')"
    using ledger_finish[OF _ st] ledger_of[OF inv] h m' by simp
  show ?thesis
  proof (rule manager_inv_worker[OF inv i, of ?id m' "finish_result st e c"])
    show "?id \<in> set (held_by ?wk) \<or> ?id \<notin> set (held m)" using pc by (simp add: held_by_def)
    show "worker_ok ?n (results m') (?wk\<lparr>w_pc := Taking\<rparr>)"
      using worker_in_ok[OF inv i] by (simp add: worker_ok_def)
    show "ledger ?n (queued m') (held (set_worker i (?wk\<lparr>w_pc := Taking\<rparr>) m')) (results m') (active_tasks m')"
      using led i m' by (simp add: held_set_worker held_by_def)
  qed (use inv m' q in \<open>auto simp: manager_inv_def queued_def\<close>)
qed

lemma complete_inv:
  assumes inv: "manager_inv m" and i: "i < length (workers m)"
    and pc: "w_pc (workers m ! i) = Decided item (Finish st e c)"
    and compl: "complete_task (item_id item) st e c m = Some m'"
  shows "manager_inv (set_worker i ((workers m ! i)\<lparr>w_pc := Taking\<rparr>) m')"
proof -
  have "terminal_state st" using worker_in_ok[OF inv i] pc by (simp add: worker_ok_def)
  then show ?thesis
    by (intro put_down_inv[OF inv i pc, of _ st e c])
       (use compl in \<open>auto simp: complete_task_def split: option.splits\<close>)
qed


lemma requeue_task_cases:
  assumes "requeue_task now item e c m = Some m'"
  obtains (given_up) st where "stopping m \<or> service m = Error" "st = (if stopping m then Cancelled else Failed)"
      "config m' = config m" "workers m' = workers m" "active_tasks m' = active_tasks m - 1"
      "results m' = change_result (item_id item) (finish_result st e c) (results m)" "stopping m' = stopping m"
      "small_queue m' = small_queue m" "large_queue m' = large_queue m"
  | (requeued) "\<not> stopping m" "service m \<noteq> Error"
      "config m' = config m" "workers m' = workers m" "active_tasks m' = active_tasks m - 1"
      "results m' = change_result (item_id item) (finish_result Retry e c) (results m)" "stopping m' = stopping m"
      "small_queue m' = small_queue m @ (if item_large item then [] else [item\<lparr>ready_at := now + retry_delay (config m)\<rparr>])"
      "large_queue m' = large_queue m @ (if item_large item then [item\<lparr>ready_at := now + retry_delay (config m)\<rparr>] else [])"
proof (cases "stopping m \<or> service m = Error")
  case True
  show thesis
    by (rule given_up[of "if stopping m then Cancelled else Failed"])
       (use assms True in \<open>auto simp: requeue_task_def Let_def split: option.splits\<close>)
next
  case False
  show thesis
    by (rule requeued) (use assms False in \<open>auto simp: requeue_task_def Let_def queue_of_def split: option.splits\<close>)
qed

lemma requeue_inv:
  assumes inv: "manager_inv m" and i: "i < length (workers m)"
    and pc: "w_pc (workers m ! i) = Decided item (Requeue e c)"
    and again: "requeue_task now item e c m = Some m'"
  shows "manager_inv (set_worker i ((workers m ! i)\<lparr>w_pc := Taking\<rparr>) m')"
  using again
proof (cases rule: requeue_task_cases)
  case (given_up st)
  then show ?thesis by (intro put_down_inv[OF inv i pc, of _ st e c]) (auto simp: terminal_state_def)
next
  case requeued
  let ?wk = "workers m ! i" and ?n = "max_retries (config m)" and ?id = "item_id item"
  have h: "held m = held_before i (workers m) @ ?id # held_after i (workers m)"
    using held_nth[OF i] pc by (simp add: held_by_def)
  have att: "res_attempts r \<le> ?n" if "map_of (results m) ?id = Some r" for r
    using worker_in_ok[OF inv i] pc that by (simp add: worker_ok_def)
  obtain q1 q2 where q: "queued m = q1 @ q2" "queued m' = q1 @ ?id # q2"
  proof (cases "item_large item")
    case True
    then show thesis using that[of "queued m" "[]"] requeued by (simp add: queued_def)
  next
    case False
    then show thesis using that[of "map item_id (small_queue m)" "map item_id (large_queue m)"] requeued
      by (simp add: queued_def)
  qed
  have led: "ledger ?n (queued m') (held_before i (workers m) @ held_after i (workers m))
      (results m') (active_tasks m')"
    using ledger_requeue[of ?n q1 q2 _ ?id] ledger_of[OF inv] h q requeued att by simp
  show ?thesis
  proof (rule manager_inv_worker[OF inv i, of ?id m' "finish_result Retry e c"])
    show "?id \<in> set (held_by ?wk) \<or> ?id \<notin> set (held m)" using pc by (simp add: held_by_def)
    show "worker_ok ?n (results m') (?wk\<lparr>w_pc := Taking\<rparr>)"
      using worker_in_ok[OF inv i] by (simp add: worker_ok_def)
    show "ledger ?n (queued m') (held (set_worker i (?wk\<lparr>w_pc := Taking\<rparr>) m')) (results m') (active_tasks m')"
      using led i requeued by (simp add: held_set_worker held_by_def)
  qed (use inv requeued in \<open>auto simp: manager_inv_def\<close>)
qed

text \<open>A transfer always returns, and keeps the retry count of the worker's network.\<close>

lemma transfer_task_retries:
  "transfer_task lc os cfg task net fs = Some (outcome, net', fs') \<Longrightarrow> retries net' = retries net"
  by (auto simp: transfer_task_def split: prod.splits sum.splits sync_direction.splits
      dest: download_retries upload_retries)

lemma transfer_task_returns:
  "retries net = 0 \<Longrightarrow> transfer_task lc os cfg task net fs \<noteq> None"
  using download_not_none[of net] upload_not_none[of net]
  by (auto simp: transfer_task_def UINT_MAX_def simp del: not_None_eq
      split: prod.split sum.split sync_direction.split)

lemma transfer_inv:
  assumes inv: "manager_inv m" and i: "i < length (workers m)"
    and pc: "w_pc (workers m ! i) = Loaded item task attempts"
    and tr: "transfer_task lc os (config m) task (w_network (workers m ! i)) fs = Some (outcome, net', fs')"
  shows "manager_inv (set_worker i ((workers m ! i)\<lparr>w_network := net',
           w_pc := Decided item (decide (config m) attempts outcome)\<rparr>) m)"
proof (rule manager_inv_goto[OF inv i])
  show "worker_ok (max_retries (config m)) (results m) ((workers m ! i)\<lparr>w_network := net',
      w_pc := Decided item (decide (config m) attempts outcome)\<rparr>)"
    using worker_in_ok[OF inv i] pc transfer_task_retries[OF tr]
    by (auto simp: worker_ok_def decide_def terminal_state_def split: sum.splits prod.splits)
qed (use pc in \<open>simp add: held_by_def\<close>)

section \<open>The invariant of the running program\<close>

definition monitor_ok :: "manager \<Rightarrow> bool" where
  "monitor_ok m \<longleftrightarrow> (case monitor m of None \<Rightarrow> True | Some t \<Rightarrow> retries (mon_network t) = 0)"

definition world_inv :: "world \<Rightarrow> bool" where
  "world_inv w \<longleftrightarrow> \<not> crashed w \<and> manager_inv (mgr w) \<and> monitor_ok (mgr w)
     \<and> (started (mgr w) \<longrightarrow> \<not> stopping (mgr w))
     \<and> (control w \<noteq> Ready \<longrightarrow> stopping (mgr w) \<and> \<not> started (mgr w))
     \<and> (control w = Ready \<and> \<not> started (mgr w) \<longrightarrow> workers (mgr w) = [] \<and> monitor (mgr w) = None)"

text \<open>Only \<open>start\<close>, \<open>stop\<close> and the monitor itself touch what is not in \<open>manager_inv\<close>.\<close>

definition same_run :: "manager \<Rightarrow> manager \<Rightarrow> bool" where
  "same_run m' m \<longleftrightarrow> monitor m' = monitor m \<and> started m' = started m \<and> stopping m' = stopping m
     \<and> config m' = config m \<and> length (workers m') = length (workers m)"

lemma world_inv_same_run:
  "world_inv w \<Longrightarrow> same_run m' (mgr w) \<Longrightarrow> manager_inv m' \<Longrightarrow> world_inv (w\<lparr>mgr := m', disk := fs\<rparr>)"
  by (auto simp: world_inv_def same_run_def monitor_ok_def)

lemma requeue_task_frame:
  "requeue_task now item e c m = Some m1 \<Longrightarrow> monitor m1 = monitor m \<and> started m1 = started m
     \<and> stopping m1 = stopping m \<and> config m1 = config m \<and> workers m1 = workers m \<and> service m1 = service m"
  by (cases "stopping m \<or> service m = Error")
     (auto simp: requeue_task_def Let_def split: option.splits)

lemma same_run_ops:
  "same_run (set_worker i wk m) m"
  "take_round large now m = Task_Taken item m1 \<Longrightarrow> same_run (set_worker i wk m1) m"
  "complete_task tid st e c m = Some m1 \<Longrightarrow> same_run (set_worker i wk m1) m"
  "requeue_task now item e c m = Some m1 \<Longrightarrow> same_run (set_worker i wk m1) m"
  "same_run (set_worker i wk (set_service_state sst m)) m"
  by (auto simp: same_run_def complete_task_def split: option.splits
      elim!: take_round_taken dest: requeue_task_frame)


lemma held_lookup:
  assumes "manager_inv m" and "i < length (workers m)" and "j \<in> set (held_by (workers m ! i))"
  obtains r where "map_of (results m) j = Some r" "res_state r = InProgress"
  using held_not_none[OF assms(1) nth_mem[OF assms(2)] assms(3)] by blast

text \<open>The steps of a worker; by the invariant no exception escapes from it.\<close>

lemma decided_result:
  assumes "manager_inv m" and "i < length (workers m)" and "w_pc (workers m ! i) = Decided item v"
  obtains r where "map_of (results m) (item_id item) = Some r" "res_state r = InProgress"
  using held_lookup[OF assms(1,2)] assms(3) by (auto simp: held_by_def)

lemma take_round_results:
  assumes "manager_inv m" and "take_round large now m = Task_Taken item m'"
  obtains r where "map_of (results m) (item_id item) = Some r" "queued_state (res_state r)"
    "results m' = change_result (item_id item) take_result (results m)" "notified m' = notified m"
  using assms(2)
proof (rule take_round_taken)
  fix before after r
  assume q: "queue_of large m = before @ item # after" and r: "map_of (results m) (item_id item) = Some r"
    and m': "m' = set_queue large (before @ after)
       (m\<lparr>results := change_result (item_id item) take_result (results m), active_tasks := active_tasks m + 1\<rparr>)"
  have "item_id item \<in> set (queued m)" using q by (auto simp: queued_def queue_of_def split: if_splits)
  then have "queued_state (res_state r)" using assms(1) r by (auto simp: manager_inv_def ledger_def)
  then show thesis using that[OF r] m' by (simp add: set_queue_def)
qed

lemma worker_step_cases:
  fixes w :: world
  defines "m \<equiv> mgr w"
  assumes step: "worker_step lc os now i w = Some w'" and inv: "manager_inv m"
  obtains (gave_up) "i < length (workers m)" "w_pc (workers m ! i) = Taking"
      "take_round (w_large (workers m ! i)) now m = No_Task"
      "w' = w\<lparr>mgr := set_worker i ((workers m ! i)\<lparr>w_pc := Exited\<rparr>) m\<rparr>"
  | (took) item m' where "i < length (workers m)" "w_pc (workers m ! i) = Taking"
      "take_round (w_large (workers m ! i)) now m = Task_Taken item m'"
      "w' = w\<lparr>mgr := set_worker i ((workers m ! i)\<lparr>w_pc := Started item\<rparr>) m'\<rparr>"
  | (loaded) item r where "i < length (workers m)" "w_pc (workers m ! i) = Started item"
      "map_of (results m) (item_id item) = Some r"
      "w' = w\<lparr>mgr := set_worker i ((workers m ! i)\<lparr>w_pc := Loaded item (res_task r) (res_attempts r)\<rparr>) m\<rparr>"
  | (transferred) item task attempts outcome net' fs' where "i < length (workers m)"
      "w_pc (workers m ! i) = Loaded item task attempts"
      "transfer_task lc os (config m) task (w_network (workers m ! i)) (disk w) = Some (outcome, net', fs')"
      "w' = w\<lparr>mgr := set_worker i ((workers m ! i)\<lparr>w_network := net',
          w_pc := Decided item (decide (config m) attempts outcome)\<rparr>) m, disk := fs'\<rparr>"
  | (finished) item st e c m' where "i < length (workers m)"
      "w_pc (workers m ! i) = Decided item (Finish st e c)"
      "complete_task (item_id item) st e c m = Some m'"
      "w' = w\<lparr>mgr := set_worker i ((workers m ! i)\<lparr>w_pc := Taking\<rparr>) m'\<rparr>"
  | (disconnected) item e c where "i < length (workers m)"
      "w_pc (workers m ! i) = Decided item (Disconnect e c)"
      "w' = w\<lparr>mgr := set_worker i ((workers m ! i)\<lparr>w_pc := Decided item (Requeue e c)\<rparr>)
          (set_service_state Disconnected m)\<rparr>"
  | (requeued) item e c m' where "i < length (workers m)"
      "w_pc (workers m ! i) = Decided item (Requeue e c)"
      "requeue_task now item e c m = Some m'"
      "w' = w\<lparr>mgr := set_worker i ((workers m ! i)\<lparr>w_pc := Taking\<rparr>) m'\<rparr>"
proof -
  have i: "i < length (workers m)"
    using step by (auto simp: worker_step_def m_def Let_def split: if_splits)
  note st = step[unfolded worker_step_def Let_def m_def[symmetric]]
  note held = held_lookup[OF inv i]
  show thesis
  proof (cases "w_pc (workers m ! i)")
    case Taking
    then show thesis using st i take_round_not_throws[OF inv, of "w_large (workers m ! i)" now] gave_up took
      by (auto split: take_outcome.splits)
  next
    case (Started item)
    from Started held[of "item_id item"] obtain r where "map_of (results m) (item_id item) = Some r"
      by (auto simp: held_by_def)
    then show thesis using st i Started loaded by auto
  next
    case (Loaded item task attempts)
    then show thesis using st i transferred by auto
  next
    case (Decided item v)
    from Decided held[of "item_id item"] obtain r where "map_of (results m) (item_id item) = Some r"
      by (auto simp: held_by_def)
    then show thesis using st i Decided finished disconnected requeued
      by (cases v) (auto simp: or_crash_def complete_task_def requeue_task_def Let_def)
  next
    case Exited
    then show thesis using st i by simp
  qed
qed

lemma worker_step_inv:
  assumes inv: "world_inv w" and step: "worker_step lc os now i w = Some w'"
  shows "world_inv w'"
proof -
  have m: "manager_inv (mgr w)" using inv by (simp add: world_inv_def)
  have mgr: "world_inv (w\<lparr>mgr := m'\<rparr>)" if "same_run m' (mgr w)" "manager_inv m'" for m'
    using world_inv_same_run[OF inv that, of "disk w"] by simp
  show ?thesis
    using step m
  proof (cases rule: worker_step_cases)
    case gave_up
    then show ?thesis using worker_in_ok[OF m gave_up(1)]
      by (auto intro!: mgr manager_inv_goto[OF m] same_run_ops(1) simp: held_by_def worker_ok_def)
  next
    case (took item m')
    then show ?thesis using take_inv[OF m] by (auto intro!: mgr same_run_ops(2))
  next
    case (loaded item r)
    then show ?thesis using worker_in_ok[OF m loaded(1)]
      by (auto intro!: mgr manager_inv_goto[OF m] same_run_ops(1) simp: held_by_def worker_ok_def)
  next
    case (transferred item task attempts outcome net' fs')
    then show ?thesis using world_inv_same_run[OF inv same_run_ops(1) transfer_inv[OF m]] by auto
  next
    case (finished item st e c m')
    then show ?thesis using complete_inv[OF m] by (auto intro!: mgr same_run_ops(3))
  next
    case (disconnected item e c)
    then show ?thesis using worker_in_ok[OF set_service_state_inv[OF m], of i]
      by (auto intro!: mgr manager_inv_goto set_service_state_inv[OF m] same_run_ops(5)
          simp: held_by_def worker_ok_def)
  next
    case (requeued item e c m')
    then show ?thesis using requeue_inv[OF m] by (auto intro!: mgr same_run_ops(4))
  qed
qed


lemma manager_inv_monitor [simp]: "manager_inv (m\<lparr>monitor := t\<rparr>) = manager_inv m"
  by (simp add: manager_inv_def queued_def held_def)

lemma probe_retries: "probe lc cfg net = Some (connected, net') \<Longrightarrow> retries net' = retries net"
proof -
  assume "probe lc cfg net = Some (connected, net')"
  then obtain response where "perform lc (configure_request (health_url cfg)) (net, []) = Some (connected, net', response)"
    by (auto simp: probe_def http_get_def)
  then show ?thesis by (rule perform_retries) (simp add: configure_request_def)
qed

lemma monitor_step_inv:
  assumes inv: "world_inv w" and step: "monitor_step lc w = Some w'"
  shows "world_inv w'"
proof -
  obtain t where t: "monitor (mgr w) = Some t" using step by (auto simp: monitor_step_def Let_def split: option.splits)
  have upd: "world_inv (w\<lparr>mgr := m'\<lparr>monitor := Some t'\<rparr>\<rparr>)"
    if "manager_inv m'" "retries (mon_network t') = retries (mon_network t)" "started m' = started (mgr w)"
      "stopping m' = stopping (mgr w)" "workers m' = workers (mgr w)" for m' t'
    using inv that t by (auto simp: world_inv_def monitor_ok_def)
  have m: "manager_inv (mgr w)" using inv by (simp add: world_inv_def)
  show ?thesis
  proof (cases "mon_pc t")
    case Probing
    then show ?thesis using step t m probe_retries by (auto simp: monitor_step_def Let_def intro!: upd)
  next
    case (Probed connected)
    obtain failures st where "health_step (config (mgr w)) connected (consecutive_failures t) = (failures, st)"
      by fastforce
    then show ?thesis using step t m Probed
      by (auto simp: monitor_step_def Let_def intro!: upd set_service_state_inv)
  qed (use step t m in \<open>auto simp: monitor_step_def Let_def intro!: upd\<close>)
qed

lemma held_nil: "(\<And>wk. wk \<in> set (workers m) \<Longrightarrow> held_by wk = []) \<Longrightarrow> held m = []"
  by (auto simp: held_def)

text \<open>
  The control thread. Every step of it is one of seven; the proofs about it go through this rule.
\<close>

definition started_manager :: "libcurl \<Rightarrow> manager \<Rightarrow> manager" where
  "started_manager lc m = m\<lparr>stopping := False, started := True, service := Connecting,
     workers := workers m @ replicate (unat (small_file_workers (config m))) (new_worker lc (config m) False)
       @ replicate (unat (large_file_workers (config m))) (new_worker lc (config m) True),
     monitor := Some (new_monitor lc (config m))\<rparr>"

lemma started_manager_frame [simp, frame_simps]:
  "started (started_manager lc m)" "\<not> stopping (started_manager lc m)" "service (started_manager lc m) = Connecting"
  "results (started_manager lc m) = results m" "notified (started_manager lc m) = notified m"
  "small_queue (started_manager lc m) = small_queue m" "large_queue (started_manager lc m) = large_queue m"
  "active_tasks (started_manager lc m) = active_tasks m" "config (started_manager lc m) = config m"
  by (simp_all add: started_manager_def)

lemma start_cases:
  obtains (refused) ok e fs' where "start lc os fs error m = (ok, e, m, fs')"
  | (accepted) fs' where "start lc os fs error m = (True, error, started_manager lc m, fs')" "\<not> started m"
proof (cases "start lc os fs error m")
  case (fields ok e m' fs')
  then have "m' = m \<or> \<not> started m \<and> ok \<and> e = error \<and> m' = started_manager lc m"
    by (auto simp: start_def started_manager_def Let_def split: if_splits prod.splits option.splits)
  then show thesis using fields refused accepted by auto
qed

lemmas control_defs = stop_request_def stop_join_def stop_signal_def set_result_callback_def

lemma control_step_cases:
  assumes "control_step lc os call w = Some w'"
  obtains (unchanged) fs where "w' = w\<lparr>disk := fs\<rparr>"
  | (start) error fs where "control w = Ready" "call = Call_Start error" "\<not> started (mgr w)"
      "w' = w\<lparr>mgr := started_manager lc (mgr w), disk := fs\<rparr>"
  | (enqueue) now task large where "control w = Ready" "started (mgr w)" "\<not> stopping (mgr w)"
      "map_of (results (mgr w)) (task_id task) = None" "w' = w\<lparr>mgr := queued_manager now large task (mgr w)\<rparr>"
  | (stop) m where "control w = Ready" "stop_request (mgr w) = Some m" "w' = w\<lparr>mgr := m, control := Signalling\<rparr>"
  | (signal) "control w = Signalling" "w' = w\<lparr>mgr := stop_signal (mgr w), control := Joining\<rparr>"
  | (join) m where "control w = Joining" "stop_join (mgr w) = Some m" "w' = w\<lparr>mgr := m, control := Ready\<rparr>"
  | (callback) present where "control w = Ready" "w' = w\<lparr>mgr := set_result_callback present (mgr w)\<rparr>"
proof (cases "control w")
  case Ready
  have same: thesis if eq: "w' = w" by (rule unchanged[of "disk w"]) (simp add: eq)
  have stops: thesis if eq: "w' = begin_stop w"
    using eq same stop[OF Ready] by (auto simp: begin_stop_def split: option.splits)
  have enq: thesis if e: "enqueue os (disk w) now task error (mgr w) = (ok, e, m')" "w' = w\<lparr>mgr := m'\<rparr>" for now task error ok e m'
    by (cases rule: enqueue_cases[of os "disk w" now task error "mgr w"])
       (use e same enqueue[OF Ready] in \<open>auto simp: queued_manager_def\<close>)
  note st = assms[unfolded control_step_def Ready control_pc.case]
  show thesis
  proof (cases call)
    case (Call_Start error)
    show thesis
      by (cases rule: start_cases[of lc os "disk w" error "mgr w"])
         (use st Call_Start unchanged start[OF Ready Call_Start] in auto)
  next
    case (Call_Command now c error)
    have thesis if task: "parse_command c = Inr (Task_Command task)" for task
    proof (cases "enqueue os (disk w) now task error (mgr w)")
      case (fields ok e m')
      then show thesis using st Call_Command task by (intro enq[OF fields]) (simp add: enqueue_ipc_command_def)
    qed
    then show thesis using st Call_Command same stops
      by (auto simp: enqueue_ipc_command_def split: sum.splits ipc_command.splits)
  qed (use st enq stops callback Ready in \<open>auto split: prod.splits\<close>)
qed (use assms signal join in \<open>auto simp: control_step_def\<close>)

lemma start_inv:
  assumes inv: "world_inv w" and ready: "control w = Ready" and "\<not> started (mgr w)"
  shows "world_inv (w\<lparr>mgr := started_manager lc (mgr w), disk := fs\<rparr>)"
proof -
  let ?m = "mgr w" and ?m' = "started_manager lc (mgr w)"
  have none: "workers ?m = []" using assms by (simp add: world_inv_def)
  then have "held ?m = []" by (simp add: held_def)
  moreover have "held ?m' = []" using none by (intro held_nil) (auto simp: held_by_def new_worker_def started_manager_def)
  ultimately have "manager_inv ?m'" using inv none
    by (auto simp: world_inv_def manager_inv_def queued_def list_all_iff worker_ok_def new_worker_def new_network_def started_manager_def)
  then show ?thesis using inv ready
    by (auto simp: world_inv_def monitor_ok_def new_monitor_def new_network_def started_manager_def)
qed

lemma stop_join_inv:
  assumes inv: "world_inv w" and stopping: "control w = Joining" and join: "stop_join (mgr w) = Some m'"
  shows "world_inv (w\<lparr>mgr := m', control := Ready\<rparr>)"
proof -
  have m': "m' = (mgr w)\<lparr>monitor := None, workers := []\<rparr>" "list_all (\<lambda>wk. w_pc wk = Exited) (workers (mgr w))"
    using join by (auto simp: stop_join_def split: if_splits)
  have "held (mgr w) = []" using m'(2) by (intro held_nil) (auto simp: list_all_iff held_by_def)
  moreover have "held m' = []" using m'(1) by (simp add: held_def)
  ultimately show ?thesis using inv stopping m'
    by (auto simp: world_inv_def manager_inv_def monitor_ok_def queued_def)
qed

lemma control_step_inv:
  assumes inv: "world_inv w" and step: "control_step lc os call w = Some w'"
  shows "world_inv w'"
  using step
proof (cases rule: control_step_cases)
  case (start error fs)
  then show ?thesis using start_inv[OF inv] by simp
next
  case (enqueue now task large)
  then show ?thesis using inv accepted_inv[of "mgr w" task now large] by (auto simp: world_inv_def monitor_ok_def)
next
  case (stop m)
  moreover have "monitor m = monitor (mgr w)" "stopping m" "\<not> started m" using stop(2) by (auto simp: stop_request_def split: if_splits)
  ultimately show ?thesis using inv stop_request_inv[OF _ stop(2)] by (auto simp: world_inv_def monitor_ok_def)
next
  case signal
  then show ?thesis using inv set_service_state_inv[of "mgr w"]
    by (auto simp: stop_signal_def world_inv_def monitor_ok_def)
next
  case (join m)
  then show ?thesis using stop_join_inv[OF inv] by simp
qed (use inv in \<open>auto simp: world_inv_def set_result_callback_def manager_inv_def monitor_ok_def queued_def held_def\<close>)

interpretation sync: invariant_system initial "step lc os" world_inv for lc os
proof unfold_locales
  show "world_inv w" if "initial w" for w
    using that by (auto simp: initial_def world_inv_def new_manager_def manager_inv_def ledger_def results_ok_def
        queued_def held_def monitor_ok_def)
  show "world_inv w'" if "world_inv w" "step lc os w w'" for w w'
    using that(2)
  proof cases
    case (other_program fs)
    then show ?thesis using that(1) by (simp add: world_inv_def)
  qed (use that(1) worker_step_inv monitor_step_inv control_step_inv in blast)+
qed


section \<open>Properties\<close>

lemma reachable_inv: "reachable initial (step lc os) w \<Longrightarrow> world_inv w"
  by (rule sync.inv_reachable)

lemma count_distinct: "distinct xs \<Longrightarrow> count_list xs x = (if x \<in> set xs then 1 else 0)"
  by (induction xs) auto

text \<open>C2. Every task the manager ever accepted is accounted for, however the threads interleave: while it
  waits it stands exactly once in the two queues, while it is in progress exactly one worker
  holds it, and otherwise neither; \<open>active_tasks_\<close> counts the tasks held, and no
  \<open>results_.at\<close> ever throws.\<close>

theorem task_accounting:
  assumes "reachable initial (step lc os) w" and "map_of (results (mgr w)) j = Some r"
  shows "count_list (queued (mgr w)) j = (if queued_state (res_state r) then 1 else 0)
    \<and> count_list (held (mgr w)) j = (if res_state r = InProgress then 1 else 0)
    \<and> active_tasks (mgr w) = length (held (mgr w)) \<and> \<not> crashed w"
proof -
  have w: "world_inv w" by (rule reachable_inv[OF assms(1)])
  then have l: "ledger (max_retries (config (mgr w))) (queued (mgr w)) (held (mgr w)) (results (mgr w)) (active_tasks (mgr w))"
    by (simp add: world_inv_def manager_inv_def)
  then have "distinct (queued (mgr w))" "distinct (held (mgr w))" "active_tasks (mgr w) = length (held (mgr w))"
    "j \<in> set (queued (mgr w)) \<longleftrightarrow> queued_state (res_state r)"
    "j \<in> set (held (mgr w)) \<longleftrightarrow> res_state r = InProgress"
    using assms(2) by (auto simp: ledger_def)
  then show ?thesis using w by (simp add: count_distinct world_inv_def)
qed

lemma nothing_waiting_terminal:
  assumes "world_inv w" and "queued (mgr w) = []" and "held (mgr w) = []" and "map_of (results (mgr w)) j = Some r"
  shows "terminal_state (res_state r)"
proof -
  have "\<not> queued_state (res_state r)" "res_state r \<noteq> InProgress"
    using assms by (auto simp: world_inv_def manager_inv_def ledger_def)
  then show ?thesis using task_state_cases by blast
qed

text \<open>C13. When \<open>wait_for_idle\<close> returns true, every task accepted so far has reached its final state.\<close>

theorem wait_for_idle_all_done:
  assumes "reachable initial (step lc os) w" and "wait_for_idle_result (mgr w)"
    and "map_of (results (mgr w)) j = Some r"
  shows "terminal_state (res_state r)"
proof -
  have w: "world_inv w" by (rule reachable_inv[OF assms(1)])
  then have "length (held (mgr w)) = active_tasks (mgr w)" by (auto simp: world_inv_def manager_inv_def ledger_def)
  moreover have "active_tasks (mgr w) = 0" "queued (mgr w) = []"
    using assms(2) by (auto simp: wait_for_idle_result_def idle_condition_def idle_def queued_def)
  ultimately show ?thesis using nothing_waiting_terminal[OF w _ _ assms(3)] by simp
qed

text \<open>C17. Once \<open>stop\<close> has returned, no worker is left and every task has reached its final state.\<close>

theorem stopped_all_done:
  assumes "reachable initial (step lc os) w" and "control w = Ready" and "\<not> started (mgr w)"
    and "stopping (mgr w)" and "map_of (results (mgr w)) j = Some r"
  shows "workers (mgr w) = [] \<and> terminal_state (res_state r)"
proof -
  have w: "world_inv w" by (rule reachable_inv[OF assms(1)])
  then have "workers (mgr w) = []" "queued (mgr w) = []"
    using assms(2-4) by (simp_all add: world_inv_def manager_inv_def)
  then show ?thesis using nothing_waiting_terminal[OF w _ _ assms(5)] by (simp add: held_def)
qed


section \<open>Final results stay\<close>

definition final_result :: "string \<Rightarrow> sync_result \<Rightarrow> world \<Rightarrow> bool" where
  "final_result j r w \<longleftrightarrow> map_of (results (mgr w)) j = Some r \<and> terminal_state (res_state r)"

lemma terminal_not: "terminal_state s \<Longrightarrow> \<not> queued_state s \<and> s \<noteq> InProgress"
  by (auto simp: terminal_state_def)

lemma final_set_service_state:
  "map_of (results m) j = Some r \<Longrightarrow> terminal_state (res_state r) \<Longrightarrow>
     map_of (results (set_service_state st m)) j = Some r"
  by (auto simp: set_service_state_def Let_def map_of_change_results fail_result_def dest: terminal_not)

lemma final_worker_step:
  assumes inv: "world_inv w" and step: "worker_step lc os now i w = Some w'" and fin: "final_result j r w"
  shows "final_result j r w'"
proof -
  have m: "manager_inv (mgr w)" using inv by (simp add: world_inv_def)
  have r: "map_of (results (mgr w)) j = Some r" "terminal_state (res_state r)" using fin by (simp_all add: final_result_def)
  have held: "j \<noteq> item_id item" if "i < length (workers (mgr w))" "item_id item \<in> set (held_by (workers (mgr w) ! i))" for item
    using held_lookup[OF m that] r terminal_not by fastforce
  show ?thesis
    using step m
  proof (cases rule: worker_step_cases)
    case (took item m')
    have "item_id item \<in> set (queued (mgr w))"
      using took(3) by (rule take_round_taken) (auto simp: queue_of_def queued_def split: if_splits)
    then have "j \<noteq> item_id item" using ledger_queued[OF ledger_of[OF m]] r terminal_not by fastforce
    then show ?thesis using took(3) r took(4)
      by (auto simp: final_result_def map_of_change_result elim!: take_round_taken)
  next
    case (finished item st e c m')
    then show ?thesis using held[of item] r
      by (auto simp: final_result_def complete_task_def map_of_change_result held_by_def split: option.splits)
  next
    case (disconnected item e c)
    then show ?thesis using r by (auto simp: final_result_def final_set_service_state)
  next
    case (requeued item e c m')
    then have "j \<noteq> item_id item" using held[of item] by (auto simp: held_by_def)
    with requeued(3) have "map_of (results m') j = Some r"
      by (cases rule: requeue_task_cases) (use r in \<open>auto simp: map_of_change_result\<close>)
    then show ?thesis using requeued r by (simp add: final_result_def)
  qed (use r in \<open>auto simp: final_result_def\<close>)
qed

lemma final_begin_stop: "final_result j r w \<Longrightarrow> final_result j r (begin_stop w)"
  by (auto simp: begin_stop_def final_result_def stop_request_def map_of_change_results cancel_result_def
      dest: terminal_not split: option.splits if_splits)

lemma final_control_step:
  assumes "control_step lc os call w = Some w'" and fin: "final_result j r w"
  shows "final_result j r w'"
proof -
  have r: "map_of (results (mgr w)) j = Some r" "terminal_state (res_state r)" using fin by (simp_all add: final_result_def)
  from assms(1) show ?thesis
  proof (cases rule: control_step_cases)
    case (stop m)
    then show ?thesis using final_begin_stop[OF fin] by (simp add: begin_stop_def)
  qed (use r in \<open>auto simp: final_result_def map_of_emplace_result stop_signal_def final_set_service_state
      stop_join_def set_result_callback_def split: if_splits\<close>)
qed

lemma final_monitor_step:
  assumes "monitor_step lc w = Some w'" and "final_result j r w"
  shows "final_result j r w'"
  using assms by (auto simp: monitor_step_def Let_def final_result_def final_set_service_state
      split: option.splits monitor_pc.splits prod.splits)

lemma final_step:
  assumes "world_inv w" and "step lc os w w'" and "final_result j r w"
  shows "final_result j r w'"
  using assms(2)
proof cases
  case (other_program fs)
  then show ?thesis using assms(3) by (simp add: final_result_def)
qed (use assms(1,3) final_worker_step final_monitor_step final_control_step in blast)+

text \<open>C10. A result that is completed, failed or cancelled never changes again, in no field and by no
  interleaving, not even by a stop and a new start.\<close>

theorem final_results_stay:
  assumes "reachable initial (step lc os) w" and "(step lc os)\<^sup>*\<^sup>* w w'"
    and "map_of (results (mgr w)) j = Some r" and "terminal_state (res_state r)"
  shows "map_of (results (mgr w')) j = Some r"
proof -
  have "final_result j r w'"
    by (rule sync.stable_steps[OF final_step assms(2) reachable_inv[OF assms(1)]])
       (use assms(3,4) in \<open>auto simp: final_result_def\<close>)
  then show ?thesis by (simp add: final_result_def)
qed

end
