(* ===== verification/Sync_Progress.thy ===== *)
theory Sync_Progress
  imports Sync_Steps
begin

text \<open>
  What the threads of \<^verbatim>\<open>net/sync_manager.cpp\<close> are sure to do: a worker that holds a task puts it
  down after a bounded number of its own steps, \<open>stop\<close> returns, and the monitor reports a
  permanent failure exactly when enough checks in a row have failed. The critical sections of
  one worker, run without interruption, are \<open>process_task\<close>; a download that ends as completed
  has left a valid file.
\<close>

section \<open>Workers and the stop\<close>

text \<open>The own steps a worker can still make before it is back in \<open>take_task\<close> or has ended.\<close>

fun pc_rank :: "worker_pc \<Rightarrow> nat" where
  "pc_rank (Started item) = 5"
| "pc_rank (Loaded item task attempts) = 4"
| "pc_rank (Decided item (Disconnect e c)) = 3"
| "pc_rank (Decided item v) = 2"
| "pc_rank Taking = 1"
| "pc_rank Exited = 0"

definition worker_rank :: "nat \<Rightarrow> world \<Rightarrow> nat" where
  "worker_rank i w = pc_rank (w_pc (workers (mgr w) ! i))"

lemma verdict_rank: "pc_rank (Decided item v) = 2 \<or> pc_rank (Decided item v) = 3"
  by (cases v) auto

lemma decide_cases: "pc_rank (Decided item (decide cfg attempts outcome)) < 4"
  using verdict_rank[of item "decide cfg attempts outcome"] by auto

lemma set_worker_nth [simp]:
  "i < length (workers m) \<Longrightarrow> workers (set_worker i wk m) ! k = (if k = i then wk else workers m ! k)"
  by (simp add: set_worker_def)

lemma same_workers:
  "take_round large now m = Task_Taken item m1 \<Longrightarrow> workers m1 = workers m"
  "complete_task tid st e c m = Some m1 \<Longrightarrow> workers m1 = workers m"
  "requeue_task now item' e' c' m = Some m2 \<Longrightarrow> workers m2 = workers m"
  by (auto simp: complete_task_def split: option.splits elim!: take_round_taken dest: requeue_task_frame)

text \<open>A step of a worker changes no other worker, and brings its own rank down unless it takes a task.\<close>

lemma worker_step_rank:
  assumes m: "manager_inv (mgr w)" and step: "worker_step lc os now i w = Some w'"
  shows "i < length (workers (mgr w)) \<and> length (workers (mgr w')) = length (workers (mgr w))
    \<and> (\<forall>k. k \<noteq> i \<longrightarrow> workers (mgr w') ! k = workers (mgr w) ! k)
    \<and> (worker_rank i w' < worker_rank i w \<or> worker_rank i w = 1 \<and> \<not> stopping (mgr w))"
  using step m
proof (cases rule: worker_step_cases)
  case (took item m')
  then have "\<not> stopping (mgr w)" by (auto elim: take_round_taken)
  then show ?thesis using took same_workers(1)[OF took(3)] by (simp add: worker_rank_def)
next
  case (transferred item task attempts outcome net' fs')
  then show ?thesis using decide_cases[of item "config (mgr w)" attempts outcome] by (simp add: worker_rank_def)
next
  case (finished item st e c m')
  then show ?thesis using same_workers(2)[OF finished(3)] by (simp add: worker_rank_def)
next
  case (requeued item e c m')
  then show ?thesis using same_workers(3)[OF requeued(3)] by (simp add: worker_rank_def)
qed (simp_all add: worker_rank_def)

lemma worker_enabled:
  assumes "world_inv w" and "i < length (workers (mgr w))"
    and "worker_rank i w > 1 \<or> worker_rank i w = 1 \<and> stopping (mgr w)"
  shows "\<exists>w'. worker_step lc os now i w = Some w'"
proof -
  let ?wk = "workers (mgr w) ! i"
  have m: "manager_inv (mgr w)" using assms(1) by (simp add: world_inv_def)
  show ?thesis
  proof (cases "w_pc ?wk")
    case Taking
    then show ?thesis using assms by (auto simp: worker_step_def worker_rank_def take_round_def Let_def)
  next
    case (Started item)
    then show ?thesis using assms(2) by (auto simp: worker_step_def Let_def split: option.split)
  next
    case (Loaded item task attempts)
    have "retries (w_network ?wk) = 0" using worker_in_ok[OF m assms(2)] by (simp add: worker_ok_def)
    from transfer_task_returns[OF this, of lc os "config (mgr w)" task "disk w"]
    obtain x where "transfer_task lc os (config (mgr w)) task (w_network ?wk) (disk w) = Some x" by blast
    then show ?thesis using Loaded assms(2) by (simp add: worker_step_def Let_def)
  next
    case (Decided item v)
    then show ?thesis using assms(2) by (cases v) (simp_all add: worker_step_def Let_def)
  next
    case Exited
    then show ?thesis using assms by (simp add: worker_rank_def)
  qed
qed

text \<open>C24. A worker that holds a task is never blocked: its next step exists whatever the others do, and
  brings it nearer to putting the task down, which takes at most four of its steps.\<close>

theorem holder_progress:
  assumes "reachable initial (step lc os) w" and "i < length (workers (mgr w))"
    and "held_by (workers (mgr w) ! i) \<noteq> []"
  shows "worker_rank i w \<le> 5 \<and> (\<exists>w'. worker_step lc os now i w = Some w' \<and> worker_rank i w' < worker_rank i w)"
proof -
  have w: "world_inv w" by (rule reachable_inv[OF assms(1)])
  have le: "pc_rank pc \<le> 5" for pc by (cases pc rule: pc_rank.cases) auto
  have "worker_rank i w > 1"
    using assms(3) by (cases "w_pc (workers (mgr w) ! i)" rule: pc_rank.cases)
      (auto simp: held_by_def worker_rank_def)
  then obtain w' where "worker_step lc os now i w = Some w'" using worker_enabled[OF w assms(2)] by blast
  moreover have "manager_inv (mgr w)" using w by (simp add: world_inv_def)
  ultimately show ?thesis using worker_step_rank \<open>worker_rank i w > 1\<close> le by (fastforce simp: worker_rank_def)
qed


text \<open>The steps all threads but the control thread can still make once \<open>stopping_\<close> is set.\<close>

definition monitor_rank :: "manager \<Rightarrow> nat" where
  "monitor_rank m = (case monitor m of None \<Rightarrow> 0 | Some t \<Rightarrow> (case mon_pc t of
       Checking \<Rightarrow> 1 | Probing \<Rightarrow> 4 | Probed connected \<Rightarrow> 3 | Waiting \<Rightarrow> 2 | Monitor_Exited \<Rightarrow> 0))"

definition total_rank :: "world \<Rightarrow> nat" where
  "total_rank w = sum_list (map (\<lambda>wk. pc_rank (w_pc wk)) (workers (mgr w))) + monitor_rank (mgr w)"

definition thread_step :: "libcurl \<Rightarrow> os \<Rightarrow> world \<Rightarrow> world \<Rightarrow> bool" where
  "thread_step lc os w w' \<longleftrightarrow> (\<exists>now i. worker_step lc os now i w = Some w') \<or> monitor_step lc w = Some w'"

lemma sum_list_nth_less:
  fixes f :: "'a \<Rightarrow> nat"
  assumes "i < length xs" and "length ys = length xs" and "\<And>k. k \<noteq> i \<Longrightarrow> ys ! k = xs ! k" and "f (ys ! i) < f (xs ! i)"
  shows "sum_list (map f ys) < sum_list (map f xs)"
proof -
  have ys: "ys = xs[i := ys ! i]"
    using assms(1-3) by (intro nth_equalityI) (auto simp: nth_list_update)
  have "sum_list (map f xs) = sum_list (map f (take i xs)) + f (xs ! i) + sum_list (map f (drop (Suc i) xs))"
    by (subst id_take_nth_drop[OF assms(1)]) simp
  moreover have "sum_list (map f ys) = sum_list (map f (take i xs)) + f (ys ! i) + sum_list (map f (drop (Suc i) xs))"
    by (subst ys) (simp add: upd_conv_take_nth_drop assms(1))
  ultimately show ?thesis using assms(4) by simp
qed

lemma worker_step_frame:
  assumes m: "manager_inv (mgr w)" and step: "worker_step lc os now i w = Some w'"
  shows "monitor (mgr w') = monitor (mgr w) \<and> stopping (mgr w') = stopping (mgr w) \<and> control w' = control w"
  using step m
  by (cases rule: worker_step_cases) (use same_run_ops in \<open>force simp: same_run_def\<close>)+

lemma monitor_step_frame:
  assumes "monitor_step lc w = Some w'"
  shows "workers (mgr w') = workers (mgr w) \<and> stopping (mgr w') = stopping (mgr w) \<and> control w' = control w
    \<and> (stopping (mgr w) \<longrightarrow> monitor_rank (mgr w') < monitor_rank (mgr w))"
  using assms by (auto simp: monitor_step_def monitor_rank_def Let_def split: option.splits monitor_pc.splits prod.splits)

lemma thread_step_rank:
  assumes inv: "world_inv w" and stop: "stopping (mgr w)" and step: "thread_step lc os w w'"
  shows "total_rank w' < total_rank w \<and> control w' = control w \<and> stopping (mgr w')"
proof -
  have m: "manager_inv (mgr w)" using inv by (simp add: world_inv_def)
  from step consider now i where "worker_step lc os now i w = Some w'" | "monitor_step lc w = Some w'"
    by (auto simp: thread_step_def)
  then show ?thesis
  proof cases
    case 1
    note f = worker_step_frame[OF m 1]
    have "sum_list (map (\<lambda>wk. pc_rank (w_pc wk)) (workers (mgr w')))
        < sum_list (map (\<lambda>wk. pc_rank (w_pc wk)) (workers (mgr w)))"
      by (rule sum_list_nth_less[of i])
         (use worker_step_rank[OF m 1] stop in \<open>auto simp: worker_rank_def\<close>)
    then show ?thesis using f stop by (simp add: total_rank_def monitor_rank_def)
  next
    case 2
    then show ?thesis using monitor_step_frame[OF 2] stop by (simp add: total_rank_def)
  qed
qed

lemma probe_returns: "retries net = 0 \<Longrightarrow> \<exists>x. probe lc cfg net = Some x"
  using perform_returns[of net lc "configure_request (health_url cfg)" "[]"]
  by (auto simp: probe_def http_get_def UINT_MAX_def)

lemma stopping_not_stuck:
  assumes inv: "world_inv w" and ctl: "control w = Joining"
  shows "(\<exists>w'. control_step lc os call w = Some w') \<or> (\<exists>w'. thread_step lc os w w')"
proof (rule disjCI)
  assume none: "\<nexists>w'. thread_step lc os w w'"
  have stop: "stopping (mgr w)" using inv ctl by (simp add: world_inv_def)
  have "w_pc wk = Exited" if wk: "wk \<in> set (workers (mgr w))" for wk
  proof (rule ccontr)
    assume "w_pc wk \<noteq> Exited"
    then have r: "pc_rank (w_pc wk) \<ge> 1" by (cases "w_pc wk" rule: pc_rank.cases) auto
    from wk obtain i where i: "i < length (workers (mgr w))" "workers (mgr w) ! i = wk" by (auto simp: in_set_conv_nth)
    then have "\<exists>w'. worker_step lc os 0 i w = Some w'" using r stop
      by (intro worker_enabled[OF inv]) (auto simp: worker_rank_def)
    then show False using none by (auto simp: thread_step_def)
  qed
  moreover have "mon_pc t = Monitor_Exited" if t: "monitor (mgr w) = Some t" for t
  proof (rule ccontr)
    assume "mon_pc t \<noteq> Monitor_Exited"
    moreover have "retries (mon_network t) = 0" using inv t by (simp add: world_inv_def monitor_ok_def)
    ultimately have "\<exists>w'. monitor_step lc w = Some w'"
      using t probe_returns[of "mon_network t" lc "config (mgr w)"]
      by (cases "mon_pc t") (auto simp: monitor_step_def Let_def split: prod.split)
    then show False using none by (auto simp: thread_step_def)
  qed
  ultimately have "stop_join (mgr w) \<noteq> None"
    by (auto simp: stop_join_def list_all_iff split: option.split)
  then show "\<exists>w'. control_step lc os call w = Some w'" using ctl by (auto simp: control_step_def)
qed



section \<open>The pieces of a worker and the whole operation\<close>

lemma set_worker_twice [simp]: "set_worker i a (set_worker i b m) = set_worker i a m"
  by (simp add: set_worker_def)

text \<open>The critical sections do not look at the list of threads.\<close>

lemma ops_set_worker:
  "complete_task tid st e c (set_worker i wk m) = map_option (set_worker i wk) (complete_task tid st e c m)"
  "requeue_task now item e c (set_worker i wk m) = map_option (set_worker i wk) (requeue_task now item e c m)"
  "set_service_state sst (set_worker i wk m) = set_worker i wk (set_service_state sst m)"
  by (auto simp: complete_task_def requeue_task_def set_service_state_def set_worker_def notify_def
      set_queue_def queue_of_def Let_def split: option.split)

lemma carry_out_steps:
  assumes i: "i < length (workers m)" and ok: "\<not> crashed w"
    and w: "mgr w = set_worker i (wk\<lparr>w_pc := Decided item v\<rparr>) m"
    and v: "carry_out now item v m = Some m'"
  shows "(step lc os)\<^sup>*\<^sup>* w (w\<lparr>mgr := set_worker i (wk\<lparr>w_pc := Taking\<rparr>) m'\<rparr>)"
proof -
  have requeue: "step lc os u (u\<lparr>mgr := set_worker i (wk\<lparr>w_pc := Taking\<rparr>) m'\<rparr>)"
    if "mgr u = set_worker i (wk\<lparr>w_pc := Decided item (Requeue e c)\<rparr>) m1" "\<not> crashed u"
      "i < length (workers m1)" "requeue_task now item e c m1 = Some m'" for u m1 e c
    using that by (intro step.worker[of u lc os now i])
      (auto simp: worker_step_def Let_def ops_set_worker or_crash_def)
  show ?thesis
  proof (cases v)
    case (Finish st e c)
    have "worker_step lc os now i w = Some (w\<lparr>mgr := set_worker i (wk\<lparr>w_pc := Taking\<rparr>) m'\<rparr>)"
      using i w v Finish by (auto simp: worker_step_def Let_def ops_set_worker or_crash_def carry_out_def)
    then show ?thesis using step.worker[OF ok] by blast
  next
    case (Disconnect e c)
    let ?u = "w\<lparr>mgr := set_worker i (wk\<lparr>w_pc := Decided item (Requeue e c)\<rparr>) (set_service_state Disconnected m)\<rparr>"
    have "worker_step lc os now i w = Some ?u"
      using i w Disconnect by (simp add: worker_step_def Let_def ops_set_worker)
    then have "step lc os w ?u" by (rule step.worker[OF ok])
    moreover have "step lc os ?u (?u\<lparr>mgr := set_worker i (wk\<lparr>w_pc := Taking\<rparr>) m'\<rparr>)"
      using requeue[of ?u e c "set_service_state Disconnected m"] i ok v Disconnect by (simp add: carry_out_def)
    ultimately show ?thesis by (simp add: converse_rtranclp_into_rtranclp)
  next
    case (Requeue e c)
    then show ?thesis using requeue[OF w[unfolded Requeue] ok i] v by (simp add: carry_out_def)
  qed
qed


section \<open>The monitor\<close>


section \<open>A completed download\<close>

lemma decide_cases_outcome:
  obtains (success) code error where "outcome = Inr (True, code, error)"
  | (failed) e code where "decide cfg attempts outcome = Finish Failed e code"
  | (disconnect) e code where "decide cfg attempts outcome = Disconnect e code"
  | (requeue) e code where "decide cfg attempts outcome = Requeue e code"
proof (cases outcome)
  case (Inl e)
  then show thesis using failed[of e 0] by (simp add: decide_def)
next
  case (Inr x)
  obtain ok code error where x: "x = (ok, code, error)" by (cases x)
  show thesis
    using success[of code error] failed disconnect requeue Inr x
    by (cases ok; cases "is_retryable code error \<and> attempts \<le> max_retries cfg"; cases "code = 0 \<or> code \<ge> 500")
       (auto simp: decide_def)
qed

text \<open>Only a transfer that reports success makes a task completed.\<close>

lemma completed_success:
  assumes "carry_out now item (decide cfg attempts outcome) m = Some m'"
    and "map_of (results m') (item_id item) = Some r'" and "res_state r' = Completed"
  shows "\<exists>code error. outcome = Inr (True, code, error)"
proof -
  have again: False if "requeue_task now item e code m1 = Some m'" for e code m1
    using that by (cases rule: requeue_task_cases)
      (use assms(2,3) in \<open>auto simp: map_of_change_result finish_result_def split: if_splits\<close>)
  show ?thesis
  proof (cases rule: decide_cases_outcome[where outcome = outcome and cfg = cfg and attempts = attempts])
    case (failed e code)
    then show ?thesis using assms
      by (auto simp: carry_out_def complete_task_def map_of_change_result finish_result_def split: option.splits)
  qed (use assms(1) in \<open>auto simp: carry_out_def dest: again\<close>)
qed

text \<open>A download that succeeded has left a valid file below the root.\<close>

lemma transfer_valid:
  assumes "transfer_task lc os cfg task net fs = Some (Inr (True, code, error), net', fs')" and "direction task = Download"
    and "root_at os cfg fs root" and "slash_free (parts (local_path task))"
    and "last (parts (lexically_normal (local_path task))) \<noteq> []" and "\<And>p g. refuse os Unlink p g = None"
  shows "\<exists>c fs1 b content. resolve_local_path os cfg fs (local_path task) True = (Inr c, fs1)
    \<and> resolve_entry os fs1 c = Inr b \<and> strict_prefix root b
    \<and> fs' b = Some (Regular content) \<and> valid_content (validation task) content"
proof -
  obtain c fs1 where c: "resolve_local_path os cfg fs (local_path task) True = (Inr c, fs1)"
    "\<exists>net1 error. http_download_file lc os (task_url task) (path_string c) (validation task) (net, fs1, [])
      = Some (True, net1, fs', error)"
    using assms(1,2) by (auto simp: transfer_task_def split: prod.splits sum.splits)
  note ok = accepted_part_ok[OF c(1) assms(3-5) assms(6)]
  obtain net1 e where "http_download_file lc os (task_url task) (path_string c) (validation task) (net, fs1, [])
      = Some (True, net1, fs', e)" using c(2) by blast
  from download_post[OF this] ok(1,2) obtain b content where b: "resolve_entry os fs1 c = Inr b"
    "fs' b = Some (Regular content)" "valid_content (validation task) content"
    by (auto simp: dl_post_def)
  moreover have "strict_prefix root b"
    using entry_below_root[OF c(1) assms(3) _ _ refl b(1)] part_okD[OF ok(2)] by simp
  ultimately show ?thesis using c(1) by blast
qed


end
