(* ===== verification/Provenance.thy ===== *)
theory Provenance
  imports Sync_Progress
begin

text \<open>
  Why a task of \<^verbatim>\<open>net/sync_manager.cpp\<close> is completed: some worker's transfer of that very task has
  succeeded, at a moment of the run that can be named. What a successful transfer leaves on the
  disk is then known from the theories \<open>Network\<close> and \<open>Local_Path\<close>.
\<close>

section \<open>Tasks in the map\<close>

text \<open>A task that was accepted stays in the map.\<close>

definition keeps_tasks :: "manager \<Rightarrow> manager \<Rightarrow> bool" where
  "keeps_tasks m m' \<longleftrightarrow> (\<forall>j r. map_of (results m) j = Some r \<longrightarrow>
     (\<exists>r'. map_of (results m') j = Some r' \<and> res_task r' = res_task r))"

lemma keeps_tasks_refl [simp]: "results m' = results m \<Longrightarrow> keeps_tasks m m'"
  by (simp add: keeps_tasks_def)

lemma same_task [simp]:
  "res_task (take_result r) = res_task r" "res_task (finish_result st e c r) = res_task r"
  "res_task (fail_result r) = res_task r" "res_task (cancel_result r) = res_task r"
  by (simp_all add: take_result_def finish_result_def fail_result_def cancel_result_def)

lemmas keeps_simps = keeps_tasks_def map_of_change_result map_of_change_results

lemma keeps_tasks_service: "keeps_tasks m (set_service_state st m)"
  by (auto simp: set_service_state_def Let_def keeps_simps)

lemma worker_keeps_tasks:
  assumes "manager_inv (mgr w)" and "worker_step lc os now i w = Some w'"
  shows "keeps_tasks (mgr w) (mgr w')"
  using assms(2,1)
proof (cases rule: worker_step_cases)
  case (took item m')
  from took(3) show ?thesis
    by (rule take_round_taken) (use took(4) in \<open>auto simp: keeps_simps\<close>)
next
  case (finished item st e c m')
  then show ?thesis by (auto simp: complete_task_def keeps_simps split: option.splits)
next
  case (disconnected item e c)
  then show ?thesis using keeps_tasks_service[of "mgr w" Disconnected] by (simp add: keeps_tasks_def)
next
  case (requeued item e c m')
  from requeued(3) show ?thesis
    by (cases rule: requeue_task_cases) (use requeued(4) in \<open>auto simp: keeps_simps\<close>)
qed auto

lemma control_keeps_tasks:
  assumes "control_step lc os call w = Some w'"
  shows "keeps_tasks (mgr w) (mgr w')"
  using assms
proof (cases rule: control_step_cases)
  case signal
  then show ?thesis using keeps_tasks_service by (simp add: stop_signal_def)
next
  case (enqueue now task large)
  then show ?thesis by (auto simp: keeps_tasks_def map_of_emplace_result)
qed (auto simp: control_defs keeps_simps split: if_splits)

lemma monitor_keeps_tasks:
  assumes "monitor_step lc w = Some w'"
  shows "keeps_tasks (mgr w) (mgr w')"
  using assms keeps_tasks_service[of "mgr w"]
  by (auto simp: monitor_step_def Let_def keeps_tasks_def split: option.splits monitor_pc.splits prod.splits)

section \<open>The transfer behind a completed task\<close>

definition transferred :: "libcurl \<Rightarrow> os \<Rightarrow> sync_task \<Rightarrow> world \<Rightarrow> world \<Rightarrow> bool" where
  "transferred lc os task u u' \<longleftrightarrow> (\<exists>net net' code error.
     transfer_task lc os (config (mgr u)) task net (disk u) = Some (Inr (True, code, error), net', disk u'))"

definition justified :: "libcurl \<Rightarrow> os \<Rightarrow> sync_task \<Rightarrow> world \<Rightarrow> bool" where
  "justified lc os task w \<longleftrightarrow> (\<exists>u u'. reachable initial (step lc os) u \<and> step lc os u u'
     \<and> transferred lc os task u u' \<and> (step lc os)\<^sup>*\<^sup>* u' w)"

lemma justified_step: "justified lc os task w \<Longrightarrow> step lc os w w' \<Longrightarrow> justified lc os task w'"
  unfolding justified_def by (meson rtranclp.rtrancl_into_rtrancl)

text \<open>A completed result is justified, and so is the decision to complete one.\<close>

definition completing :: "queue_item \<Rightarrow> worker \<Rightarrow> bool" where
  "completing item wk \<longleftrightarrow> (\<exists>e c. w_pc wk = Decided item (Finish Completed e c))"

definition completions_ok :: "libcurl \<Rightarrow> os \<Rightarrow> world \<Rightarrow> bool" where
  "completions_ok lc os w \<longleftrightarrow>
     (\<forall>j r. map_of (results (mgr w)) j = Some r \<and> res_state r = Completed \<longrightarrow> justified lc os (res_task r) w)
   \<and> (\<forall>wk item r. wk \<in> set (workers (mgr w)) \<and> completing item wk
        \<and> map_of (results (mgr w)) (item_id item) = Some r \<longrightarrow> justified lc os (res_task r) w)"

lemma decide_completed: "decide cfg attempts outcome = Finish Completed e c \<Longrightarrow> \<exists>code error. outcome = Inr (True, code, error)"
  by (auto simp: decide_def split: sum.splits prod.splits if_splits)

text \<open>Only the end of a task makes a result completed.\<close>

definition none_completed :: "manager \<Rightarrow> manager \<Rightarrow> bool" where
  "none_completed m m' \<longleftrightarrow> (\<forall>j r. map_of (results m') j = Some r \<and> res_state r = Completed \<longrightarrow> map_of (results m) j = Some r)"

lemma none_completed_refl [simp]: "results m' = results m \<Longrightarrow> none_completed m m'"
  by (simp add: none_completed_def)

lemma none_completed_service: "none_completed m (set_service_state st m)"
  by (auto simp: none_completed_def set_service_state_def Let_def map_of_change_results fail_result_def split: if_splits)

lemma none_completed_set_worker [simp]: "none_completed m (set_worker i wk m') = none_completed m m'"
  by (simp add: none_completed_def)

lemma worker_none_completed:
  assumes "manager_inv (mgr w)" and "worker_step lc os now i w = Some w'"
    and "\<And>item e c. w_pc (workers (mgr w) ! i) \<noteq> Decided item (Finish Completed e c)"
  shows "none_completed (mgr w) (mgr w')"
  using assms(2,1)
proof (cases rule: worker_step_cases)
  case (took item m')
  from took(3) show ?thesis
    by (rule take_round_taken)
       (use took(4) in \<open>auto simp: none_completed_def map_of_change_result take_result_def split: if_splits\<close>)
next
  case (finished item st e c m')
  moreover have "st \<noteq> Completed" using finished(2) assms(3) by blast
  ultimately show ?thesis
    by (auto simp: none_completed_def complete_task_def map_of_change_result finish_result_def split: option.splits if_splits)
next
  case (disconnected item e c)
  then show ?thesis using none_completed_service by simp
next
  case (requeued item e c m')
  from requeued(3) show ?thesis
    by (cases rule: requeue_task_cases)
       (use requeued(4) in \<open>auto simp: none_completed_def map_of_change_result finish_result_def split: if_splits\<close>)
qed auto

lemma monitor_none_completed: "monitor_step lc w = Some w' \<Longrightarrow> none_completed (mgr w) (mgr w')"
  using none_completed_service[of "mgr w"]
  by (auto simp: monitor_step_def Let_def none_completed_def split: option.splits monitor_pc.splits prod.splits)

lemma control_none_completed:
  assumes "control_step lc os call w = Some w'"
  shows "none_completed (mgr w) (mgr w')"
  using assms
proof (cases rule: control_step_cases)
  case signal
  then show ?thesis using none_completed_service by (simp add: stop_signal_def)
qed (auto simp: none_completed_def map_of_emplace_result new_result_def stop_request_def map_of_change_results cancel_result_def
    stop_join_def set_result_callback_def split: if_splits)

text \<open>A decision to complete a task stays as it is or follows a successful transfer.\<close>

lemma in_set_update: "x \<in> set (xs[i := y]) \<Longrightarrow> x = y \<or> x \<in> set xs"
  using set_update_subset_insert by fastforce

lemma worker_completing:
  assumes "manager_inv (mgr w)" and "worker_step lc os now i w = Some w'"
    and "wk' \<in> set (workers (mgr w'))" and "completing item wk'"
  shows "wk' \<in> set (workers (mgr w))
    \<or> (\<exists>r. map_of (results (mgr w')) (item_id item) = Some r \<and> transferred lc os (res_task r) w w')"
  using assms(2,1)
proof (cases rule: worker_step_cases)
  case (transferred item' task attempts outcome net' fs')
  show ?thesis
  proof (cases "wk' \<in> set (workers (mgr w))")
    case False
    then have wk': "wk' = (workers (mgr w) ! i)\<lparr>w_network := net', w_pc := Decided item' (decide (config (mgr w)) attempts outcome)\<rparr>"
      using assms(3) transferred(4) by (auto simp: set_worker_def dest: in_set_update)
    then have item: "item' = item" "\<exists>code error. outcome = Inr (True, code, error)"
      using assms(4) decide_completed by (auto simp: completing_def)
    have "worker_ok (max_retries (config (mgr w))) (results (mgr w)) (workers (mgr w) ! i)"
      using assms(1) transferred(1) by (auto simp: manager_inv_def list_all_length)
    then have "map_option res_task (map_of (results (mgr w)) (item_id item)) = Some task"
      using transferred(2) item(1) by (auto simp: worker_ok_def map_option_case split: option.splits)
    then show ?thesis using transferred(3,4) item(2) by (auto simp: transferred_def)
  qed simp
next
  case (took item' m')
  then show ?thesis using assms(3,4) same_workers(1)[OF took(3)]
    by (auto simp: set_worker_def completing_def dest!: in_set_update)
next
  case (finished item' st e c m')
  then show ?thesis using assms(3,4) same_workers(2)[OF finished(3)]
    by (auto simp: set_worker_def completing_def dest!: in_set_update)
next
  case (requeued item' e c m')
  then show ?thesis using assms(3,4) same_workers(3)[OF requeued(3)]
    by (auto simp: set_worker_def completing_def dest!: in_set_update)
qed (use assms(3,4) in \<open>auto simp: set_worker_def completing_def dest!: in_set_update\<close>)

lemma control_completing:
  assumes "control_step lc os call w = Some w'" and "wk' \<in> set (workers (mgr w'))" and "completing item wk'"
  shows "wk' \<in> set (workers (mgr w))"
  using assms(1)
  by (cases rule: control_step_cases)
     (use assms(2,3) in \<open>auto simp: started_manager_def new_worker_def completing_def control_defs split: if_splits\<close>)

lemma completions_okD:
  "completions_ok lc os w \<Longrightarrow> map_of (results (mgr w)) j = Some r \<Longrightarrow> res_state r = Completed \<Longrightarrow> justified lc os (res_task r) w"
  "completions_ok lc os w \<Longrightarrow> wk \<in> set (workers (mgr w)) \<Longrightarrow> completing item wk \<Longrightarrow>
     map_of (results (mgr w)) (item_id item) = Some r \<Longrightarrow> justified lc os (res_task r) w"
  by (auto simp: completions_ok_def)

text \<open>A decision that stood before a step is still justified after it.\<close>

lemma old_decision:
  assumes "manager_inv (mgr w)" and "completions_ok lc os w" and "step lc os w w'" and "keeps_tasks (mgr w) (mgr w')"
    and "wk \<in> set (workers (mgr w))" and "completing item wk" and "map_of (results (mgr w')) (item_id item) = Some r"
  shows "justified lc os (res_task r) w'"
proof -
  have "item_id item \<in> set (held_by wk)" using assms(6) by (auto simp: completing_def held_by_def)
  then obtain r0 where r0: "map_of (results (mgr w)) (item_id item) = Some r0"
    using held_not_none[OF assms(1,5)] by blast
  then have "res_task r = res_task r0" using assms(4,7) by (fastforce simp: keeps_tasks_def)
  then show ?thesis using justified_step[OF completions_okD(2)[OF assms(2,5,6) r0] assms(3)] by simp
qed

lemma completions_same:
  assumes inv: "manager_inv (mgr w)" and ok: "completions_ok lc os w" and step: "step lc os w w'"
    and kept: "keeps_tasks (mgr w) (mgr w')" and none: "none_completed (mgr w) (mgr w')"
    and old: "\<And>wk item. wk \<in> set (workers (mgr w')) \<Longrightarrow> completing item wk \<Longrightarrow> wk \<in> set (workers (mgr w))"
  shows "completions_ok lc os w'"
proof -
  have "justified lc os (res_task r) w'" if "map_of (results (mgr w')) j = Some r" "res_state r = Completed" for j r
    using that none justified_step[OF completions_okD(1)[OF ok] step] unfolding none_completed_def by blast
  then show ?thesis unfolding completions_ok_def using old_decision[OF inv ok step kept] old by blast
qed

lemma completions_worker:
  assumes reach: "reachable initial (step lc os) w" and ok: "completions_ok lc os w" and nc: "\<not> crashed w"
    and step: "worker_step lc os now i w = Some w'"
  shows "completions_ok lc os w'"
proof -
  have inv: "manager_inv (mgr w)" using reachable_inv[OF reach] by (simp add: world_inv_def)
  have st: "step lc os w w'" by (rule step.worker[OF nc step])
  note kept = worker_keeps_tasks[OF inv step] and old = completions_okD(1)[OF ok]
  have i: "i < length (workers (mgr w))" using worker_step_rank[OF inv step] by simp
  have "justified lc os (res_task r) w'" if r: "map_of (results (mgr w')) j = Some r" "res_state r = Completed" for j r
  proof (cases "\<exists>item. completing item (workers (mgr w) ! i)")
    case False
    then have "none_completed (mgr w) (mgr w')" by (intro worker_none_completed[OF inv step]) (auto simp: completing_def)
    then show ?thesis using r justified_step[OF old st] unfolding none_completed_def by blast
  next
    case True
    then obtain item e c where pc: "w_pc (workers (mgr w) ! i) = Decided item (Finish Completed e c)" by (auto simp: completing_def)
    show ?thesis
    proof (cases "j = item_id item")
      case True
      then show ?thesis using old_decision[OF inv ok st kept nth_mem[OF i], of item r] pc r(1) by (auto simp: completing_def)
    next
      case False
      then have "map_of (results (mgr w)) j = Some r"
        using step i pc r(1) by (auto simp: worker_step_def Let_def or_crash_def complete_task_def map_of_change_result split: option.splits)
      then show ?thesis using r(2) justified_step[OF old st] by blast
    qed
  qed
  moreover have "justified lc os (res_task r) w'"
    if wk: "wk \<in> set (workers (mgr w'))" "completing item wk" and r: "map_of (results (mgr w')) (item_id item) = Some r" for wk item r
    using worker_completing[OF inv step wk] old_decision[OF inv ok st kept _ wk(2) r] r reach st
    unfolding justified_def by auto
  ultimately show ?thesis unfolding completions_ok_def by blast
qed

lemma reachable_completions: "reachable initial (step lc os) w \<Longrightarrow> completions_ok lc os w"
proof (induction rule: reachable.induct)
  case (reachable_init w)
  then show ?case by (auto simp: initial_def new_manager_def completions_ok_def)
next
  case (reachable_step w w')
  have inv: "manager_inv (mgr w)" using reachable_inv[OF reachable_step(1)] by (simp add: world_inv_def)
  note same = completions_same[OF inv reachable_step.IH reachable_step(2)]
  from reachable_step(2) show ?case
  proof cases
    case (worker now i)
    then show ?thesis by (rule completions_worker[OF reachable_step(1) reachable_step.IH])
  next
    case monitor
    then show ?thesis using monitor_keeps_tasks monitor_none_completed monitor_step_frame[OF monitor(2)] by (intro same) auto
  next
    case (control call)
    then show ?thesis using control_keeps_tasks control_none_completed control_completing by (intro same) blast+
  next
    case (other_program fs)
    then show ?thesis by (intro same) auto
  qed
qed

lemma completion_justified:
  assumes "reachable initial (step lc os) w" and "map_of (results (mgr w)) j = Some r" and "res_state r = Completed"
  shows "justified lc os (res_task r) w"
  by (rule completions_okD(1)[OF reachable_completions[OF assms(1)] assms(2,3)])


end
