(* ===== verification/Reborn.thy ===== *)
theory Reborn
  imports Prelude
begin

text \<open>
  \<^verbatim>\<open>include/reborn/reborn.h\<close> and \<^verbatim>\<open>include/reborn/reborn.cpp\<close>: the class \<open>Socket<Request>\<close>, an
  in-memory queue of requests with a pair of descriptors. The system calls it makes are listed
  as data; \<open>processRequests\<close> is a loop that need not end, so it is a partial function, and the
  theory shows on which buffers it does. The interface \<open>fifo\<close> states the order of requests
  once; the buffer is its instance.
\<close>

section \<open>Data\<close>

datatype socket_stat = OK | ERR | WAITING | UNDEFINED

record request =
  payload :: string
  req_status :: socket_stat

definition new_request :: "string \<Rightarrow> request" where
  "new_request data = \<lparr>payload = data, req_status = WAITING\<rparr>"

definition INVALID_SOCKET_VALUE :: int where
  "INVALID_SOCKET_VALUE = -1"

text \<open>A \<open>const char*\<close> is \<open>None\<close> when null, else the characters up to the terminating zero.\<close>

type_synonym c_string = "string option"

text \<open>\<open>std::string::c_str\<close>: the receiver sees the text up to the first zero.\<close>

definition c_str :: "string \<Rightarrow> c_string" where
  "c_str s = Some (takeWhile (\<lambda>c. c \<noteq> CHR 0x00) s)"

record socket =
  socket_path :: c_string
  buffer :: "request list"
  server_fd :: int
  client_fd :: int
  bytes :: int
  last_status :: socket_stat
  answer :: c_string

datatype sys_call = Close_Fd int | Unlink_Path string

section \<open>Operations\<close>

text \<open>The public constructor; \<open>fd\<close> is what \<open>::socket\<close> returned.\<close>

definition new_socket :: "int \<Rightarrow> c_string \<Rightarrow> socket" where
  "new_socket fd path = \<lparr>socket_path = path, buffer = [], server_fd = fd,
     client_fd = INVALID_SOCKET_VALUE, bytes = 0, last_status = UNDEFINED, answer = None\<rparr>"

definition socket_bool :: "socket \<Rightarrow> bool" where
  "socket_bool s \<longleftrightarrow> server_fd s \<noteq> INVALID_SOCKET_VALUE"

definition push_back :: "request \<Rightarrow> socket \<Rightarrow> socket" where
  "push_back r s = s\<lparr>buffer := buffer s @ [r]\<rparr>"

definition pop_front :: "socket \<Rightarrow> (request \<times> socket) option" where
  "pop_front s = (case buffer s of [] \<Rightarrow> None | r # rs \<Rightarrow> Some (r, s\<lparr>buffer := rs\<rparr>))"

definition enqueueRequest :: "string \<Rightarrow> socket \<Rightarrow> socket_stat \<times> socket" where
  "enqueueRequest req s = (if req = [] then (ERR, s) else (OK, push_back (new_request req) s))"

definition forwardTo :: "request \<Rightarrow> bool" where
  "forwardTo r \<longleftrightarrow> payload r \<noteq> []"

text \<open>
  \<open>processNextRequest\<close>: the front request is marked and then erased, so only the fields the
  mark goes to are seen afterwards.
\<close>

definition processNextRequest :: "socket \<Rightarrow> socket_stat \<times> socket" where
  "processNextRequest s = (case pop_front s of
       None \<Rightarrow> (UNDEFINED, s)
     | Some (front, rest) \<Rightarrow>
         if req_status front \<noteq> WAITING then (ERR, s)
         else let processed = forwardTo front;
                  st = (if processed then OK else ERR)
              in (st, rest\<lparr>last_status := st, answer := Some (if processed then ''OK'' else ''ERR'')\<rparr>))"

partial_function (option) process_loop :: "socket_stat \<Rightarrow> socket \<Rightarrow> (socket_stat \<times> socket) option" where
  "process_loop status s = (case processNextRequest s of (next_stat, s') \<Rightarrow>
     if next_stat = UNDEFINED then Some (status, s') else process_loop next_stat s')"

declare process_loop.simps [code]

definition processRequests :: "socket \<Rightarrow> (socket_stat \<times> socket) option" where
  "processRequests s = process_loop ERR s"

definition sendRequest :: "c_string \<Rightarrow> socket \<Rightarrow> socket_stat \<times> socket" where
  "sendRequest req s = (case req of
       None \<Rightarrow> (ERR, s)
     | Some r \<Rightarrow> if r = [] then (ERR, s) else enqueueRequest r s)"

definition setSocketPath :: "c_string \<Rightarrow> socket \<Rightarrow> socket_stat \<times> socket" where
  "setSocketPath path s = (OK, s\<lparr>socket_path := path\<rparr>)"

definition close_fds :: "socket \<Rightarrow> sys_call list" where
  "close_fds s = (if server_fd s \<noteq> INVALID_SOCKET_VALUE then [Close_Fd (server_fd s)] else [])
     @ (if client_fd s \<noteq> INVALID_SOCKET_VALUE then [Close_Fd (client_fd s)] else [])"

definition close :: "socket \<Rightarrow> socket_stat \<times> socket \<times> sys_call list" where
  "close s = (OK, s\<lparr>server_fd := INVALID_SOCKET_VALUE, client_fd := INVALID_SOCKET_VALUE\<rparr>, close_fds s)"

definition destroy :: "socket \<Rightarrow> sys_call list" where
  "destroy s = close_fds s @ (case socket_path s of None \<Rightarrow> [] | Some p \<Rightarrow> [Unlink_Path p])"

text \<open>The two getters.\<close>

definition getLastStatus :: "socket \<Rightarrow> socket_stat" where
  "getLastStatus s = last_status s"

definition getAnswer :: "socket \<Rightarrow> c_string" where
  "getAnswer s = answer s"

section \<open>First in, first out\<close>

locale fifo =
  fixes enq :: "'a \<Rightarrow> 'q \<Rightarrow> 'q"
    and deq :: "'q \<Rightarrow> ('a \<times> 'q) option"
    and items :: "'q \<Rightarrow> 'a list"
  assumes items_enq: "items (enq x q) = items q @ [x]"
    and deq_empty: "deq q = None \<longleftrightarrow> items q = []"
    and deq_items: "deq q = Some (x, q') \<Longrightarrow> items q = x # items q'"
begin

lemma deq_after_enqs:
  "items q = [] \<Longrightarrow> items (fold enq xs q) = xs"
proof -
  have "items (fold enq xs q) = items q @ xs" for q
    by (induction xs arbitrary: q) (simp_all add: items_enq)
  then show "items q = [] \<Longrightarrow> items (fold enq xs q) = xs" by simp
qed

lemma deq_first: "items q = x # xs \<Longrightarrow> \<exists>q'. deq q = Some (x, q') \<and> items q' = xs"
proof (cases "deq q")
  case None
  then show "items q = x # xs \<Longrightarrow> ?thesis" by (simp add: deq_empty)
next
  case (Some p)
  obtain y q' where "p = (y, q')" by (cases p)
  then show "items q = x # xs \<Longrightarrow> ?thesis" using Some deq_items by auto
qed

end

interpretation buf: fifo push_back pop_front buffer
  by unfold_locales (auto simp: push_back_def pop_front_def split: list.splits)

section \<open>Processing the buffer\<close>

text \<open>The buffers that \<open>sendRequest\<close> can make: every request is waiting and not empty.\<close>

definition socket_ok :: "socket \<Rightarrow> bool" where
  "socket_ok s \<longleftrightarrow> (\<forall>r\<in>set (buffer s). req_status r = WAITING \<and> payload r \<noteq> [])"

lemma processNext_empty: "buffer s = [] \<Longrightarrow> processNextRequest s = (UNDEFINED, s)"
  using buf.deq_empty[of s] by (simp add: processNextRequest_def)

lemma processNext_waiting:
  assumes "buffer s = r # rs" and "req_status r = WAITING" and "payload r \<noteq> []"
  shows "processNextRequest s = (OK, s\<lparr>buffer := rs, last_status := OK, answer := Some ''OK''\<rparr>)"
  using assms by (simp add: processNextRequest_def pop_front_def forwardTo_def Let_def)

lemma process_loop_drains:
  "socket_ok s \<Longrightarrow> process_loop status s =
     Some (if buffer s = [] then (status, s)
           else (OK, s\<lparr>buffer := [], last_status := OK, answer := Some ''OK''\<rparr>))"
proof (induction "buffer s" arbitrary: s status)
  case Nil
  then show ?case by (subst process_loop.simps) (simp add: processNext_empty)
next
  case (Cons r rs)
  let ?s = "s\<lparr>buffer := rs, last_status := OK, answer := Some ''OK''\<rparr>"
  have r: "processNextRequest s = (OK, ?s)"
    using Cons.hyps(2)[symmetric] Cons.prems by (intro processNext_waiting) (auto simp: socket_ok_def)
  have "socket_ok ?s" using Cons.hyps(2)[symmetric] Cons.prems by (auto simp: socket_ok_def)
  then show ?case using Cons.hyps(1)[of ?s OK] Cons.hyps(2)[symmetric] r
    by (subst process_loop.simps) (auto split: if_splits)
qed

text \<open>The operations keep the form of the buffer; a socket is reached by any of them in any order.\<close>

datatype socket_call = Call_Send c_string | Call_Process | Call_Close | Call_Path c_string

definition socket_step :: "socket_call \<Rightarrow> socket \<Rightarrow> socket option" where
  "socket_step c s = (case c of
       Call_Send r \<Rightarrow> Some (snd (sendRequest r s))
     | Call_Process \<Rightarrow> map_option snd (processRequests s)
     | Call_Close \<Rightarrow> Some (fst (snd (close s)))
     | Call_Path p \<Rightarrow> Some (snd (setSocketPath p s)))"

lemma socket_step_ok:
  assumes "socket_ok s"
  shows "\<exists>s'. socket_step c s = Some s' \<and> socket_ok s'"
proof (cases c)
  case Call_Process
  then show ?thesis using assms process_loop_drains[OF assms, of ERR]
    by (auto simp: socket_step_def processRequests_def socket_ok_def)
qed (use assms in \<open>auto simp: socket_step_def socket_ok_def sendRequest_def enqueueRequest_def push_back_def
      new_request_def close_def setSocketPath_def split: option.splits\<close>)

text \<open>C35. Whatever was called on a new socket before, \<open>processRequests\<close> returns, leaves the buffer empty,
  and reports \<open>OK\<close> when there was anything to process and \<open>ERR\<close> when there was not.\<close>

theorem processRequests_drains:
  "\<exists>s s'. foldM socket_step calls (new_socket fd path) = Some s
     \<and> processRequests s = Some (if buffer s = [] then ERR else OK, s') \<and> buffer s' = []"
proof -
  have "socket_ok (new_socket fd path)" by (simp add: socket_ok_def new_socket_def)
  from foldM_total[where f = socket_step and invar = socket_ok, OF socket_step_ok this] obtain s where
    s: "foldM socket_step calls (new_socket fd path) = Some s" "socket_ok s" by blast
  show ?thesis using s(1) process_loop_drains[OF s(2), of ERR]
    by (auto simp: processRequests_def intro: exI[of _ s])
qed

text \<open>The loop depends on that form: on a buffer whose first request is not waiting it never ends.\<close>

lemma processRequests_spins:
  assumes "buffer s = r # rs" and "req_status r \<noteq> WAITING"
  shows "processRequests s = None"
proof -
  have nx: "processNextRequest s = (ERR, s)"
    using assms by (simp add: processNextRequest_def pop_front_def)
  have "t = s \<longrightarrow> False" if "process_loop status t = Some x" for status t x
  proof (rule process_loop.raw_induct[where P = "\<lambda>status t x. t = s \<longrightarrow> False", OF _ that], intro impI)
    fix loop status t x
    assume IH: "\<And>status t x. loop status t = Some x \<Longrightarrow> t = s \<longrightarrow> False"
      and eq: "(case processNextRequest t of (next_stat, s') \<Rightarrow>
          if next_stat = UNDEFINED then Some (status, s') else loop next_stat s') = Some x" and t: "t = s"
    have "loop ERR s = Some x" using eq t nx by simp
    then show False using IH by blast
  qed
  then show ?thesis unfolding processRequests_def by (cases "process_loop ERR s") auto
qed

lemma processRequests_spins_example:
  "processRequests ((new_socket 3 None)\<lparr>buffer := [\<lparr>payload = ''x'', req_status = OK\<rparr>]\<rparr>) = None"
  by (rule processRequests_spins[of _ "\<lparr>payload = ''x'', req_status = OK\<rparr>" "[]"]) simp_all

section \<open>Order and descriptors\<close>

text \<open>Requests sent to a new socket stand in the buffer in the order they were sent, those that are
  null or empty left out, and each is rejected exactly then.\<close>

lemma requests_in_order:
  "map payload (buffer (fold (\<lambda>r s. snd (sendRequest r s)) rs (new_socket fd path)))
     = filter (\<lambda>p. p \<noteq> []) (map the (filter (\<lambda>r. r \<noteq> None) rs))
   \<and> (fst (sendRequest r s) = ERR \<longleftrightarrow> r = None \<or> r = Some [])"
proof
  have "map payload (buffer (fold (\<lambda>r s. snd (sendRequest r s)) rs s))
      = map payload (buffer s) @ filter (\<lambda>p. p \<noteq> []) (map the (filter (\<lambda>r. r \<noteq> None) rs))" for s
  proof (induction rs arbitrary: s)
    case (Cons r rs)
    have "map payload (buffer (snd (sendRequest r s)))
        = map payload (buffer s) @ (case r of None \<Rightarrow> [] | Some p \<Rightarrow> if p = [] then [] else [p])"
      using buf.items_enq by (auto simp: sendRequest_def enqueueRequest_def new_request_def split: option.split)
    then show ?case using Cons.IH by (auto split: option.split)
  qed simp
  from this[of "new_socket fd path"]
  show "map payload (buffer (fold (\<lambda>r s. snd (sendRequest r s)) rs (new_socket fd path)))
      = filter (\<lambda>p. p \<noteq> []) (map the (filter (\<lambda>r. r \<noteq> None) rs))" by (simp add: new_socket_def)
  show "fst (sendRequest r s) = ERR \<longleftrightarrow> r = None \<or> r = Some []"
    by (auto simp: sendRequest_def enqueueRequest_def split: option.split)
qed

text \<open>However often a socket is closed before it is destroyed, its descriptors are closed once each, and
  the path is unlinked once, at the end.\<close>

lemma descriptors_closed_once:
  "concat (map (\<lambda>k. close_fds (((\<lambda>s. fst (snd (close s))) ^^ k) s)) [0..<n])
     @ destroy (((\<lambda>s. fst (snd (close s))) ^^ n) s)
   = close_fds s @ (case socket_path s of None \<Rightarrow> [] | Some p \<Rightarrow> [Unlink_Path p])"
proof -
  let ?c = "\<lambda>s. fst (snd (close s))"
  have path: "socket_path ((?c ^^ k) s) = socket_path s" for k
    by (induction k) (simp_all add: close_def)
  have closed: "close_fds ((?c ^^ Suc k) s) = []" for k
    by (simp add: close_def close_fds_def)
  have "concat (map (\<lambda>k. close_fds ((?c ^^ k) s)) [0..<n]) @ close_fds ((?c ^^ n) s) = close_fds s"
  proof (induction n)
    case (Suc n)
    then show ?case using closed[of n] by simp
  qed simp
  then show ?thesis by (simp add: destroy_def path flip: append_assoc)
qed

end
