(* ===== verification/Configuration.thy ===== *)
theory Configuration
  imports Sync_Steps
begin

text \<open>
  \<^verbatim>\<open>net/sync.cpp\<close>, the part before \<open>main\<close>: the name of a task state, and the configuration read
  from the environment. \<open>std::getenv\<close> is the parameter \<open>env\<close>; a value has no zero character.
\<close>

section \<open>Reading the environment\<close>

fun task_state_name :: "task_state \<Rightarrow> string" where
  "task_state_name Pending = ''PENDING''"
| "task_state_name InProgress = ''IN_PROGRESS''"
| "task_state_name Completed = ''COMPLETED''"
| "task_state_name Failed = ''FAILED''"
| "task_state_name Retry = ''RETRY''"
| "task_state_name Cancelled = ''CANCELLED''"

type_synonym environment = "string \<Rightarrow> string option"

text \<open>
  The number a value stands for, \<open>None\<close> when it is rejected: the part that
  \<open>set_unsigned_from_environment\<close> and the reading of the threshold have in common.
\<close>

definition parse_number :: "string \<Rightarrow> u64 option" where
  "parse_number text0 =
     (let raw = dropWhile isspace text0 in
      if raw = [] \<or> hd raw = CHR ''-'' then None
      else (case stoull raw of
          Inl e \<Rightarrow> None
        | Inr (parsed, pos) \<Rightarrow> if list_all isspace (drop pos raw) then Some parsed else None))"

text \<open>The return value, \<open>value\<close> and \<open>error\<close> afterwards.\<close>

definition set_unsigned_from_environment ::
  "environment \<Rightarrow> string \<Rightarrow> bool \<Rightarrow> u32 \<times> string \<Rightarrow> bool \<times> u32 \<times> string" where
  "set_unsigned_from_environment env name allow_zero = (\<lambda>(v, error).
     (case env name of
        None \<Rightarrow> (True, v, error)
      | Some raw \<Rightarrow> (case parse_number raw of
            None \<Rightarrow> (False, v, ''Invalid '' @ name)
          | Some parsed \<Rightarrow> if (\<not> allow_zero \<and> parsed = 0) \<or> parsed > 4294967295
                           then (False, v, ''Invalid '' @ name)
                           else (True, ucast parsed, error))))"

text \<open>
  \<open>load_configuration\<close> is a sequence of readings, each of which may end it: the return value,
  the configuration and \<open>error\<close>. A failure leaves the values read before it in place. A reading
  goes straight into a field, or into a field unless it is zero.
\<close>

type_synonym reading = "sync_config \<times> string \<Rightarrow> bool \<times> sync_config \<times> string"

definition and_then :: "reading \<Rightarrow> reading \<Rightarrow> reading" where
  "and_then f g s = (case f s of (ok, s1) \<Rightarrow> if ok then g s1 else (False, s1))"

definition read_field ::
  "environment \<Rightarrow> string \<Rightarrow> bool \<Rightarrow> (sync_config \<Rightarrow> u32) \<Rightarrow> (u32 \<Rightarrow> sync_config \<Rightarrow> sync_config) \<Rightarrow> reading" where
  "read_field env name allow_zero field set_field = (\<lambda>(c, error).
     case set_unsigned_from_environment env name allow_zero (field c, error) of
       (ok, v, error1) \<Rightarrow> (ok, set_field v c, error1))"

definition read_unless_zero ::
  "environment \<Rightarrow> string \<Rightarrow> bool \<Rightarrow> (u32 \<Rightarrow> sync_config \<Rightarrow> sync_config) \<Rightarrow> reading" where
  "read_unless_zero env name allow_zero set_field = (\<lambda>(c, error).
     case set_unsigned_from_environment env name allow_zero (0, error) of
       (ok, v, error1) \<Rightarrow> (ok, if ok \<and> v \<noteq> 0 then set_field v c else c, error1))"

definition read_user_agent :: "environment \<Rightarrow> reading" where
  "read_user_agent env = (\<lambda>(c, error).
     (True, case env ''CLSYNC_USER_AGENT'' of None \<Rightarrow> c | Some ua \<Rightarrow> c\<lparr>cfg_user_agent := ua\<rparr>, error))"

definition read_threshold :: "environment \<Rightarrow> reading" where
  "read_threshold env = (\<lambda>(c, error). case env ''CLSYNC_LARGE_FILE_THRESHOLD'' of
       None \<Rightarrow> (True, c, error)
     | Some threshold \<Rightarrow> (case parse_number threshold of
           None \<Rightarrow> (False, c, ''Invalid CLSYNC_LARGE_FILE_THRESHOLD'')
         | Some parsed \<Rightarrow> (True, c\<lparr>large_file_threshold := parsed\<rparr>, error)))"

definition load_configuration :: "environment \<Rightarrow> reading" where
  "load_configuration env =
     and_then (read_user_agent env)
    (and_then (read_field env ''CLSYNC_SMALL_WORKERS'' False small_file_workers (\<lambda>v c. c\<lparr>small_file_workers := v\<rparr>))
    (and_then (read_field env ''CLSYNC_LARGE_WORKERS'' False large_file_workers (\<lambda>v c. c\<lparr>large_file_workers := v\<rparr>))
    (and_then (read_field env ''CLSYNC_MAX_RETRIES'' True max_retries (\<lambda>v c. c\<lparr>max_retries := v\<rparr>))
    (and_then (read_unless_zero env ''CLSYNC_TIMEOUT_MS'' False (\<lambda>v c. c\<lparr>network_timeout_ms := uint v\<rparr>))
    (and_then (read_unless_zero env ''CLSYNC_RETRY_DELAY_MS'' True (\<lambda>v c. c\<lparr>retry_delay := uint v\<rparr>))
    (and_then (read_unless_zero env ''CLSYNC_MONITOR_INTERVAL_MS'' False (\<lambda>v c. c\<lparr>monitor_interval := uint v\<rparr>))
              (read_threshold env)))))))"

section \<open>Which values are accepted\<close>

text \<open>White space, a plus sign or nothing, digits, white space; and the number the digits stand for.\<close>

definition number_text :: "string \<Rightarrow> nat \<Rightarrow> bool" where
  "number_text s n \<longleftrightarrow> (\<exists>sp sg ds sp'. s = sp @ sg @ ds @ sp' \<and> list_all isspace sp \<and> list_all isspace sp'
     \<and> (sg = [] \<or> sg = ''+'') \<and> ds \<noteq> [] \<and> list_all isdigit ds \<and> n = digits_value ds)"

lemma digit_facts: "isdigit c \<Longrightarrow> \<not> isspace c \<and> c \<noteq> CHR ''-'' \<and> c \<noteq> CHR ''+''"
  using isspace_not_digit by (auto simp: isdigit_def)

lemma takeWhile_digits:
  "list_all isdigit ds \<Longrightarrow> list_all isspace sp \<Longrightarrow> takeWhile isdigit (ds @ sp) = ds"
  by (induction ds) (auto simp: takeWhile_eq_Nil_iff isspace_not_digit list_all_iff hd_in_set)

lemma stoull_number:
  assumes "sg = [] \<or> sg = ''+''" and "ds \<noteq> []" and "list_all isdigit ds" and "list_all isspace sp"
  shows "stoull (sg @ ds @ sp) = (if digits_value ds \<ge> 2 ^ 64 then Inl Out_Of_Range
     else Inr (of_nat (digits_value ds), length sg + length ds))"
proof -
  obtain d ds' where ds: "ds = d # ds'" "isdigit d" using assms(2,3) by (cases ds) auto
  have tw: "takeWhile isdigit (ds @ sp) = ds" by (rule takeWhile_digits[OF assms(3,4)])
  have "\<not> isspace CHR ''+''" by (simp add: isspace_def)
  then show ?thesis using assms(1) digit_facts[OF ds(2)] tw ds(1) by (auto simp: stoull_def Let_def)
qed

lemma stoull_numberD:
  assumes "stoull s = Inr (v, pos)" and "s \<noteq> []" and "\<not> isspace (hd s)" and "hd s \<noteq> CHR ''-''"
  obtains sg ds rest where "s = sg @ ds @ rest" "sg = [] \<or> sg = ''+''" "ds \<noteq> []" "list_all isdigit ds"
    "digits_value ds < 2 ^ 64" "v = of_nat (digits_value ds)" "pos = length sg + length ds"
proof -
  define sg where "sg = (if hd s = CHR ''+'' then ''+'' else [])"
  define r where "r = (if hd s = CHR ''+'' then tl s else s)"
  have s: "s = sg @ r" using assms(2) by (cases s) (auto simp: sg_def r_def)
  have sp: "takeWhile isspace s = []" "dropWhile isspace s = s" using assms(2,3) by (cases s; simp)+
  let ?ds = "takeWhile isdigit r"
  have "?ds \<noteq> [] \<and> digits_value ?ds < 2 ^ 64 \<and> v = of_nat (digits_value ?ds) \<and> pos = length sg + length ?ds"
    using assms(1,2,4) sp by (auto simp: stoull_def Let_def sg_def r_def split: if_splits)
  moreover have "s = sg @ ?ds @ dropWhile isdigit r" using s by simp
  moreover have "list_all isdigit ?ds" by (auto simp: list_all_iff dest: set_takeWhileD)
  moreover have "sg = [] \<or> sg = ''+''" by (simp add: sg_def)
  ultimately show thesis by (intro that[of sg ?ds "dropWhile isdigit r"]) blast+
qed

lemma parse_number_iff:
  "parse_number s = Some v \<longleftrightarrow> (\<exists>n. number_text s n \<and> n < 2 ^ 64 \<and> v = of_nat n)"
proof
  assume p: "parse_number s = Some v"
  let ?raw = "dropWhile isspace s"
  obtain pos where raw: "?raw \<noteq> []" "hd ?raw \<noteq> CHR ''-''" "stoull ?raw = Inr (v, pos)" "list_all isspace (drop pos ?raw)"
    using p by (auto simp: parse_number_def Let_def split: if_splits sum.splits)
  obtain sg ds rest where r: "?raw = sg @ ds @ rest" "sg = [] \<or> sg = ''+''" "ds \<noteq> []" "list_all isdigit ds"
    "digits_value ds < 2 ^ 64" "v = of_nat (digits_value ds)" "pos = length sg + length ds"
    by (rule stoull_numberD[OF raw(3,1) _ raw(2)]) (use hd_dropWhile[OF raw(1)] in auto)
  have "list_all isspace rest" using raw(4) r(1,7) by simp
  moreover have "s = takeWhile isspace s @ sg @ ds @ rest" using r(1) by (metis takeWhile_dropWhile_id)
  moreover have "list_all isspace (takeWhile isspace s)" by (auto simp: list_all_iff dest: set_takeWhileD)
  ultimately have "number_text s (digits_value ds)" using r(2-4) unfolding number_text_def by blast
  then show "\<exists>n. number_text s n \<and> n < 2 ^ 64 \<and> v = of_nat n" using r(5,6) by blast
next
  assume "\<exists>n. number_text s n \<and> n < 2 ^ 64 \<and> v = of_nat n"
  then obtain sp sg ds sp' where s: "s = sp @ sg @ ds @ sp'" "list_all isspace sp" "list_all isspace sp'"
    "sg = [] \<or> sg = ''+''" "ds \<noteq> []" "list_all isdigit ds" "digits_value ds < 2 ^ 64" "v = of_nat (digits_value ds)"
    by (auto simp: number_text_def)
  obtain d ds' where ds: "ds = d # ds'" "isdigit d" using s(5,6) by (cases ds) auto
  have h: "\<not> isspace (hd (sg @ ds))" "hd (sg @ ds) \<noteq> CHR ''-''"
    using s(4) ds digit_facts[OF ds(2)] by (auto simp: isspace_def)
  have "dropWhile isspace (sp @ sg @ ds @ sp') = sg @ ds @ sp'"
    using s(2,4) h ds by (auto simp: dropWhile_append list_all_iff)
  then show "parse_number s = Some v"
    using s h stoull_number[OF s(4,5,6,3)] by (auto simp: parse_number_def Let_def)
qed

text \<open>C34. A setting is accepted exactly when it is a decimal number, with white space around it and a plus sign
  in front if you like, that fits into 32 bits and is not zero where zero is not allowed; then it
  is read as that number. Every other text is reported and leaves the value alone.\<close>

theorem set_unsigned_exact:
  assumes "env name = Some s"
  shows "(set_unsigned_from_environment env name allow_zero (v, error) = (True, x, e) \<longleftrightarrow>
      e = error \<and> (\<exists>n. number_text s n \<and> n < 2 ^ 32 \<and> (n \<noteq> 0 \<or> allow_zero) \<and> x = of_nat n))
    \<and> (fst (set_unsigned_from_environment env name allow_zero (v, error))
       \<or> snd (set_unsigned_from_environment env name allow_zero (v, error)) = (v, ''Invalid '' @ name))"
proof -
  have uu: "unat (of_nat n :: u64) = n" if "n < 2 ^ 64" for n using that by (simp add: unat_of_nat)
  have small: "(of_nat n :: u64) > 4294967295 \<longleftrightarrow> n \<ge> 2 ^ 32" "(of_nat n :: u64) = 0 \<longleftrightarrow> n = 0"
    "(ucast (of_nat n :: u64) :: u32) = of_nat n" if "n < 2 ^ 64" for n
  proof -
    have u: "unat (of_nat n :: u64) = n" using that by (simp add: unat_of_nat)
    then show "(of_nat n :: u64) > 4294967295 \<longleftrightarrow> n \<ge> 2 ^ 32" by (simp add: word_less_nat_alt) linarith
    show "(of_nat n :: u64) = 0 \<longleftrightarrow> n = 0" using u by auto
    show "(ucast (of_nat n :: u64) :: u32) = of_nat n"
      by (rule bit_word_eqI) (simp add: bit_simps)
  qed
  show ?thesis
  proof (cases "parse_number s")
    case None
    then have "\<not> (number_text s n \<and> n < 2 ^ 64)" for n using parse_number_iff[of s] by auto
    then show ?thesis using assms None by (fastforce simp: set_unsigned_from_environment_def)
  next
    case (Some p)
    then obtain m where m: "number_text s m" "m < 2 ^ 64" "p = of_nat m" using parse_number_iff[of s p] by blast
    have uniq: "n = m" if "number_text s n" "n < 2 ^ 64" for n
    proof -
      have "parse_number s = Some (of_nat n)" using that parse_number_iff by blast
      then have "(of_nat n :: u64) = of_nat m" using Some m(3) by simp
      then show ?thesis using that(2) m(2) uu by metis
    qed
    have ex: "(\<exists>n. number_text s n \<and> n < 2 ^ 32 \<and> (n \<noteq> 0 \<or> allow_zero) \<and> x = of_nat n)
        \<longleftrightarrow> m < 2 ^ 32 \<and> (m \<noteq> 0 \<or> allow_zero) \<and> x = of_nat m"
    proof -
      have "n = m" if "number_text s n" "n < 2 ^ 32" for n using that uniq[of n] by simp
      then show ?thesis using m(1) by blast
    qed
    have "set_unsigned_from_environment env name allow_zero (v, error) =
        (if (\<not> allow_zero \<and> m = 0) \<or> m \<ge> 2 ^ 32 then (False, v, ''Invalid '' @ name) else (True, of_nat m, error))"
      using assms Some small[OF m(2)] unfolding m(3) by (simp add: set_unsigned_from_environment_def)
    then show ?thesis unfolding ex by auto
  qed
qed


theorem set_unsigned_exact_witness:
  "set_unsigned_from_environment (\<lambda>name. Some '' +12 '') ''X'' False (7, []) = (True, 12, [])"
proof -
  have "number_text '' +12 '' 12"
    unfolding number_text_def
    by (rule exI[of _ "'' ''"], rule exI[of _ "''+''"], rule exI[of _ "''12''"], rule exI[of _ "'' ''"]) code_simp
  then show ?thesis
    using set_unsigned_exact[of "\<lambda>name. Some '' +12 ''" "''X''" "'' +12 ''" False 7 "[]" 12 "[]"] by auto
qed

section \<open>Loading\<close>

lemma ucast_nonzero:
  fixes p :: u64
  assumes "p \<noteq> 0" and "p \<le> 4294967295"
  shows "(ucast p :: u32) \<noteq> 0"
proof -
  have "unat p \<noteq> 0" "unat p < 2 ^ 32" using assms by (auto simp: word_le_nat_alt unat_eq_0)
  then have "unat (ucast p :: u32) \<noteq> 0" by (simp add: unsigned_ucast_eq take_bit_eq_mod)
  then show ?thesis by auto
qed

lemma set_unsigned_nonzero:
  assumes "set_unsigned_from_environment env name False (v, error) = (True, x, e)"
  shows "env name = None \<and> x = v \<or> x \<noteq> 0"
  using assms ucast_nonzero
  by (auto simp: set_unsigned_from_environment_def not_less split: option.splits if_splits)

text \<open>What every reading keeps the whole sequence keeps.\<close>

definition keeps :: "(sync_config \<Rightarrow> bool) \<Rightarrow> reading \<Rightarrow> bool" where
  "keeps P f \<longleftrightarrow> (\<forall>c error cfg e. P c \<longrightarrow> f (c, error) = (True, cfg, e) \<longrightarrow> P cfg)"

lemma keeps_and_then [inv_intros]: "keeps P f \<Longrightarrow> keeps P g \<Longrightarrow> keeps P (and_then f g)"
  unfolding keeps_def
proof (intro allI impI)
  fix c error cfg e
  assume f: "\<forall>c error cfg e. P c \<longrightarrow> f (c, error) = (True, cfg, e) \<longrightarrow> P cfg"
    and g: "\<forall>c error cfg e. P c \<longrightarrow> g (c, error) = (True, cfg, e) \<longrightarrow> P cfg"
    and P: "P c" and r: "and_then f g (c, error) = (True, cfg, e)"
  obtain ok c1 e1 where fc: "f (c, error) = (ok, c1, e1)" by (rule prod_cases3)
  then have ok: "f (c, error) = (True, c1, e1)" "g (c1, e1) = (True, cfg, e)"
    using r by (auto simp: and_then_def split: if_splits)
  have "P c1" using f P ok(1) by fast
  then show "P cfg" using g ok(2) by fast
qed

text \<open>A configuration that \<open>start\<close> does not reject before it looks at the disk.\<close>

definition startable :: "path \<Rightarrow> sync_config \<Rightarrow> bool" where
  "startable root c \<longleftrightarrow> local_root c = root \<and> health_url c \<noteq> [] \<and> small_file_workers c \<noteq> 0
     \<and> large_file_workers c \<noteq> 0 \<and> network_timeout_ms c > 0"

lemma keeps_read_field:
  assumes "\<And>c x. P c \<Longrightarrow> x = field c \<or> x \<noteq> 0 \<Longrightarrow> P (set_field x c)"
  shows "keeps P (read_field env name False field set_field)"
  unfolding keeps_def
proof (intro allI impI)
  fix c error cfg e
  assume P: "P c" and r: "read_field env name False field set_field (c, error) = (True, cfg, e)"
  then obtain x where x: "set_unsigned_from_environment env name False (field c, error) = (True, x, e)" "cfg = set_field x c"
    by (auto simp: read_field_def split: prod.splits)
  from set_unsigned_nonzero[OF x(1)] assms[OF P, of x] x(2) show "P cfg" by blast
qed

lemma keeps_read_unless_zero:
  assumes "\<And>c x. P c \<Longrightarrow> x \<noteq> 0 \<Longrightarrow> P (set_field x c)"
  shows "keeps P (read_unless_zero env name allow_zero set_field)"
  using assms by (auto simp: keeps_def read_unless_zero_def split: prod.splits if_splits)

lemma keeps_startable:
  "keeps (startable root) (read_user_agent env)" "keeps (startable root) (read_threshold env)"
  "keeps (startable root) (read_field env name True max_retries (\<lambda>v c. c\<lparr>max_retries := v\<rparr>))"
  by (auto simp: keeps_def startable_def read_user_agent_def read_threshold_def read_field_def
      split: prod.splits option.splits)

lemma load_keeps_startable: "keeps (startable root) (load_configuration env)"
proof -
  have pos: "tm \<noteq> 0 \<Longrightarrow> uint tm > 0" for tm :: u32 by (simp add: word_neq_0_conv word_less_def)
  show ?thesis unfolding load_configuration_def
    by (intro keeps_and_then keeps_startable keeps_read_field keeps_read_unless_zero)
       (auto simp: startable_def pos)
qed

text \<open>A configuration that was loaded successfully on top of the defaults is one that \<open>start\<close> accepts: with a
  root and a health URL given, starting fails only when the root directory cannot be created.\<close>

lemma loaded_configuration_starts:
  assumes "load_configuration env (default_config\<lparr>local_root := root, health_url := url\<rparr>, error) = (True, cfg, e)"
    and "\<not> path_empty root" and "url \<noteq> []"
  shows "fst (start lc os fs error' (new_manager cfg)) \<longleftrightarrow> fst (create_directories os fs root) = None"
proof -
  have "startable root (default_config\<lparr>local_root := root, health_url := url\<rparr>)"
    using assms(3) by (simp add: startable_def default_config_def)
  then have "startable root cfg" using load_keeps_startable assms(1) unfolding keeps_def by blast
  then show ?thesis using assms(2)
    by (auto simp: start_def startable_def new_manager_def Let_def split: prod.splits option.splits)
qed

text \<open>With nothing set in the environment the configuration stays as it is; and a retry delay of zero is
  accepted but has no effect.\<close>

lemma load_defaults:
  "load_configuration (\<lambda>name. None) (c, error) = (True, c, error)
   \<and> load_configuration (\<lambda>name. if name = ''CLSYNC_RETRY_DELAY_MS'' then Some ''0'' else None) (c, error) = (True, c, error)"
proof -
  have "number_text ''0'' 0"
    unfolding number_text_def
    by (rule exI[of _ "[]"], rule exI[of _ "[]"], rule exI[of _ "''0''"], rule exI[of _ "[]"]) code_simp
  then have zero: "parse_number ''0'' = Some 0" using parse_number_iff[of "''0''" 0] by auto
  have unset: "read_field env name z field set_field (c, error) = (True, set_field (field c) c, error)"
    "read_unless_zero env name z set_field (c, error) = (True, c, error)" if "env name = None"
    for env name z field set_field
    using that by (simp_all add: read_field_def read_unless_zero_def set_unsigned_from_environment_def)
  have "read_unless_zero env name True set_field (c, error) = (True, c, error)" if "env name = Some ''0''"
    for env name set_field
    using that zero by (simp add: read_unless_zero_def set_unsigned_from_environment_def)
  then show ?thesis
    by (simp add: load_configuration_def and_then_def read_user_agent_def read_threshold_def unset)
qed

lemma loaded_configuration_starts_example:
  "fst (start (\<lparr>init_ok = True, transfer = (\<lambda>n req. \<lparr>reply_chunks = [], reply_code = 0, reply_status = 200\<rparr>),
            strerror = (\<lambda>code. [])\<rparr>)
          \<lparr>cwd = [], refuse = (\<lambda>c p fs. None), write_fault = (\<lambda>p a b. False), close_keeps = (\<lambda>p b. None),
           read_fault = (\<lambda>p b. None)\<rparr>
          (\<lambda>x. if x = [] then Some Dir else None) []
          (new_manager (default_config\<lparr>local_root := path_of ''/s'', health_url := ''u''\<rparr>)))"
proof -
  let ?c = "default_config\<lparr>local_root := path_of ''/s'', health_url := ''u''\<rparr>"
  let ?os = "\<lparr>cwd = [], refuse = (\<lambda>c p fs. None), write_fault = (\<lambda>p a b. False), close_keeps = (\<lambda>p b. None),
           read_fault = (\<lambda>p b. None)\<rparr>"
  have l: "load_configuration (\<lambda>name. None) (?c, []) = (True, ?c, [])"
    by (simp add: load_configuration_def and_then_def read_user_agent_def read_threshold_def read_field_def
        read_unless_zero_def set_unsigned_from_environment_def)
  have "\<not> path_empty (path_of ''/s'')" "fst (create_directories ?os (\<lambda>x. if x = [] then Some Dir else None) (path_of ''/s'')) = None"
    by code_simp+
  with loaded_configuration_starts[OF l] show ?thesis by simp
qed

end
