(* ===== verification/Program.thy ===== *)
theory Program
  imports Provenance Reborn Configuration "HOL-Library.Multiset"
begin

text \<open>
  \<^verbatim>\<open>net/sync.cpp\<close>, the function \<open>main\<close>: the manager, the socket and the callback put together.
  The callback runs in the thread that changed a result, after that thread has left the lock
  of the manager, and takes a second lock, \<open>ipc_mutex\<close>. So a thread here has a list of calls it
  still has to make; it does nothing else before it has made them. Only \<open>main\<close> keeps
  \<open>ipc_mutex\<close> over several steps.
\<close>

section \<open>Threads\<close>

datatype thread = Worker_Thread nat | Monitor_Thread

text \<open>
  Where \<open>main\<close> is: before \<open>SYNC READY\<close>; at the commands still to be given, with the variable
  \<open>error\<close>; where a command was refused; in \<open>wait_for_idle\<close>; at the loop over the results; at the
  last block, with \<open>succeeded\<close>; before and inside a call of \<open>stop\<close>, with the place to go on
  from; at the last \<open>processRequests\<close>; and at the end, with the exit code.
\<close>

datatype main_pc =
    M_Ready "string list" string
  | M_Commands "string list" string
  | M_Failed
  | M_Wait
  | M_Collect bool
  | M_Finish bool
  | M_Stop main_pc
  | M_Stopping main_pc
  | M_Drain bool
  | M_Exit int

record program =
  wld :: world
  owed :: "thread \<Rightarrow> sync_result list"
  ipc_held :: bool
  sock :: socket
  main_pc :: main_pc

section \<open>The callback\<close>

definition callback_message :: "sync_result \<Rightarrow> string" where
  "callback_message r = ''SYNC '' @ task_id (res_task r) @ '' '' @ task_state_name (res_state r)
     @ '' attempts='' @ to_string (unat (res_attempts r))"

definition send :: "string \<Rightarrow> program \<Rightarrow> program" where
  "send message p = p\<lparr>sock := snd (sendRequest (c_str message) (sock p))\<rparr>"

definition callback_step :: "thread \<Rightarrow> program \<Rightarrow> program option" where
  "callback_step t p = (case owed p t of
       [] \<Rightarrow> None
     | r # rs \<Rightarrow> if ipc_held p then None
                else Some (send (callback_message r) (p\<lparr>owed := (owed p)(t := rs)\<rparr>)))"

section \<open>Workers and monitor\<close>

text \<open>The calls that a step of the manager adds to the list of calls made by then.\<close>

definition new_calls :: "world \<Rightarrow> world \<Rightarrow> sync_result list" where
  "new_calls w w' = drop (length (notified (mgr w))) (notified (mgr w'))"

definition thread_moves :: "thread \<Rightarrow> (world \<Rightarrow> world option) \<Rightarrow> program \<Rightarrow> program option" where
  "thread_moves t f p = (if owed p t \<noteq> [] then None
     else map_option (\<lambda>w'. p\<lparr>wld := w', owed := (owed p)(t := new_calls (wld p) w')\<rparr>) (f (wld p)))"

definition worker_moves :: "libcurl \<Rightarrow> os \<Rightarrow> int \<Rightarrow> nat \<Rightarrow> program \<Rightarrow> program option" where
  "worker_moves lc os now i = thread_moves (Worker_Thread i) (worker_step lc os now i)"

definition monitor_moves :: "libcurl \<Rightarrow> program \<Rightarrow> program option" where
  "monitor_moves lc = thread_moves Monitor_Thread (monitor_step lc)"

section \<open>The main thread\<close>

text \<open>Before any thread runs: the exit code and the disk, or the program with its threads.\<close>

definition main_begin ::
  "libcurl \<Rightarrow> os \<Rightarrow> environment \<Rightarrow> int \<Rightarrow> fs \<Rightarrow> string list \<Rightarrow> int \<times> fs + program" where
  "main_begin lc os env fd fs argv =
     (if length argv < 4 then Inl (2, fs)
      else case load_configuration env
          (default_config\<lparr>local_root := path_of (argv ! 1), health_url := argv ! 2\<rparr>, []) of
        (ok, cfg, error) \<Rightarrow>
          if \<not> ok then Inl (2, fs)
          else let s = new_socket fd (Some (case env ''CLSYNC_SOCKET_PATH'' of
                         Some p \<Rightarrow> p | None \<Rightarrow> ''clsync.sock''))
               in if \<not> socket_bool s then Inl (1, fs)
                  else (case start lc os fs error (set_result_callback True (new_manager cfg)) of
                      (ok, error', m, fs') \<Rightarrow>
                        if \<not> ok then Inl (1, fs')
                        else Inr \<lparr>wld = \<lparr>mgr = m, disk = fs', control = Ready, crashed = False\<rparr>,
                               owed = (\<lambda>t. []), ipc_held = False, sock = s,
                               main_pc = M_Ready (drop 3 argv) error'\<rparr>))"

text \<open>
  \<open>wait_for_idle\<close> ends when its condition holds or after five minutes, and looks at the
  condition once more in that case; \<open>timed_out\<close> says that the time is over.
\<close>

definition main_step :: "libcurl \<Rightarrow> os \<Rightarrow> int \<Rightarrow> bool \<Rightarrow> program \<Rightarrow> program option" where
  "main_step lc os now timed_out p = (let w = wld p; m = mgr w in
     (case main_pc p of
        M_Ready cmds error \<Rightarrow> Some (send ''SYNC READY'' (p\<lparr>main_pc := M_Commands cmds error\<rparr>))
      | M_Commands [] error \<Rightarrow> Some (p\<lparr>main_pc := M_Wait\<rparr>)
      | M_Commands (c # cmds) error \<Rightarrow>
          (case enqueue_ipc_command os (disk w) now c error m of
             (Ipc_Return ok error', m') \<Rightarrow>
               Some (p\<lparr>wld := w\<lparr>mgr := m'\<rparr>, main_pc := if ok then M_Commands cmds error' else M_Failed\<rparr>)
           | (Ipc_Stop, m') \<Rightarrow>
               Some (p\<lparr>wld := begin_stop w, main_pc := M_Stopping (M_Commands cmds error)\<rparr>))
      | M_Failed \<Rightarrow> map_option (\<lambda>(st, s). p\<lparr>sock := s, main_pc := M_Stop (M_Exit 1)\<rparr>)
          (processRequests (sock (send ''SYNC ERROR'' p)))
      | M_Wait \<Rightarrow> if idle_condition m \<or> timed_out
                 then Some (p\<lparr>main_pc := M_Collect (wait_for_idle_result m)\<rparr>) else None
      | M_Collect completed \<Rightarrow> Some (p\<lparr>main_pc :=
          M_Finish (completed \<and> list_all (\<lambda>r. res_state r = Completed) (all_results m))\<rparr>)
      | M_Finish succeeded \<Rightarrow> Some (send (if succeeded then ''SYNC COMPLETED'' else ''SYNC FAILED'')
          (p\<lparr>ipc_held := True, main_pc := M_Stop (M_Drain succeeded)\<rparr>))
      | M_Stop k \<Rightarrow> Some (p\<lparr>wld := begin_stop w, main_pc := M_Stopping k\<rparr>)
      | M_Stopping k \<Rightarrow> if control w = Ready then Some (p\<lparr>main_pc := k\<rparr>)
                        else map_option (\<lambda>w'. p\<lparr>wld := w'\<rparr>) (control_step lc os Call_Stop w)
      | M_Drain succeeded \<Rightarrow> map_option
          (\<lambda>(st, s). p\<lparr>sock := s, ipc_held := False, main_pc := M_Exit (if succeeded then 0 else 1)\<rparr>)
          (processRequests (sock p))
      | M_Exit code \<Rightarrow> None))"

text \<open>When \<open>main\<close> returns the process ends.\<close>

definition running :: "program \<Rightarrow> bool" where
  "running p \<longleftrightarrow> \<not> crashed (wld p) \<and> (\<forall>code. main_pc p \<noteq> M_Exit code)"

inductive program_step :: "libcurl \<Rightarrow> os \<Rightarrow> program \<Rightarrow> program \<Rightarrow> bool" for lc os where
  main: "running p \<Longrightarrow> main_step lc os now timed_out p = Some p' \<Longrightarrow> program_step lc os p p'"
| worker: "running p \<Longrightarrow> worker_moves lc os now i p = Some p' \<Longrightarrow> program_step lc os p p'"
| monitor: "running p \<Longrightarrow> monitor_moves lc p = Some p' \<Longrightarrow> program_step lc os p p'"
| callback: "running p \<Longrightarrow> callback_step t p = Some p' \<Longrightarrow> program_step lc os p p'"
| other_program: "running p \<Longrightarrow> program_step lc os p (p\<lparr>wld := (wld p)\<lparr>disk := fs\<rparr>\<rparr>)"

definition program_start :: "libcurl \<Rightarrow> os \<Rightarrow> environment \<Rightarrow> int \<Rightarrow> fs \<Rightarrow> string list \<Rightarrow> program \<Rightarrow> bool" where
  "program_start lc os env fd fs argv p \<longleftrightarrow> main_begin lc os env fd fs argv = Inr p"

section \<open>The program and the manager\<close>

text \<open>The main thread is the control thread of the manager; it is inside \<open>stop\<close> only where it says so.\<close>

definition base_inv :: "program \<Rightarrow> bool" where
  "base_inv p \<longleftrightarrow> world_inv (wld p) \<and> (control (wld p) \<noteq> Ready \<longrightarrow> (\<exists>k. main_pc p = M_Stopping k))"

lemma send_frame [simp, frame_simps]:
  "wld (send s p) = wld p" "owed (send s p) = owed p" "ipc_held (send s p) = ipc_held p"
  "main_pc (send s p) = main_pc p"
  by (simp_all add: send_def)

text \<open>A step of \<open>main\<close> is none of the manager, or one of its control thread.\<close>

lemma main_step_world:
  assumes "base_inv p" and "main_step lc os now timed_out p = Some p'"
  shows "wld p' = wld p \<or> (\<exists>call. (\<forall>error. call \<noteq> Call_Start error) \<and> control_step lc os call (wld p) = Some (wld p'))"
proof -
  have ready: "control (wld p) = Ready" if "\<And>k. main_pc p \<noteq> M_Stopping k" using assms(1) that by (auto simp: base_inv_def)
  show ?thesis
  proof (cases "main_pc p")
    case (M_Commands cmds error)
    show ?thesis
    proof (cases cmds)
      case Nil
      then show ?thesis using assms(2) M_Commands by (auto simp: main_step_def Let_def)
    next
      case (Cons c rest)
      have "control_step lc os (Call_Command now c error) (wld p) = Some (wld p')"
        using assms(2) M_Commands Cons ready
        by (auto simp: main_step_def control_step_def Let_def split: prod.splits ipc_outcome.splits)
      then show ?thesis by blast
    qed
  next
    case (M_Stop k)
    have "control_step lc os Call_Stop (wld p) = Some (wld p')"
      using assms(2) M_Stop ready by (auto simp: main_step_def control_step_def Let_def)
    then show ?thesis by blast
  next
    case (M_Stopping k)
    then show ?thesis using assms(2) control_call.distinct(5) by (auto simp: main_step_def Let_def split: if_splits)
  qed (use assms(2) in \<open>auto simp: main_step_def Let_def split: if_splits\<close>)
qed

lemma thread_moves_world:
  "thread_moves t f p = Some p' \<Longrightarrow> f (wld p) = Some (wld p') \<and> main_pc p' = main_pc p \<and> sock p' = sock p
     \<and> ipc_held p' = ipc_held p \<and> owed p t = [] \<and> owed p' = (owed p)(t := new_calls (wld p) (wld p'))"
  by (auto simp: thread_moves_def split: if_splits)

lemma callback_step_world:
  "callback_step t p = Some p' \<Longrightarrow> wld p' = wld p \<and> main_pc p' = main_pc p \<and> ipc_held p' = ipc_held p \<and> \<not> ipc_held p"
  by (auto simp: callback_step_def split: list.splits if_splits)

lemma program_step_sim:
  assumes "base_inv p" and "program_step lc os p p'"
  shows "(step lc os)\<^sup>*\<^sup>* (wld p) (wld p')"
  using assms(2)
proof cases
  case (main now timed_out)
  have "\<not> crashed (wld p)" using main by (simp add: running_def)
  then show ?thesis using main_step_world[OF assms(1) main(2)] step.control by (metis r_into_rtranclp rtranclp.rtrancl_refl)
next
  case (worker now i)
  then have "step lc os (wld p) (wld p')"
    by (intro step.worker[of _ lc os now i]) (auto simp: running_def worker_moves_def dest: thread_moves_world)
  then show ?thesis by blast
next
  case monitor
  then have "step lc os (wld p) (wld p')"
    by (intro step.monitor) (auto simp: running_def monitor_moves_def dest: thread_moves_world)
  then show ?thesis by blast
next
  case (callback t)
  then show ?thesis by (auto dest: callback_step_world)
next
  case (other_program fs)
  then have "step lc os (wld p) (wld p')" using step.other_program[of "wld p"] by (simp add: running_def)
  then show ?thesis by blast
qed

lemma main_step_control:
  assumes "base_inv p" and "main_step lc os now timed_out p = Some p'"
  shows "control (wld p') \<noteq> Ready \<longrightarrow> (\<exists>k. main_pc p' = M_Stopping k)"
proof (cases "main_pc p")
  case (M_Commands cmds error)
  then show ?thesis using assms
    by (cases cmds) (auto simp: base_inv_def main_step_def Let_def split: prod.splits ipc_outcome.splits)
qed (use assms in \<open>auto simp: base_inv_def main_step_def Let_def split: if_splits\<close>)

lemma program_step_control:
  assumes "base_inv p" and "program_step lc os p p'"
  shows "control (wld p') \<noteq> Ready \<longrightarrow> (\<exists>k. main_pc p' = M_Stopping k)"
  using assms(2)
proof cases
  case (main now timed_out)
  then show ?thesis using main_step_control[OF assms(1)] by blast
next
  case (worker now i)
  then show ?thesis using assms(1) worker_step_frame[of "wld p" lc os now i "wld p'"]
    by (auto simp: base_inv_def world_inv_def worker_moves_def dest!: thread_moves_world)
next
  case monitor
  then show ?thesis using assms(1) monitor_step_frame[of lc "wld p" "wld p'"]
    by (auto simp: base_inv_def monitor_moves_def dest!: thread_moves_world)
next
  case (callback t)
  then show ?thesis using assms(1) by (auto simp: base_inv_def dest!: callback_step_world)
next
  case (other_program fs)
  then show ?thesis using assms(1) by (simp add: base_inv_def)
qed

lemma main_beginD:
  assumes "main_begin lc os env fd fs argv = Inr p"
  shows "reachable initial (step lc os) (wld p) \<and> control (wld p) = Ready \<and> owed p = (\<lambda>t. []) \<and> \<not> ipc_held p
    \<and> buffer (sock p) = [] \<and> has_callback (mgr (wld p)) \<and> notified (mgr (wld p)) = [] \<and> \<not> stopping (mgr (wld p))
    \<and> (\<exists>error. main_pc p = M_Ready (drop 3 argv) error)"
proof -
  obtain cfg error error' m fs' s where m: "start lc os fs error (set_result_callback True (new_manager cfg)) = (True, error', m, fs')"
    and p: "p = \<lparr>wld = \<lparr>mgr = m, disk = fs', control = Ready, crashed = False\<rparr>, owed = (\<lambda>t. []), ipc_held = False,
       sock = s, main_pc = M_Ready (drop 3 argv) error'\<rparr>" "buffer s = []"
    using assms by (auto simp: main_begin_def Let_def new_socket_def split: if_splits prod.splits)
  let ?w0 = "\<lparr>mgr = new_manager cfg, disk = fs, control = Ready, crashed = False\<rparr>"
  let ?w1 = "?w0\<lparr>mgr := set_result_callback True (new_manager cfg)\<rparr>"
  have "reachable initial (step lc os) ?w0" by (rule reachable_init) (auto simp: initial_def)
  moreover have "step lc os ?w0 ?w1" by (rule step.control[of _ lc os "Call_Set_Callback True"]) (auto simp: control_step_def)
  moreover have "step lc os ?w1 (wld p)" using m p(1)
    by (intro step.control[of _ lc os "Call_Start error"]) (auto simp: control_step_def)
  ultimately have "reachable initial (step lc os) (wld p)" by (meson reachable.reachable_step)
  moreover have "has_callback m" "notified m = []" "\<not> stopping m"
    using m by (auto simp: start_def Let_def set_result_callback_def new_manager_def split: if_splits prod.splits option.splits)
  ultimately show ?thesis using p by simp
qed

interpretation prog: simulation "program_start lc os env fd fs argv" "program_step lc os" base_inv initial "step lc os" wld
  for lc os env fd fs argv
proof unfold_locales
  show "reachable initial (step lc os) (wld p)" if "program_start lc os env fd fs argv p" for p
    using main_beginD that by (auto simp: program_start_def)
  then show "base_inv p" if "program_start lc os env fd fs argv p" for p
    using that main_beginD[of lc os env fd fs argv p] reachable_inv[of lc os "wld p"]
    by (auto simp: program_start_def base_inv_def)
  show "base_inv p'" if "base_inv p" "program_step lc os p p'" for p p'
    using sync.inv_steps[OF program_step_sim[OF that]] program_step_control[OF that] that(1)
    by (auto simp: base_inv_def)
qed (rule program_step_sim)


end
