(* ===== verification/Program_Results.thy ===== *)
theory Program_Results
  imports Program
begin

text \<open>
  The results of a run of \<^verbatim>\<open>net/sync.cpp\<close>: what \<open>main\<close> knows at each point about the commands it has
  given, up to its exit code.
\<close>

section \<open>What exit code zero means\<close>

text \<open>A command that has been carried out: its task is in the map, or it was \<open>STOP\<close>.\<close>

definition accepted :: "manager \<Rightarrow> string \<Rightarrow> bool" where
  "accepted m c \<longleftrightarrow> (\<exists>task r. parse_command c = Inr (Task_Command task)
     \<and> map_of (results m) (task_id task) = Some r \<and> res_task r = task)"

definition completed :: "manager \<Rightarrow> string \<Rightarrow> bool" where
  "completed m c \<longleftrightarrow> (\<exists>task r. parse_command c = Inr (Task_Command task)
     \<and> map_of (results m) (task_id task) = Some r \<and> res_task r = task \<and> res_state r = Completed)"

definition handled :: "manager \<Rightarrow> string \<Rightarrow> bool" where
  "handled m c \<longleftrightarrow> accepted m c \<or> parse_command c = Inr Stop_Command \<and> stopping m"

text \<open>What \<open>main\<close> has achieved at each of its places, given the commands it started with.\<close>

fun pc_ok :: "manager \<Rightarrow> string list \<Rightarrow> main_pc \<Rightarrow> bool" where
  "pc_ok m cmds (M_Ready rest error) \<longleftrightarrow> rest = cmds"
| "pc_ok m cmds (M_Commands rest error) \<longleftrightarrow> (\<exists>front. cmds = front @ rest \<and> list_all (handled m) front)"
| "pc_ok m cmds M_Failed \<longleftrightarrow> True"
| "pc_ok m cmds M_Wait \<longleftrightarrow> list_all (handled m) cmds"
| "pc_ok m cmds (M_Collect ok) \<longleftrightarrow> (ok \<longrightarrow> list_all (accepted m) cmds)"
| "pc_ok m cmds (M_Finish ok) \<longleftrightarrow> (ok \<longrightarrow> list_all (completed m) cmds)"
| "pc_ok m cmds (M_Stop k) \<longleftrightarrow> pc_ok m cmds k"
| "pc_ok m cmds (M_Stopping k) \<longleftrightarrow> pc_ok m cmds k"
| "pc_ok m cmds (M_Drain ok) \<longleftrightarrow> (ok \<longrightarrow> list_all (completed m) cmds)"
| "pc_ok m cmds (M_Exit code) \<longleftrightarrow> (code = 0 \<longrightarrow> list_all (completed m) cmds)"

definition commands_inv :: "string list \<Rightarrow> program \<Rightarrow> bool" where
  "commands_inv cmds p \<longleftrightarrow> base_inv p \<and> pc_ok (mgr (wld p)) cmds (main_pc p)
     \<and> (started (mgr (wld p)) \<or> stopping (mgr (wld p)))"

text \<open>Progress of the manager: no task is lost, no final result changes, a stop is not revoked.\<close>

definition advances :: "manager \<Rightarrow> manager \<Rightarrow> bool" where
  "advances m m' \<longleftrightarrow> keeps_tasks m m' \<and> (stopping m \<longrightarrow> stopping m') \<and> (started m \<longrightarrow> started m' \<or> stopping m')
     \<and> (\<forall>j r. map_of (results m) j = Some r \<and> terminal_state (res_state r) \<longrightarrow> map_of (results m') j = Some r)"

lemma advances_refl [simp]: "advances m m"
  by (simp add: advances_def)

lemma pc_ok_advances:
  assumes "advances m m'" and "pc_ok m cmds pc"
  shows "pc_ok m' cmds pc"
proof -
  have acc: "accepted m' c" if "accepted m c" for c
    using assms(1) that by (fastforce simp: advances_def keeps_tasks_def accepted_def)
  then have "handled m' c" if "handled m c" for c
    using assms(1) that by (auto simp: handled_def advances_def)
  moreover have "completed m' c" if "completed m c" for c
    using assms(1) that unfolding completed_def advances_def by (metis terminal_state_def)
  ultimately show ?thesis using assms(2) acc
    by (induction m' cmds pc rule: pc_ok.induct) (auto simp: list_all_iff)
qed

lemma thread_started:
  "manager_inv (mgr w) \<Longrightarrow> worker_step lc os now i w = Some w' \<Longrightarrow> started (mgr w') = started (mgr w)"
  "monitor_step lc w = Some w' \<Longrightarrow> started (mgr w') = started (mgr w)"
proof -
  show "manager_inv (mgr w) \<Longrightarrow> worker_step lc os now i w = Some w' \<Longrightarrow> started (mgr w') = started (mgr w)"
    by (erule (1) worker_step_cases) (use same_run_ops in \<open>force simp: same_run_def\<close>)+
qed (auto simp: monitor_step_def Let_def split: option.splits monitor_pc.splits prod.splits)

lemma worker_advances:
  assumes "world_inv w" and "worker_step lc os now i w = Some w'"
  shows "advances (mgr w) (mgr w')"
proof -
  have m: "manager_inv (mgr w)" using assms(1) by (simp add: world_inv_def)
  show ?thesis
    using thread_started(1)[OF m assms(2)] worker_keeps_tasks[OF m assms(2)] worker_step_frame[OF m assms(2)] final_worker_step[OF assms]
    by (auto simp: advances_def final_result_def)
qed

lemma monitor_advances:
  assumes "monitor_step lc w = Some w'"
  shows "advances (mgr w) (mgr w')"
  using thread_started(2)[OF assms] monitor_keeps_tasks[OF assms] monitor_step_frame[OF assms] final_monitor_step[OF assms]
  by (auto simp: advances_def final_result_def)

lemma control_advances:
  assumes "control_step lc os call w = Some w'" and "\<And>error. call \<noteq> Call_Start error"
  shows "advances (mgr w) (mgr w')"
proof -
  from assms(1) have "(stopping (mgr w) \<longrightarrow> stopping (mgr w')) \<and> (started (mgr w) \<longrightarrow> started (mgr w') \<or> stopping (mgr w'))"
    by (cases rule: control_step_cases) (use assms(2) in \<open>auto simp: control_defs split: if_splits\<close>)
  then show ?thesis using control_keeps_tasks[OF assms(1)] final_control_step[OF assms(1)]
    by (auto simp: advances_def final_result_def)
qed

lemma enqueue_accepted:
  assumes "enqueue_ipc_command os fs now c error m = (Ipc_Return True error', m')"
  shows "accepted m' c"
proof -
  obtain task where t: "parse_command c = Inr (Task_Command task)" "enqueue os fs now task error m = (True, error', m')"
    using assms by (auto simp: enqueue_ipc_command_def split: sum.splits ipc_command.splits prod.splits)
  have "map_of (results m') (task_id task) = Some (new_result task)"
    by (cases rule: enqueue_cases[of os fs now task error m]) (use t(2) in \<open>auto simp: map_of_emplace_result\<close>)
  then show ?thesis using t(1) by (auto simp: accepted_def new_result_def)
qed

lemma accepted_completed:
  assumes "list_all (\<lambda>r. res_state r = Completed) (all_results m)" and "accepted m c"
  shows "completed m c"
proof -
  obtain task r where r: "parse_command c = Inr (Task_Command task)" "map_of (results m) (task_id task) = Some r"
    "res_task r = task" using assms(2) by (auto simp: accepted_def)
  then have "r \<in> set (all_results m)" by (force simp: all_results_def dest: map_of_SomeD)
  then show ?thesis using r assms(1) by (auto simp: completed_def list_all_iff)
qed

lemma command_pc_ok:
  assumes inv: "commands_inv cmds p" and step: "main_step lc os now timed_out p = Some p'"
    and pc: "main_pc p = M_Commands (c # rest) error" and ok: "pc_ok (mgr (wld p')) cmds (main_pc p)"
  shows "pc_ok (mgr (wld p')) cmds (main_pc p')"
proof -
  note st = step[unfolded main_step_def Let_def]
  obtain front where front: "cmds = front @ c # rest" "list_all (handled (mgr (wld p'))) front" using ok pc by auto
  have again: "pc_ok (mgr (wld p')) cmds (M_Commands rest e)" if "handled (mgr (wld p')) c" for e
    using front that by (auto intro: exI[of _ "front @ [c]"])
  obtain out m' where out: "enqueue_ipc_command os (disk (wld p)) now c error (mgr (wld p)) = (out, m')" by fastforce
  show ?thesis
  proof (cases out)
    case (Ipc_Return ok' error')
    then show ?thesis using st pc out enqueue_accepted[of os "disk (wld p)" now c error "mgr (wld p)"] again
      by (auto simp: handled_def)
  next
    case Ipc_Stop
    then have "parse_command c = Inr Stop_Command"
      using out by (auto simp: enqueue_ipc_command_def split: sum.splits ipc_command.splits prod.splits)
    moreover have "stopping (mgr (begin_stop (wld p)))"
      using inv by (auto simp: commands_inv_def begin_stop_def stop_request_def)
    ultimately show ?thesis using st pc out Ipc_Stop again by (auto simp: handled_def)
  qed
qed

lemma main_step_pc_ok:
  assumes inv: "commands_inv cmds p" and step: "main_step lc os now timed_out p = Some p'"
    and adv: "advances (mgr (wld p)) (mgr (wld p'))"
  shows "pc_ok (mgr (wld p')) cmds (main_pc p')"
proof -
  have ok: "pc_ok (mgr (wld p')) cmds (main_pc p)" using inv pc_ok_advances[OF adv] by (simp add: commands_inv_def)
  note st = step[unfolded main_step_def Let_def]
  show ?thesis
  proof (cases "main_pc p")
    case (M_Commands rest error)
    then show ?thesis using st ok command_pc_ok[OF inv step _ ok] by (cases rest) auto
  next
    case M_Wait
    then have "p' = p\<lparr>main_pc := M_Collect (wait_for_idle_result (mgr (wld p)))\<rparr>"
      using st by (auto split: if_splits)
    then show ?thesis using ok M_Wait by (auto simp: handled_def wait_for_idle_result_def list_all_iff)
  next
    case (M_Collect c)
    then have "p' = p\<lparr>main_pc := M_Finish (c \<and> list_all (\<lambda>r. res_state r = Completed) (all_results (mgr (wld p))))\<rparr>"
      using st by auto
    then show ?thesis using ok M_Collect accepted_completed[of "mgr (wld p)"] by (auto simp: list_all_iff)
  qed (use st ok in \<open>auto split: if_splits\<close>)
qed

lemma program_step_advances:
  assumes "base_inv p" and "program_step lc os p p'"
  shows "advances (mgr (wld p)) (mgr (wld p'))"
  using assms(2)
proof cases
  case (main now timed_out)
  from main_step_world[OF assms(1) main(2)] show ?thesis using control_advances[of lc os _ "wld p" "wld p'"] by auto
next
  case (worker now i)
  then show ?thesis using assms(1) worker_advances[of "wld p" lc os now i]
    by (auto simp: base_inv_def worker_moves_def dest!: thread_moves_world)
next
  case monitor
  then show ?thesis using monitor_advances by (auto simp: monitor_moves_def dest!: thread_moves_world)
next
  case (callback t)
  then show ?thesis by (auto dest!: callback_step_world)
qed auto

lemma commands_inv_step:
  assumes "commands_inv cmds p" and "program_step lc os p p'"
  shows "commands_inv cmds p'"
proof -
  have base: "base_inv p" using assms(1) by (simp add: commands_inv_def)
  note adv = program_step_advances[OF base assms(2)]
  have same: "main_pc p' = main_pc p" if "\<And>now timed_out. main_step lc os now timed_out p \<noteq> Some p'"
    using assms(2) that
    by cases (auto simp: worker_moves_def monitor_moves_def dest!: thread_moves_world callback_step_world)
  have "pc_ok (mgr (wld p')) cmds (main_pc p')"
  proof (cases "\<exists>now timed_out. main_step lc os now timed_out p = Some p'")
    case True
    then show ?thesis using main_step_pc_ok[OF assms(1) _ adv] by blast
  next
    case False
    then show ?thesis using same pc_ok_advances[OF adv] assms(1) by (auto simp: commands_inv_def)
  qed
  then show ?thesis using assms(1) adv prog.inv_step[OF base assms(2)] by (auto simp: commands_inv_def advances_def)
qed

interpretation cmd: invariant_system "program_start lc os env fd fs argv" "program_step lc os" "commands_inv (drop 3 argv)"
  for lc os env fd fs argv
proof unfold_locales
  fix p
  assume "program_start lc os env fd fs argv p"
  moreover from this have "started (mgr (wld p))"
    by (auto simp: program_start_def main_begin_def Let_def start_def set_result_callback_def new_manager_def
        split: if_splits prod.splits option.splits)
  ultimately show "commands_inv (drop 3 argv) p"
    using prog.inv_init main_beginD[of lc os env fd fs argv p] by (auto simp: commands_inv_def program_start_def)
qed (rule commands_inv_step)

lemma all_commands_completed:
  assumes "reachable (program_start lc os env fd fs argv) (program_step lc os) p"
    and "main_pc p = M_Exit 0" and "c \<in> set (drop 3 argv)"
  shows "completed (mgr (wld p)) c"
  using cmd.inv_reachable[OF assms(1)] assms(2,3) by (auto simp: commands_inv_def list_all_iff)

text \<open>C4. The program exits with 0 only when every command of its command line asked for a transfer and every one
  of these tasks is completed; in particular never when one of them was refused, failed,
  was cancelled, or was \<open>STOP\<close>.\<close>

theorem exit_zero_all_completed:
  assumes "reachable (program_start lc os env fd fs argv) (program_step lc os) p"
    and "main_pc p = M_Exit 0" and "c \<in> set (drop 3 argv)"
  shows "\<exists>task r. parse_command c = Inr (Task_Command task)
    \<and> map_of (results (mgr (wld p))) (task_id task) = Some r \<and> res_task r = task \<and> res_state r = Completed"
  using all_commands_completed[OF assms] by (simp add: completed_def)

end
