(* ===== verification/Program_Callbacks.thy ===== *)
theory Program_Callbacks
  imports Program_Results
begin

text \<open>
  The callback of \<^verbatim>\<open>net/sync.cpp\<close> and the lock \<open>ipc_mutex\<close>: which thread may still have a call to
  make, and how the last block of \<open>main\<close>, which stops the manager while it holds the lock, ends.
\<close>

section \<open>The calls of the callback\<close>

text \<open>The log of calls only grows, and by the thread that finds them in its list.\<close>

lemma notified_notify: "notified (notify rs m) = notified m @ (if has_callback m then rs else [])"
  by (simp add: notify_def)

lemma log_frame [simp, frame_simps]:
  "notified (set_queue l q m) = notified m" "notified (set_worker i wk m) = notified m"
  "has_callback (set_queue l q m) = has_callback m" "has_callback (set_worker i wk m) = has_callback m"
  by (simp_all add: set_queue_def set_worker_def)

lemma set_service_state_calls:
  "\<exists>rs. notified (set_service_state st m) = notified m @ rs \<and> (rs \<noteq> [] \<longrightarrow> st = Error)
     \<and> (\<forall>r\<in>set rs. \<exists>r0\<in>set (all_results m). queued_state (res_state r0) \<and> r = fail_result r0)"
  by (auto simp: set_service_state_def Let_def notified_notify all_results_def)

fun alive :: "thread \<Rightarrow> manager \<Rightarrow> bool" where
  "alive (Worker_Thread i) m \<longleftrightarrow> i < length (workers m) \<and> w_pc (workers m ! i) = Taking"
| "alive Monitor_Thread m \<longleftrightarrow> (case monitor m of None \<Rightarrow> False | Some t \<Rightarrow> mon_pc t = Waiting)"

lemma worker_calls:
  assumes "manager_inv (mgr w)" and "worker_step lc os now i w = Some w'"
  shows "notified (mgr w') = notified (mgr w) @ new_calls w w'
    \<and> (new_calls w w' \<noteq> [] \<longrightarrow> alive (Worker_Thread i) (mgr w') \<and> held_by (workers (mgr w) ! i) \<noteq> [])"
proof -
  have "\<exists>xs. notified (mgr w') = notified (mgr w) @ xs
      \<and> (xs \<noteq> [] \<longrightarrow> alive (Worker_Thread i) (mgr w') \<and> held_by (workers (mgr w) ! i) \<noteq> [])"
    using assms(2,1)
  proof (cases rule: worker_step_cases)
    case (took item m')
    from took(3) show ?thesis by (rule take_round_taken) (use took(4) in auto)
  next
    case (finished item st e c m')
    then show ?thesis using same_workers(2)[OF finished(3)]
      by (auto simp: complete_task_def notified_notify held_by_def split: option.splits)
  next
    case (disconnected item e c)
    then show ?thesis using set_service_state_calls[of Disconnected "mgr w"] by auto
  next
    case (requeued item e c m')
    have "\<exists>xs. notified m' = notified (mgr w) @ xs"
      using requeued(3) by (auto simp: requeue_task_def Let_def notified_notify split: option.splits)
    then show ?thesis using requeued same_workers(3)[OF requeued(3)] by (auto simp: held_by_def)
  qed auto
  then show ?thesis by (auto simp: new_calls_def)
qed

lemma monitor_calls:
  assumes "monitor_step lc w = Some w'"
  shows "notified (mgr w') = notified (mgr w) @ new_calls w w'
    \<and> (new_calls w w' \<noteq> [] \<longrightarrow> alive Monitor_Thread (mgr w') \<and> (\<exists>r\<in>set (all_results (mgr w)). queued_state (res_state r)))"
proof -
  have "\<exists>xs. notified (mgr w') = notified (mgr w) @ xs
      \<and> (xs \<noteq> [] \<longrightarrow> alive Monitor_Thread (mgr w') \<and> (\<exists>r\<in>set (all_results (mgr w)). queued_state (res_state r)))"
  proof (cases "\<exists>t connected. monitor (mgr w) = Some t \<and> mon_pc t = Probed connected")
    case True
    then obtain t connected where t: "monitor (mgr w) = Some t" "mon_pc t = Probed connected" by blast
    obtain failures st where h: "health_step (config (mgr w)) connected (consecutive_failures t) = (failures, st)" by fastforce
    obtain rs where "notified (set_service_state st (mgr w)) = notified (mgr w) @ rs"
      "\<forall>r\<in>set rs. \<exists>r0\<in>set (all_results (mgr w)). queued_state (res_state r0) \<and> r = fail_result r0"
      using set_service_state_calls by blast
    then show ?thesis using assms t h by (cases rs) (auto simp: monitor_step_def Let_def)
  next
    case False
    then show ?thesis using assms
      by (auto simp: monitor_step_def Let_def split: option.splits monitor_pc.splits prod.splits)
  qed
  then show ?thesis by (auto simp: new_calls_def)
qed

lemma control_calls:
  assumes "control_step lc os call w = Some w'"
  shows "notified (mgr w') = notified (mgr w)"
  using assms
proof (cases rule: control_step_cases)
  case signal
  then show ?thesis using set_service_state_calls[of Stopping "mgr w"] by (simp add: stop_signal_def)
qed (auto simp: control_defs split: if_splits)

text \<open>
  The buffer is one that \<open>processRequests\<close> empties; the lock is held exactly in the last block of \<open>main\<close>; a stop that has begun has cleared
  \<open>started_\<close>; and a thread that still has calls to make is in \<open>take_task\<close> or in the timed wait of
  the monitor, in particular not at its end.
\<close>

fun final_block :: "main_pc \<Rightarrow> bool" where
  "final_block (M_Stop k) = final_block k"
| "final_block (M_Stopping k) = final_block k"
| "final_block (M_Drain ok) = True"
| "final_block _ = False"

definition calls_inv :: "program \<Rightarrow> bool" where
  "calls_inv p \<longleftrightarrow> base_inv p \<and> socket_ok (sock p) \<and> (ipc_held p \<longleftrightarrow> final_block (main_pc p))
     \<and> ((\<exists>k. main_pc p = M_Stopping k) \<longrightarrow> \<not> started (mgr (wld p)))
     \<and> (\<forall>t. owed p t \<noteq> [] \<longrightarrow> alive t (mgr (wld p)))"

lemma control_alive:
  assumes "control_step lc os call w = Some w'" and "\<And>error. call \<noteq> Call_Start error" and "alive t (mgr w)"
  shows "alive t (mgr w')"
  using assms(1)
proof (cases rule: control_step_cases)
  case (join m)
  then show ?thesis using assms(3) by (cases t) (auto simp: stop_join_def list_all_iff split: if_splits option.splits)
qed (use assms(2,3) in \<open>cases t; auto simp: control_defs split: if_splits\<close>)+

lemma worker_alive:
  assumes "manager_inv (mgr w)" and "worker_step lc os now i w = Some w'" and "alive t (mgr w)" and "t \<noteq> Worker_Thread i"
  shows "alive t (mgr w')"
  using worker_step_rank[OF assms(1,2)] worker_step_frame[OF assms(1,2)] assms(3,4) by (cases t) auto

lemma monitor_alive:
  assumes "monitor_step lc w = Some w'" and "alive t (mgr w)" and "t \<noteq> Monitor_Thread"
  shows "alive t (mgr w')"
  using monitor_step_frame[OF assms(1)] assms(2,3) by (cases t) auto

lemma send_ok [simp]: "socket_ok (sock p) \<Longrightarrow> socket_ok (sock (send message p))"
  using socket_step_ok[of "sock p" "Call_Send (c_str message)"] by (auto simp: socket_step_def send_def)

lemma processRequests_returns:
  assumes "socket_ok s"
  shows "\<exists>st s'. processRequests s = Some (st, s') \<and> socket_ok s'"
  using socket_step_ok[OF assms, of Call_Process] by (auto simp: socket_step_def)

lemma main_step_socket:
  assumes "socket_ok (sock p)" and "main_step lc os now timed_out p = Some p'"
  shows "socket_ok (sock p')"
proof -
  have drain: "socket_ok s'" if "processRequests s = Some (st, s')" "socket_ok s" for s st s'
    using processRequests_returns[OF that(2)] that(1) by auto
  have "socket_ok (sock (send message (p\<lparr>main_pc := k, ipc_held := h\<rparr>)))"
    "socket_ok (sock (send message (p\<lparr>main_pc := k\<rparr>)))" "socket_ok (sock (send message p))" for message k h
    using assms(1) by simp_all
  then show ?thesis using assms drain
    by (cases "main_pc p") (auto simp: main_step_def Let_def split: if_splits list.splits prod.splits ipc_outcome.splits)
qed

lemma calls_inv_step:
  assumes inv: "calls_inv p" and step: "program_step lc os p p'"
  shows "calls_inv p'"
proof -
  have base: "base_inv p" "manager_inv (mgr (wld p))" using inv by (auto simp: calls_inv_def base_inv_def world_inv_def)
  have base': "base_inv p'" by (rule prog.inv_step[OF base(1) step])
  show ?thesis using step
  proof cases
    case (main now timed_out)
    from main_step_world[OF base(1) main(2)] have "alive t (mgr (wld p')) " if "alive t (mgr (wld p))" for t
      using control_alive[of lc os _ "wld p" "wld p'" t] that by auto
    moreover have "owed p' = owed p \<and> (ipc_held p' \<longleftrightarrow> final_block (main_pc p'))
        \<and> ((\<exists>k. main_pc p' = M_Stopping k) \<longrightarrow> \<not> started (mgr (wld p')))"
      using main(2) inv
      by (cases "main_pc p" rule: main_pc.exhaust)
         (auto simp: main_step_def Let_def calls_inv_def begin_stop_def stop_request_def control_step_def
           stop_signal_def stop_join_def split: if_splits list.splits prod.splits ipc_outcome.splits option.splits control_pc.splits)
    ultimately show ?thesis using inv base' main_step_socket[OF _ main(2)] by (auto simp: calls_inv_def)
  next
    case (worker now i)
    note w = thread_moves_world[OF worker(2)[unfolded worker_moves_def]]
    show ?thesis using thread_started(1)[OF base(2) conjunct1[OF w]] inv base' w worker_calls[OF base(2) conjunct1[OF w]] worker_alive[OF base(2) conjunct1[OF w]]
      by (auto simp: calls_inv_def)
  next
    case monitor
    note w = thread_moves_world[OF monitor(2)[unfolded monitor_moves_def]]
    show ?thesis using thread_started(2)[OF conjunct1[OF w]] inv base' w monitor_calls[OF conjunct1[OF w]] monitor_alive[OF conjunct1[OF w]]
      by (auto simp: calls_inv_def)
  next
    case (callback t)
    then show ?thesis using inv base' by (auto simp: calls_inv_def callback_step_def split: list.splits if_splits)
  next
    case (other_program fs)
    then show ?thesis using inv base' by (auto simp: calls_inv_def)
  qed
qed

interpretation callb: invariant_system "program_start lc os env fd fs argv" "program_step lc os" calls_inv
  for lc os env fd fs argv
proof unfold_locales
  show "calls_inv p" if "program_start lc os env fd fs argv p" for p
    using prog.inv_init[OF that] main_beginD[of lc os env fd fs argv p] that
    by (auto simp: calls_inv_def program_start_def socket_ok_def)
qed (rule calls_inv_step)

section \<open>The last block\<close>

text \<open>
  With no call left and no task in hand the threads make no new calls: a worker that holds
  nothing can only end, and the monitor finds no waiting task.
\<close>

definition quiet :: "program \<Rightarrow> bool" where
  "quiet p \<longleftrightarrow> calls_inv p \<and> (\<exists>ok. main_pc p = M_Stopping (M_Drain ok)) \<and> (\<forall>t. owed p t = [])
     \<and> held (mgr (wld p)) = [] \<and> stopping (mgr (wld p))"

definition thread_move :: "libcurl \<Rightarrow> os \<Rightarrow> program \<Rightarrow> program \<Rightarrow> bool" where
  "thread_move lc os p p' \<longleftrightarrow> (\<exists>now i. worker_moves lc os now i p = Some p') \<or> monitor_moves lc p = Some p'"

lemma quietD:
  assumes "quiet p"
  shows "calls_inv p" "world_inv (wld p)" "manager_inv (mgr (wld p))" "running p" "stopping (mgr (wld p))"
  using assms by (auto simp: quiet_def calls_inv_def base_inv_def world_inv_def running_def)

lemma quiet_none_waiting:
  assumes "quiet p" and "r \<in> set (all_results (mgr (wld p)))"
  shows "\<not> queued_state (res_state r)"
proof -
  note m = quietD(3,5)[OF assms(1)]
  then have l: "ledger (max_retries (config (mgr (wld p)))) [] (held (mgr (wld p))) (results (mgr (wld p))) (active_tasks (mgr (wld p)))"
    by (auto simp: manager_inv_def)
  obtain j where "(j, r) \<in> set (results (mgr (wld p)))" using assms(2) by (auto simp: all_results_def)
  then have "map_of (results (mgr (wld p))) j = Some r" using l by (auto simp: ledger_def results_ok_def)
  then show ?thesis using l by (auto simp: ledger_def)
qed

lemma quiet_thread_step:
  assumes "quiet p" and "thread_move lc os p p'"
  shows "thread_step lc os (wld p) (wld p') \<and> new_calls (wld p) (wld p') = [] \<and> held (mgr (wld p')) = []
    \<and> owed p' = owed p \<and> main_pc p' = main_pc p"
proof -
  note m = quietD(3)[OF assms(1)]
  from assms(2) consider now i where "worker_moves lc os now i p = Some p'" | "monitor_moves lc p = Some p'"
    by (auto simp: thread_move_def)
  then show ?thesis
  proof cases
    case 1
    note w = thread_moves_world[OF 1[unfolded worker_moves_def]]
    have i: "i < length (workers (mgr (wld p)))" using worker_step_rank[OF m conjunct1[OF w]] by simp
    have none: "held_by (workers (mgr (wld p)) ! i) = []" "held_before i (workers (mgr (wld p))) = []"
      "held_after i (workers (mgr (wld p))) = []"
      using held_nth[OF i] assms(1) by (simp_all add: quiet_def)
    have "held (mgr (wld p')) = []"
      using conjunct1[OF w] m
    proof (cases rule: worker_step_cases)
      case gave_up
      then show ?thesis using held_set_worker[OF i] none by (simp add: held_by_def)
    next
      case (took item m')
      then show ?thesis using assms(1) by (auto simp: quiet_def elim: take_round_taken)
    qed (use none in \<open>auto simp: held_by_def\<close>)
    moreover have "new_calls (wld p) (wld p') = []" using worker_calls[OF m conjunct1[OF w]] none by auto
    ultimately show ?thesis using w by (auto simp: thread_step_def)
  next
    case 2
    note w = thread_moves_world[OF 2[unfolded monitor_moves_def]]
    have "new_calls (wld p) (wld p') = []"
      using monitor_calls[OF conjunct1[OF w]] quiet_none_waiting[OF assms(1)] by auto
    moreover have "held (mgr (wld p')) = []"
      using monitor_step_frame[OF conjunct1[OF w]] assms(1) by (simp add: quiet_def held_def)
    ultimately show ?thesis using w by (auto simp: thread_step_def)
  qed
qed

lemma quiet_moves:
  assumes "quiet p" and "thread_move lc os p p'"
  shows "quiet p' \<and> main_pc p' = main_pc p \<and> control (wld p') = control (wld p) \<and> total_rank (wld p') < total_rank (wld p)"
proof -
  note t = quiet_thread_step[OF assms]
  have "program_step lc os p p'" using assms(2) quietD(4)[OF assms(1)] by (auto simp: thread_move_def intro: program_step.intros)
  then have "calls_inv p'" by (rule calls_inv_step[OF quietD(1)[OF assms(1)]])
  then show ?thesis using assms(1) t thread_step_rank[OF quietD(2,5)[OF assms(1)], of lc os "wld p'"] by (auto simp: quiet_def)
qed

lemma quiet_progress:
  assumes "quiet p"
  shows "(\<exists>p'. main_step lc os now timed_out p = Some p') \<or> (\<exists>p'. thread_move lc os p p')"
proof (cases "control (wld p) = Joining")
  case True
  from stopping_not_stuck[OF quietD(2)[OF assms] True, of lc os Call_Stop] show ?thesis
  proof
    assume "\<exists>w'. control_step lc os Call_Stop (wld p) = Some w'"
    then show ?thesis using assms True by (auto simp: quiet_def main_step_def Let_def)
  next
    assume "\<exists>w'. thread_step lc os (wld p) w'"
    then have "\<exists>p'. thread_move lc os p p'" using assms
      by (fastforce simp: quiet_def thread_step_def thread_move_def worker_moves_def monitor_moves_def thread_moves_def)
    then show ?thesis ..
  qed
next
  case False
  then show ?thesis using assms
    by (cases "control (wld p)") (auto simp: quiet_def main_step_def Let_def control_step_def)
qed

definition stop_rank :: "world \<Rightarrow> nat" where
  "stop_rank w = total_rank w + (case control w of Ready \<Rightarrow> 0 | Joining \<Rightarrow> 1 | Signalling \<Rightarrow> 2)"

lemma stop_moves:
  assumes "control_step lc os Call_Stop w = Some w'" and "control w \<noteq> Ready" and "held (mgr w) = []"
  shows "held (mgr w') = [] \<and> stopping (mgr w') = stopping (mgr w) \<and> stop_rank w' < stop_rank w"
  using assms by (cases "control w") (auto simp: control_step_def stop_signal_def stop_join_def held_def
      stop_rank_def total_rank_def monitor_rank_def split: if_splits)

lemma quiet_main_step:
  assumes "quiet p" and "control (wld p) \<noteq> Ready" and "main_step lc os now timed_out p = Some p'"
  shows "quiet p' \<and> main_pc p' = main_pc p \<and> stop_rank (wld p') < stop_rank (wld p)"
proof -
  have "calls_inv p'"
    by (rule calls_inv_step[OF quietD(1)[OF assms(1)] program_step.main[OF quietD(4)[OF assms(1)] assms(3)]])
  moreover have "control_step lc os Call_Stop (wld p) = Some (wld p') \<and> main_pc p' = main_pc p \<and> owed p' = owed p"
    using assms by (auto simp: quiet_def main_step_def Let_def)
  ultimately show ?thesis using assms(1,2) stop_moves[of lc os "wld p" "wld p'"] by (auto simp: quiet_def)
qed

lemma quiet_exits:
  "quiet p \<Longrightarrow> main_pc p = M_Stopping (M_Drain ok) \<Longrightarrow>
     \<exists>p'. (program_step lc os)\<^sup>*\<^sup>* p p' \<and> main_pc p' = M_Exit (if ok then 0 else 1)"
proof (induction "stop_rank (wld p)" arbitrary: p rule: less_induct)
  case less
  note run = quietD(4)[OF less.prems(1)]
  show ?case
  proof (cases "control (wld p) = Ready")
    case True
    let ?q = "p\<lparr>main_pc := M_Drain ok\<rparr>"
    have "main_step lc os 0 False p = Some ?q" using less.prems(2) True by (simp add: main_step_def Let_def)
    then have q: "program_step lc os p ?q" by (rule program_step.main[OF run])
    have "socket_ok (sock ?q)" using less.prems(1) by (simp add: quiet_def calls_inv_def)
    then obtain p' where p': "main_step lc os 0 False ?q = Some p'" "main_pc p' = M_Exit (if ok then 0 else 1)"
      using processRequests_returns[of "sock ?q"] by (auto simp: main_step_def Let_def)
    have "program_step lc os ?q p'" by (rule program_step.main[OF _ p'(1)]) (use run in \<open>simp add: running_def\<close>)
    then show ?thesis using q p'(2) by (meson converse_rtranclp_into_rtranclp r_into_rtranclp)
  next
    case False
    obtain p1 where p1: "program_step lc os p p1" "quiet p1" "main_pc p1 = main_pc p" "stop_rank (wld p1) < stop_rank (wld p)"
    proof -
      from quiet_progress[OF less.prems(1), of lc os 0 False] show thesis
      proof (elim disjE exE)
        fix p1 assume s: "main_step lc os 0 False p = Some p1"
        show thesis by (rule that[OF program_step.main[OF run s]]) (use quiet_main_step[OF less.prems(1) False s] in auto)
      next
        fix p1 assume s: "thread_move lc os p p1"
        then have "program_step lc os p p1" using run by (auto simp: thread_move_def intro: program_step.intros)
        then show thesis by (rule that) (use quiet_moves[OF less.prems(1) s] in \<open>auto simp: stop_rank_def\<close>)
      qed
    qed
    from less.hyps[OF p1(4,2)] less.prems(2) p1(1,3) show ?thesis by (auto intro: converse_rtranclp_into_rtranclp)
  qed
qed

text \<open>C16. When no thread has a call to make and no worker holds a task, the last block ends: as long as \<open>main\<close>
  waits there, it or another thread can move; every move of another thread keeps this
  situation and lowers a number; and the program gets to its exit.\<close>

theorem last_block_ends:
  assumes "reachable (program_start lc os env fd fs argv) (program_step lc os) p"
    and "main_pc p = M_Stopping (M_Drain ok)" and "\<forall>t. owed p t = []" and "active_tasks (mgr (wld p)) = 0"
  shows "((\<exists>p'. main_step lc os now timed_out p = Some p') \<or> (\<exists>p'. thread_move lc os p p'))
    \<and> (\<forall>p'. thread_move lc os p p' \<longrightarrow> (\<forall>t. owed p' t = []) \<and> active_tasks (mgr (wld p')) = 0
         \<and> main_pc p' = M_Stopping (M_Drain ok) \<and> total_rank (wld p') < total_rank (wld p))
    \<and> (\<exists>p'. (program_step lc os)\<^sup>*\<^sup>* p p' \<and> main_pc p' = M_Exit (if ok then 0 else 1))"
proof -
  have active: "active_tasks (mgr (wld q)) = length (held (mgr (wld q)))" if "calls_inv q" for q
    using that by (auto simp: calls_inv_def base_inv_def world_inv_def manager_inv_def ledger_def)
  have inv: "calls_inv p" "commands_inv (drop 3 argv) p"
    using callb.inv_reachable[OF assms(1)] cmd.inv_reachable[OF assms(1)] by simp_all
  then have "stopping (mgr (wld p))" using assms(2) by (auto simp: calls_inv_def commands_inv_def)
  then have q: "quiet p" using inv(1) active[OF inv(1)] assms(2-4) by (simp add: quiet_def)
  have "(\<forall>t. owed p' t = []) \<and> active_tasks (mgr (wld p')) = 0 \<and> main_pc p' = M_Stopping (M_Drain ok)
      \<and> total_rank (wld p') < total_rank (wld p)" if "thread_move lc os p p'" for p'
    using quiet_moves[OF q that] assms(2) active[of p'] by (auto simp: quiet_def)
  then show ?thesis using quiet_progress[OF q, of lc os now timed_out] quiet_exits[OF q assms(2), of lc os] by blast
qed

end
