(* ===== verification/Program_Messages.thy ===== *)
theory Program_Messages
  imports Program_Callbacks
begin

text \<open>
  The messages of \<^verbatim>\<open>net/sync.cpp\<close> in the buffer of the socket: one for each call of the callback,
  between the first and the last message of \<open>main\<close>.
\<close>

section \<open>The messages\<close>

definition pending :: "program \<Rightarrow> sync_result multiset" where
  "pending p = (\<Sum>t\<in>{t. owed p t \<noteq> []}. mset (owed p t))"

text \<open>\<open>main\<close> after \<open>SYNC READY\<close> and before the buffer is emptied, and the message of its last block.\<close>

fun open_pc :: "main_pc \<Rightarrow> bool" where
  "open_pc (M_Ready cmds error) = False"
| "open_pc (M_Stop k) = open_pc k"
| "open_pc (M_Stopping k) = open_pc k"
| "open_pc (M_Exit code) = False"
| "open_pc _ = True"

fun closing :: "main_pc \<Rightarrow> string list" where
  "closing (M_Stop k) = closing k"
| "closing (M_Stopping k) = closing k"
| "closing (M_Drain ok) = [if ok then ''SYNC COMPLETED'' else ''SYNC FAILED'']"
| "closing _ = []"

text \<open>Where a call of \<open>stop\<close> returns to.\<close>

definition resumes :: "main_pc \<Rightarrow> bool" where
  "resumes k \<longleftrightarrow> (case k of M_Commands cmds error \<Rightarrow> True | M_Drain ok \<Rightarrow> True | M_Exit code \<Rightarrow> True | _ \<Rightarrow> False)"

lemma closing_none: "\<not> final_block pc \<Longrightarrow> closing pc = []"
  by (induction pc rule: closing.induct) auto

abbreviation message_text :: "sync_result \<Rightarrow> string" where
  "message_text r \<equiv> the (c_str (callback_message r))"

definition messages_inv :: "program \<Rightarrow> bool" where
  "messages_inv p \<longleftrightarrow> calls_inv p \<and> finite {t. owed p t \<noteq> []}
     \<and> (\<forall>k. main_pc p = M_Stop k \<or> main_pc p = M_Stopping k \<longrightarrow> resumes k)
     \<and> ((\<exists>cmds error. main_pc p = M_Ready cmds error) \<longrightarrow>
          buffer (sock p) = [] \<and> results (mgr (wld p)) = [] \<and> notified (mgr (wld p)) = [] \<and> (\<forall>t. owed p t = []))
     \<and> (open_pc (main_pc p) \<longrightarrow> (\<exists>sent. map payload (buffer (sock p)) = ''SYNC READY'' # map message_text sent @ closing (main_pc p)
          \<and> mset sent + pending p = mset (notified (mgr (wld p)))))"

lemma send_payloads:
  "c_str message = Some (x # xs) \<Longrightarrow> map payload (buffer (sock (send message p))) = map payload (buffer (sock p)) @ [x # xs]"
  using buf.items_enq by (simp add: send_def sendRequest_def enqueueRequest_def new_request_def)

lemma message_text_sent:
  "map payload (buffer (sock (send (callback_message r) p))) = map payload (buffer (sock p)) @ [message_text r]"
  using send_payloads[of "callback_message r" "CHR ''S''"] by (simp add: c_str_def callback_message_def)

lemma pending_update:
  assumes "finite {t. owed p t \<noteq> []}" and "owed p' = (owed p)(t := xs)"
  shows "finite {t. owed p' t \<noteq> []} \<and> pending p' + mset (owed p t) = pending p + mset xs"
proof -
  let ?T = "insert t {t. owed p t \<noteq> []}"
  have sub: "{t. owed p' t \<noteq> []} \<subseteq> ?T" using assms(2) by auto
  have fin: "finite ?T" using assms(1) by simp
  have "pending q = (\<Sum>s\<in>?T. mset (owed q s))" if "{t. owed q t \<noteq> []} \<subseteq> ?T" for q
    unfolding pending_def by (rule sum.mono_neutral_left[OF fin that]) auto
  then have all: "pending p' = (\<Sum>s\<in>?T. mset (owed p' s))" "pending p = (\<Sum>s\<in>?T. mset (owed p s))"
    using sub by auto
  define others where "others = (\<Sum>s\<in>?T - {t}. mset (owed p s))"
  have same: "(\<Sum>s\<in>?T - {t}. mset (owed p' s)) = others"
    unfolding others_def by (rule sum.cong) (use assms(2) in auto)
  have "pending p' = mset (owed p' t) + others"
    unfolding all(1) same[symmetric] by (rule sum.remove[OF fin]) simp
  moreover have "pending p = mset (owed p t) + others"
    unfolding all(2) others_def by (rule sum.remove[OF fin]) simp
  ultimately have "pending p' = mset xs + others" "pending p = mset (owed p t) + others" using assms(2) by simp_all
  then show ?thesis using finite_subset[OF sub fin] by (simp add: ac_simps)
qed

lemma nothing_accepted_yet:
  assumes "manager_inv (mgr w)" and "results (mgr w) = []"
  shows "worker_step lc os now i w = Some w' \<Longrightarrow> results (mgr w') = [] \<and> notified (mgr w') = notified (mgr w)"
    and "monitor_step lc w = Some w' \<Longrightarrow> results (mgr w') = [] \<and> notified (mgr w') = notified (mgr w)"
proof -
  assume "worker_step lc os now i w = Some w'"
  then show "results (mgr w') = [] \<and> notified (mgr w') = notified (mgr w)"
    using assms(1)
  proof (cases rule: worker_step_cases)
    case (took item m')
    then show ?thesis using assms(2) by (auto elim: take_round_taken)
  next
    case (disconnected item e c)
    then show ?thesis using assms(2) by (auto simp: set_service_state_def)
  qed (use assms(2) in \<open>auto simp: complete_task_def requeue_task_def\<close>)
next
  assume "monitor_step lc w = Some w'"
  moreover have "results (set_service_state st (mgr w)) = [] \<and> notified (set_service_state st (mgr w)) = notified (mgr w)" for st
    using assms(2) by (auto simp: set_service_state_def Let_def change_results_def notified_notify)
  ultimately show "results (mgr w') = [] \<and> notified (mgr w') = notified (mgr w)"
    using assms(2) by (auto simp: monitor_step_def Let_def split: option.splits monitor_pc.splits prod.splits)
qed

lemma messages_thread_move:
  assumes inv: "messages_inv p" and inv': "calls_inv p'" and move: "thread_moves t f p = Some p'"
    and log: "notified (mgr (wld p')) = notified (mgr (wld p)) @ new_calls (wld p) (wld p')"
    and empty: "results (mgr (wld p)) = [] \<Longrightarrow> results (mgr (wld p')) = [] \<and> notified (mgr (wld p')) = notified (mgr (wld p))"
  shows "messages_inv p'"
proof -
  note w = thread_moves_world[OF move]
  have "finite {t. owed p' t \<noteq> []} \<and> pending p' = pending p + mset (new_calls (wld p) (wld p'))"
    using pending_update[of p p' t] inv w by (simp add: messages_inv_def)
  moreover have "new_calls (wld p) (wld p') = []" if "notified (mgr (wld p')) = notified (mgr (wld p))"
    using that by (simp add: new_calls_def)
  ultimately have upd: "finite {t. owed p' t \<noteq> []}" "pending p' = pending p + mset (new_calls (wld p) (wld p'))"
    "notified (mgr (wld p')) = notified (mgr (wld p)) \<Longrightarrow> new_calls (wld p) (wld p') = []" by auto
  have same: "main_pc p' = main_pc p" "sock p' = sock p" "owed p' = (owed p)(t := new_calls (wld p) (wld p'))" using w by auto
  have "buffer (sock p') = [] \<and> results (mgr (wld p')) = [] \<and> notified (mgr (wld p')) = [] \<and> (\<forall>t. owed p' t = [])"
    if "\<exists>cmds error. main_pc p' = M_Ready cmds error"
  proof -
    have "buffer (sock p) = []" "results (mgr (wld p)) = []" "notified (mgr (wld p)) = []" "\<forall>t. owed p t = []"
      using inv that same(1) by (simp_all add: messages_inv_def)
    then show ?thesis using empty upd(3) same by simp
  qed
  moreover have "\<exists>sent. map payload (buffer (sock p')) = ''SYNC READY'' # map message_text sent @ closing (main_pc p')
      \<and> mset sent + pending p' = mset (notified (mgr (wld p')))" if open_p: "open_pc (main_pc p')"
  proof -
    obtain sent where "map payload (buffer (sock p)) = ''SYNC READY'' # map message_text sent @ closing (main_pc p)"
      "mset sent + pending p = mset (notified (mgr (wld p)))"
      using inv open_p same(1) by (auto simp: messages_inv_def)
    then show ?thesis using same(1,2) upd(2) log by (intro exI[of _ sent]) (simp add: add.assoc[symmetric])
  qed
  ultimately show ?thesis unfolding messages_inv_def using inv inv' upd(1) same(1) by (simp add: messages_inv_def)
qed

lemma messages_main_step:
  assumes inv: "messages_inv p" and step: "main_step lc os now timed_out p = Some p'" and base: "calls_inv p'"
  shows "messages_inv p'"
proof -
  have "base_inv p" using inv by (simp add: messages_inv_def calls_inv_def)
  from main_step_world[OF this step] have log: "notified (mgr (wld p')) = notified (mgr (wld p))"
    using control_calls[of lc os _ "wld p" "wld p'"] by auto
  have owed: "owed p' = owed p"
    using step by (cases "main_pc p") (auto simp: main_step_def Let_def split: if_splits list.splits prod.splits ipc_outcome.splits)
  then have pend: "pending p' = pending p" by (simp add: pending_def)
  have say: "c_str ''SYNC READY'' = Some ''SYNC READY''" "c_str ''SYNC COMPLETED'' = Some ''SYNC COMPLETED''"
    "c_str ''SYNC FAILED'' = Some ''SYNC FAILED''" by (simp_all add: c_str_def)
  show ?thesis
  proof (cases "main_pc p")
    case (M_Ready cmds error)
    have "pending p = {#}" using inv M_Ready by (simp add: messages_inv_def pending_def)
    moreover have "p' = send ''SYNC READY'' (p\<lparr>main_pc := M_Commands cmds error\<rparr>)"
      using step M_Ready by (simp add: main_step_def Let_def)
    ultimately show ?thesis using inv base pend M_Ready send_payloads[OF say(1)]
      by (auto simp: messages_inv_def intro!: exI[of _ "[]"])
  next
    case (M_Finish ok)
    have p': "p' = send (if ok then ''SYNC COMPLETED'' else ''SYNC FAILED'')
        (p\<lparr>ipc_held := True, main_pc := M_Stop (M_Drain ok)\<rparr>)"
      using step M_Finish by (simp add: main_step_def Let_def)
    have "map payload (buffer (sock p')) = map payload (buffer (sock p)) @ closing (main_pc p')"
      using p' send_payloads[OF say(2)] send_payloads[OF say(3)] by simp
    then show ?thesis using inv base pend owed p' M_Finish by (auto simp: messages_inv_def resumes_def)
  qed (use step inv base log pend owed in \<open>auto simp: messages_inv_def main_step_def Let_def resumes_def
        split: if_splits list.splits prod.splits ipc_outcome.splits\<close>)
qed

lemma messages_callback:
  assumes inv: "messages_inv p" and step: "callback_step t p = Some p'" and base: "calls_inv p'"
  shows "messages_inv p'"
proof -
  obtain r rs where r: "owed p t = r # rs" "\<not> ipc_held p" "p' = send (callback_message r) (p\<lparr>owed := (owed p)(t := rs)\<rparr>)"
    using step by (auto simp: callback_step_def split: list.splits if_splits)
  have upd: "finite {t. owed p' t \<noteq> []} \<and> pending p' + mset (r # rs) = pending p + mset rs"
    using pending_update[of p p' t rs] inv r by (simp add: messages_inv_def)
  then have pend: "pending p = add_mset r (pending p')" by simp
  have not_final: "\<not> final_block (main_pc p)" using inv r(2) by (simp add: messages_inv_def calls_inv_def)
  note none = closing_none[OF not_final]
  have buf: "map payload (buffer (sock p')) = map payload (buffer (sock p)) @ [message_text r]"
    using r(3) message_text_sent[of r "p\<lparr>owed := (owed p)(t := rs)\<rparr>"] by simp
  have "\<exists>sent. map payload (buffer (sock p')) = ''SYNC READY'' # map message_text sent @ closing (main_pc p')
      \<and> mset sent + pending p' = mset (notified (mgr (wld p')))" if open_p: "open_pc (main_pc p')"
  proof -
    obtain sent where "map payload (buffer (sock p)) = ''SYNC READY'' # map message_text sent"
      "mset sent + pending p = mset (notified (mgr (wld p)))"
      using inv open_p none r(3) by (auto simp: messages_inv_def)
    then show ?thesis using buf none r(3) pend by (intro exI[of _ "sent @ [r]"]) simp
  qed
  then show ?thesis using inv base upd r by (auto simp: messages_inv_def)
qed

interpretation msg: invariant_system "program_start lc os env fd fs argv" "program_step lc os" messages_inv
  for lc os env fd fs argv
proof unfold_locales
  fix p
  assume start: "program_start lc os env fd fs argv p"
  then have "results (mgr (wld p)) = []"
    by (auto simp: program_start_def main_begin_def Let_def start_def set_result_callback_def new_manager_def
        split: if_splits prod.splits option.splits)
  then show "messages_inv p" using callb.inv_init[OF start] start main_beginD[of lc os env fd fs argv p]
    by (auto simp: messages_inv_def program_start_def)
next
  fix p p'
  assume inv: "messages_inv p" and step: "program_step lc os p p'"
  have base: "calls_inv p'" using calls_inv_step[OF _ step] inv by (simp add: messages_inv_def)
  have m: "manager_inv (mgr (wld p))" using inv by (simp add: messages_inv_def calls_inv_def base_inv_def world_inv_def)
  show "messages_inv p'" using step
  proof cases
    case (main now timed_out)
    then show ?thesis using messages_main_step[OF inv _ base] by blast
  next
    case (worker now i)
    note mv = worker(2)[unfolded worker_moves_def] and ws = conjunct1[OF thread_moves_world[OF worker(2)[unfolded worker_moves_def]]]
    show ?thesis by (rule messages_thread_move[OF inv base mv conjunct1[OF worker_calls[OF m ws]] nothing_accepted_yet(1)[OF m _ ws]])
  next
    case monitor
    note mv = monitor(2)[unfolded monitor_moves_def] and ws = conjunct1[OF thread_moves_world[OF monitor(2)[unfolded monitor_moves_def]]]
    show ?thesis by (rule messages_thread_move[OF inv base mv conjunct1[OF monitor_calls[OF ws]] nothing_accepted_yet(2)[OF m _ ws]])
  next
    case (callback t)
    then show ?thesis using messages_callback[OF inv _ base] by blast
  next
    case (other_program fs)
    then show ?thesis using inv base by (auto simp: messages_inv_def pending_def)
  qed
qed


end
