(* ===== verification/Scenario.thy ===== *)
theory Scenario
  imports Sync_Progress
begin

text \<open>
  A concrete environment and a concrete schedule of the threads, on which the properties with
  hypotheses are applied: a disk with a root directory, a libcurl that answers every request
  with two bytes and the status 200, one that answers 404, and a run of the manager from its
  construction through one download to the end of \<open>stop\<close>.
\<close>

section \<open>Schedules\<close>

datatype action = Worker_Acts int nat | Monitor_Acts | Control_Acts control_call

fun act :: "libcurl \<Rightarrow> os \<Rightarrow> action \<Rightarrow> world \<Rightarrow> world option" where
  "act lc os (Worker_Acts now i) w = worker_step lc os now i w"
| "act lc os Monitor_Acts w = monitor_step lc w"
| "act lc os (Control_Acts call) w = control_step lc os call w"

lemma act_step: "\<not> crashed w \<Longrightarrow> act lc os a w = Some w' \<Longrightarrow> step lc os w w'"
  by (cases a) (auto intro: step.intros)

fun run_acts :: "libcurl \<Rightarrow> os \<Rightarrow> action list \<Rightarrow> world \<Rightarrow> world option" where
  "run_acts lc os [] w = Some w"
| "run_acts lc os (a # acts) w = (case act lc os a w of None \<Rightarrow> None | Some w' \<Rightarrow> run_acts lc os acts w')"

lemma run_reachable:
  "run_acts lc os acts w = Some w' \<Longrightarrow> reachable initial (step lc os) w \<Longrightarrow> reachable initial (step lc os) w'"
proof (induction acts arbitrary: w)
  case Nil
  then show ?case by simp
next
  case (Cons a acts)
  then obtain w1 where w1: "act lc os a w = Some w1" "run_acts lc os acts w1 = Some w'"
    by (auto split: option.splits)
  have "\<not> crashed w" using reachable_inv[OF Cons.prems(2)] by (simp add: world_inv_def)
  then show ?case using Cons.IH[OF w1(2)] reachable_step[OF Cons.prems(2) act_step[OF _ w1(1)]] by simp
qed

section \<open>The environment\<close>

definition demo_os :: os where
  "demo_os = \<lparr>cwd = [], refuse = (\<lambda>_ _ _. None), write_fault = (\<lambda>_ _ _. False),
     close_keeps = (\<lambda>_ _. None), read_fault = (\<lambda>_ _. None)\<rparr>"

definition demo_fs :: fs where
  "demo_fs = (\<lambda>x. if x = [] then Some Dir else None)"

definition demo_libcurl :: libcurl where
  "demo_libcurl = \<lparr>init_ok = True,
     transfer = (\<lambda>n req. \<lparr>reply_chunks = [[104], [105]], reply_code = 0, reply_status = 200\<rparr>),
     strerror = (\<lambda>code. ''error'')\<rparr>"

definition demo_config :: sync_config where
  "demo_config = default_config\<lparr>local_root := path_of ''/s'', health_url := ''http://h/'',
     small_file_workers := 1, large_file_workers := 1\<rparr>"

definition demo_world :: world where
  "demo_world = \<lparr>mgr = new_manager demo_config, disk = demo_fs, control = Ready, crashed = False\<rparr>"

definition demo_task :: sync_task where
  "demo_task = \<lparr>task_id = ''t'', direction = Download, task_url = ''http://h/f'', local_path = path_of ''a/f'',
     validation = \<lparr>expected_size = Some 2, expected_sha256 = []\<rparr>\<rparr>"

definition demo_queued :: "action list" where
  "demo_queued = [Control_Acts (Call_Start []), Control_Acts (Call_Enqueue 0 demo_task [])]"

definition demo_taken :: "action list" where
  "demo_taken = demo_queued @ [Monitor_Acts, Monitor_Acts, Monitor_Acts, Worker_Acts 0 0]"

definition demo_done :: "action list" where
  "demo_done = demo_taken @ [Worker_Acts 0 0, Worker_Acts 0 0, Worker_Acts 0 0]"

definition demo_joining :: "action list" where
  "demo_joining = demo_done @ [Control_Acts Call_Stop, Control_Acts Call_Stop]"

definition demo_stopped :: "action list" where
  "demo_stopped = demo_joining @ [Monitor_Acts, Worker_Acts 0 0, Worker_Acts 0 1, Control_Acts Call_Stop]"

abbreviation demo_run :: "action list \<Rightarrow> world option" where
  "demo_run acts \<equiv> run_acts demo_libcurl demo_os acts demo_world"

definition demo_at :: "action list \<Rightarrow> world" where
  "demo_at acts = the (demo_run acts)"

lemma demo_initial: "reachable initial (step demo_libcurl demo_os) demo_world"
  by (rule reachable_init) (auto simp: initial_def demo_world_def)

lemma demo_atI:
  assumes "case demo_run acts of None \<Rightarrow> False | Some w \<Rightarrow> P w"
  shows "reachable initial (step demo_libcurl demo_os) (demo_at acts)" and "P (demo_at acts)"
    and "demo_run acts = Some (demo_at acts)"
  using assms run_reachable[OF _ demo_initial] by (auto simp: demo_at_def split: option.splits)

definition demo_result :: "task_state \<Rightarrow> u32 \<Rightarrow> int \<Rightarrow> sync_result" where
  "demo_result st n code = \<lparr>res_task = demo_task, res_state = st, res_attempts = n,
     res_http_status = code, res_error = []\<rparr>"

lemma demo_taken_state: "case demo_run demo_taken of None \<Rightarrow> False | Some w \<Rightarrow>
    map_of (results (mgr w)) ''t'' = Some (demo_result InProgress 1 0)
    \<and> max_retries (config (mgr w)) = 3 \<and> length (workers (mgr w)) = 2
    \<and> (case w_pc (workers (mgr w) ! 0) of Started item \<Rightarrow> item_id item = ''t'' | _ \<Rightarrow> False)"
  by code_simp

lemma demo_done_state: "case demo_run demo_done of None \<Rightarrow> False | Some w \<Rightarrow>
    map_of (results (mgr w)) ''t'' = Some (demo_result Completed 1 200) \<and> wait_for_idle_result (mgr w)"
  by code_simp

lemma demo_joining_state: "case demo_run demo_joining of None \<Rightarrow> False | Some w \<Rightarrow> control w = Joining"
  by code_simp

lemma demo_stopped_state: "case demo_run demo_stopped of None \<Rightarrow> False | Some w \<Rightarrow>
    map_of (results (mgr w)) ''t'' = Some (demo_result Completed 1 200)
    \<and> control w = Ready \<and> \<not> started (mgr w) \<and> stopping (mgr w)"
  by code_simp

section \<open>The threads\<close>

theorem task_accounting_witness:
  "count_list (queued (mgr (demo_at demo_taken))) ''t'' = 0
    \<and> count_list (held (mgr (demo_at demo_taken))) ''t'' = 1
    \<and> active_tasks (mgr (demo_at demo_taken)) = length (held (mgr (demo_at demo_taken)))
    \<and> \<not> crashed (demo_at demo_taken)"
  using task_accounting[OF demo_atI(1)[OF demo_taken_state], of "''t''" "demo_result InProgress 1 0"]
    demo_atI(2)[OF demo_taken_state] by (simp add: demo_result_def)

theorem wait_for_idle_all_done_witness: "terminal_state (res_state (demo_result Completed 1 200))"
  by (rule wait_for_idle_all_done[OF demo_atI(1)[OF demo_done_state], of "''t''"])
     (use demo_atI(2)[OF demo_done_state] in auto)

theorem stopped_all_done_witness:
  "workers (mgr (demo_at demo_stopped)) = [] \<and> terminal_state (res_state (demo_result Completed 1 200))"
  by (rule stopped_all_done[OF demo_atI(1)[OF demo_stopped_state], of "''t''"])
     (use demo_atI(2)[OF demo_stopped_state] in auto)


lemma run_steps: "run_acts lc os acts w = Some w' \<Longrightarrow> world_inv w \<Longrightarrow> (step lc os)\<^sup>*\<^sup>* w w'"
proof (induction acts arbitrary: w)
  case (Cons a acts)
  then obtain w1 where w1: "act lc os a w = Some w1" "run_acts lc os acts w1 = Some w'"
    by (auto split: option.splits)
  have "step lc os w w1" using act_step[OF _ w1(1)] Cons.prems(2) by (simp add: world_inv_def)
  then show ?case using Cons.IH[OF w1(2)] sync.inv_step[OF Cons.prems(2)]
    by (meson converse_rtranclp_into_rtranclp)
qed simp

lemma run_acts_append: "run_acts lc os (xs @ ys) w = Option.bind (run_acts lc os xs w) (run_acts lc os ys)"
  by (induction xs arbitrary: w) (auto split: option.splits)

theorem final_results_stay_witness:
  "map_of (results (mgr (demo_at demo_stopped))) ''t'' = Some (demo_result Completed 1 200)"
proof (rule final_results_stay[OF demo_atI(1)[OF demo_done_state]])
  let ?rest = "[Control_Acts Call_Stop, Control_Acts Call_Stop, Monitor_Acts, Worker_Acts 0 0,
     Worker_Acts 0 1, Control_Acts Call_Stop]"
  have "demo_run (demo_done @ ?rest) = Some (demo_at demo_stopped)"
    using demo_atI(3)[OF demo_stopped_state] by (simp add: demo_stopped_def demo_joining_def)
  then have "run_acts demo_libcurl demo_os ?rest (demo_at demo_done) = Some (demo_at demo_stopped)"
    unfolding run_acts_append demo_atI(3)[OF demo_done_state] by simp
  then show "(step demo_libcurl demo_os)\<^sup>*\<^sup>* (demo_at demo_done) (demo_at demo_stopped)"
    by (rule run_steps) (rule reachable_inv[OF demo_atI(1)[OF demo_done_state]])
qed (use demo_atI(2)[OF demo_done_state] in \<open>auto simp: demo_result_def terminal_state_def\<close>)

theorem holder_progress_witness:
  "worker_rank 0 (demo_at demo_taken) \<le> 5 \<and> (\<exists>w'. worker_step demo_libcurl demo_os 0 0 (demo_at demo_taken) = Some w'
     \<and> worker_rank 0 w' < worker_rank 0 (demo_at demo_taken))"
  by (rule holder_progress[OF demo_atI(1)[OF demo_taken_state]])
     (use demo_atI(2)[OF demo_taken_state] in \<open>auto simp: held_by_def split: worker_pc.splits\<close>)




text \<open>The worker that holds the task, processed to its end.\<close>

definition demo_item :: queue_item where
  "demo_item = \<lparr>item_id = ''t'', item_large = False, ready_at = 0\<rparr>"

lemma demo_process: "case demo_run demo_taken of None \<Rightarrow> False | Some w \<Rightarrow>
    w_pc (workers (mgr w) ! 0) = Started demo_item
    \<and> resolve demo_os (disk w) (local_root (config (mgr w))) = Inr [''s''] \<and> disk w [''s''] = Some Dir
    \<and> (case process_task demo_libcurl demo_os 0 demo_item (w_network (workers (mgr w) ! 0), disk w, mgr w) of
         None \<Rightarrow> False | Some (net', fs', m') \<Rightarrow> map_of (results m') ''t'' = Some (demo_result Completed 1 200))"
  by code_simp

lemma demo_processed:
  obtains net' fs' m' where
    "process_task demo_libcurl demo_os 0 demo_item (w_network (workers (mgr (demo_at demo_taken)) ! 0),
       disk (demo_at demo_taken), mgr (demo_at demo_taken)) = Some (net', fs', m')"
    "map_of (results m') ''t'' = Some (demo_result Completed 1 200)"
  using demo_atI(2)[OF demo_process] by (auto split: option.splits)



section \<open>Single transfers\<close>

definition demo_net :: network where
  "demo_net = new_network demo_libcurl 30000 0 []"

definition demo_two :: download_validation where
  "demo_two = \<lparr>expected_size = Some 2, expected_sha256 = []\<rparr>"

lemma demo_download:
  "map_option fst (http_download_file demo_libcurl demo_os ''u'' ''/f'' demo_two (demo_net, demo_fs, [])) = Some True"
  by code_simp

theorem download_success_valid_witness:
  "\<exists>net' fs' response'. http_download_file demo_libcurl demo_os ''u'' ''/f'' demo_two (demo_net, demo_fs, [])
       = Some (True, net', fs', response')
    \<and> (\<exists>b content. resolve_entry demo_os demo_fs (path_of ''/f'') = Inr b
         \<and> fs' b = Some (Regular content) \<and> valid_content demo_two content)"
proof -
  obtain net' fs' r where d: "http_download_file demo_libcurl demo_os ''u'' ''/f'' demo_two (demo_net, demo_fs, [])
      = Some (True, net', fs', r)"
    using demo_download by auto
  have "path_of ''/f'' = Path True [''f'']" by code_simp
  then have "parts (path_of ''/f'') \<noteq> []" "plain_name (last (parts (path_of ''/f'')))" by (simp_all add: plain_name_def)
  from download_success_valid[OF d this] d show ?thesis by (auto simp: demo_os_def)
qed

text \<open>A libcurl that answers 404, and a disk with an old file.\<close>

definition demo_404 :: libcurl where
  "demo_404 = \<lparr>init_ok = True,
     transfer = (\<lambda>n req. \<lparr>reply_chunks = [[104], [105]], reply_code = 0, reply_status = 404\<rparr>),
     strerror = (\<lambda>code. ''error'')\<rparr>"

definition demo_old :: fs where
  "demo_old = demo_fs([''f''] \<mapsto> Regular [1, 2, 3])"

lemma demo_failure:
  "map_option fst (http_download_file demo_404 demo_os ''u'' ''/f'' demo_two (demo_net, demo_old, [])) = Some False"
  by code_simp


theorem network_returns_witness:
  "\<exists>r. http_download_file demo_404 demo_os ''u'' ''/f'' demo_two (demo_net, demo_old, []) = Some r"
proof -
  have "retries demo_net \<noteq> UINT_MAX" by (simp add: demo_net_def new_network_def UINT_MAX_def)
  from network_returns[OF this] show ?thesis by blast
qed

theorem requests_spec_witness:
  "http_get demo_libcurl ''u'' (demo_net, []) = Some (request_spec demo_libcurl (snd (configure_request ''u'' demo_net)) demo_net)
   \<and> fst (request_spec demo_libcurl (snd (configure_request ''u'' demo_net)) demo_net)"
proof -
  have "curl demo_net" "retries demo_net \<noteq> UINT_MAX"
    by (simp_all add: demo_net_def new_network_def demo_libcurl_def UINT_MAX_def)
  from requests_spec[OF this, of demo_libcurl "''u''" "[]"] show ?thesis by (intro conjI) (blast, code_simp)
qed

lemma demo_upload:
  "map_option fst (http_upload_file demo_libcurl demo_os demo_old ''u'' ''/f'' (demo_net, [])) = Some True"
  by code_simp

theorem upload_frees_forms_witness:
  "\<exists>net' response'. http_upload_file demo_libcurl demo_os demo_old ''u'' ''/f'' (demo_net, []) = Some (True, net', response')
    \<and> forms_made net' = forms_freed net' \<and> status_ok (last_http_status net')"
proof -
  obtain net' r where u: "http_upload_file demo_libcurl demo_os demo_old ''u'' ''/f'' (demo_net, []) = Some (True, net', r)"
    using demo_upload by auto
  from upload_frees_forms[OF u] u show ?thesis by (auto simp: demo_net_def new_network_def)
qed

text \<open>A download below a root directory.\<close>

definition demo_rooted :: fs where
  "demo_rooted = demo_fs([''s''] \<mapsto> Dir)"

lemma demo_below:
  "case resolve_local_path demo_os demo_config demo_rooted (path_of ''f'') True of
     (Inl e, fs1) \<Rightarrow> False
   | (Inr c, fs1) \<Rightarrow> (case http_download_file demo_libcurl demo_os ''u'' (path_string c) demo_two (demo_net, fs1, []) of
       None \<Rightarrow> False | Some (ok, net', fs2, r) \<Rightarrow> fs2 [''s'', ''f''] \<noteq> fs1 [''s'', ''f''])"
  by code_simp


section \<open>Digests and commands\<close>

theorem sha256_file_shape_witness:
  "length (sha256_spec []) = 64 \<and> list_all isxdigit (sha256_spec []) \<and> map tolower (sha256_spec []) = sha256_spec []"
  using sha256_file_shape[of "Some \<lparr>remaining = [], io_error = False\<rparr>" "sha256_spec []"]
    sha256_file_eq[of "Some \<lparr>remaining = [], io_error = False\<rparr>"] by simp


theorem parse_command_roundtrip_witness:
  "parse_command (upload_command ''t'' ''http://h/'' ''a b'') =
      Inr (Task_Command \<lparr>task_id = ''t'', direction = Upload, task_url = ''http://h/'', local_path = path_of ''a b'',
        validation = \<lparr>expected_size = None, expected_sha256 = []\<rparr>\<rparr>)"
  using parse_command_roundtrip[of "''t''" "''http://h/''" "''a b''" "[]" None] by simp

end
