(* ===== verification/Program_Runs.thy ===== *)
theory Program_Runs
  imports Program_Messages Scenario
begin

text \<open>
  Runs of the whole program of \<^verbatim>\<open>net/sync.cpp\<close> with the environment of \<open>Scenario\<close>: one download is
  commanded and completed. In one run the worker makes its call before \<open>main\<close> enters its last
  block, and the program exits with 0; in the other it does not, and the program hangs. The
  properties of the \<open>Program\<close> theories are applied to them.
\<close>

section \<open>Runs\<close>

datatype move = Main_Moves bool | Worker_Moves nat | Monitor_Moves | Callback_Moves thread

fun make_move :: "libcurl \<Rightarrow> os \<Rightarrow> move \<Rightarrow> program \<Rightarrow> program option" where
  "make_move lc os (Main_Moves timed_out) p = main_step lc os 0 timed_out p"
| "make_move lc os (Worker_Moves i) p = worker_moves lc os 0 i p"
| "make_move lc os Monitor_Moves p = monitor_moves lc p"
| "make_move lc os (Callback_Moves t) p = callback_step t p"

fun make_moves :: "libcurl \<Rightarrow> os \<Rightarrow> move list \<Rightarrow> program \<Rightarrow> program option" where
  "make_moves lc os [] p = Some p"
| "make_moves lc os (a # as) p = (case main_pc p of M_Exit code \<Rightarrow> None | _ \<Rightarrow>
     (case make_move lc os a p of None \<Rightarrow> None | Some p' \<Rightarrow> make_moves lc os as p'))"

lemma moves_reachable:
  "make_moves lc os as p = Some p' \<Longrightarrow> reachable (program_start lc os env fd fs argv) (program_step lc os) p \<Longrightarrow>
     reachable (program_start lc os env fd fs argv) (program_step lc os) p'"
proof (induction as arbitrary: p)
  case Nil
  then show ?case by simp
next
  case (Cons a as)
  then obtain p1 where p1: "make_move lc os a p = Some p1" "make_moves lc os as p1 = Some p'" "\<And>code. main_pc p \<noteq> M_Exit code"
    by (auto split: option.splits main_pc.splits)
  have "running p" using prog.inv_reachable[OF Cons.prems(2)] p1(3) by (simp add: running_def base_inv_def world_inv_def)
  then have "program_step lc os p p1" using p1(1) by (cases a) (auto intro: program_step.intros)
  then show ?case using Cons.IH[OF p1(2)] reachable.reachable_step[OF Cons.prems(2)] by blast
qed

section \<open>One download\<close>

definition demo_command :: string where
  "demo_command = ''DOWNLOAD t http://h/f a/f - -''"

definition demo_argv :: "string list" where
  "demo_argv = [''clsync'', ''/s'', ''http://h/'', demo_command]"

abbreviation demo_begin :: "program \<Rightarrow> bool" where
  "demo_begin \<equiv> program_start demo_libcurl demo_os (\<lambda>name. None) 3 demo_fs demo_argv"

definition demo_program :: "move list \<Rightarrow> program option" where
  "demo_program as = (case main_begin demo_libcurl demo_os (\<lambda>name. None) 3 demo_fs demo_argv of
     Inl _ \<Rightarrow> None | Inr p \<Rightarrow> make_moves demo_libcurl demo_os as p)"

definition program_at :: "move list \<Rightarrow> program" where
  "program_at as = the (demo_program as)"

lemma program_atI:
  assumes "case demo_program as of None \<Rightarrow> False | Some p \<Rightarrow> P p"
  shows "reachable demo_begin (program_step demo_libcurl demo_os) (program_at as)" and "P (program_at as)"
proof -
  obtain p0 p where p: "main_begin demo_libcurl demo_os (\<lambda>name. None) 3 demo_fs demo_argv = Inr p0"
    "make_moves demo_libcurl demo_os as p0 = Some p" "demo_program as = Some p" "P p"
    using assms by (auto simp: demo_program_def split: option.splits sum.splits)
  have "reachable demo_begin (program_step demo_libcurl demo_os) p0"
    by (rule reachable_init) (use p(1) in \<open>simp add: program_start_def\<close>)
  from moves_reachable[OF p(2) this] show "reachable demo_begin (program_step demo_libcurl demo_os) (program_at as)"
    using p(3) by (simp add: program_at_def)
  show "P (program_at as)" using p(3,4) by (simp add: program_at_def)
qed

text \<open>The commands are given, the service is found healthy, and the first worker carries out the task.\<close>

definition demo_reported :: "move list" where
  "demo_reported = [Main_Moves False, Main_Moves False, Monitor_Moves, Monitor_Moves, Monitor_Moves,
     Worker_Moves 0, Worker_Moves 0, Worker_Moves 0, Worker_Moves 0]"

definition last_block :: "move list" where
  "last_block = replicate 6 (Main_Moves False)"

definition threads_end :: "move list" where
  "threads_end = [Monitor_Moves, Worker_Moves 0, Worker_Moves 1, Worker_Moves 2, Worker_Moves 3,
     Main_Moves False, Main_Moves False, Main_Moves False]"

abbreviation stuck_program :: program where
  "stuck_program \<equiv> program_at (demo_reported @ last_block)"

abbreviation quiet_program :: program where
  "quiet_program \<equiv> program_at (demo_reported @ Callback_Moves (Worker_Thread 0) # last_block)"

abbreviation ended_program :: program where
  "ended_program \<equiv> program_at (demo_reported @ Callback_Moves (Worker_Thread 0) # last_block @ threads_end)"

lemma stuck_state: "case demo_program (demo_reported @ last_block) of None \<Rightarrow> False | Some p \<Rightarrow>
    main_pc p = M_Stopping (M_Drain True) \<and> map res_state (owed p (Worker_Thread 0)) = [Completed]
    \<and> map res_state (all_results (mgr (wld p))) = [Completed]"
  by code_simp

lemma quiet_state: "case demo_program (demo_reported @ Callback_Moves (Worker_Thread 0) # last_block) of
    None \<Rightarrow> False | Some p \<Rightarrow> main_pc p = M_Stopping (M_Drain True) \<and> active_tasks (mgr (wld p)) = 0
    \<and> length (workers (mgr (wld p))) = 4
    \<and> map (owed p) [Monitor_Thread, Worker_Thread 0, Worker_Thread 1, Worker_Thread 2, Worker_Thread 3] = replicate 5 []"
  by code_simp

lemma ended_state: "case demo_program (demo_reported @ Callback_Moves (Worker_Thread 0) # last_block @ threads_end) of
    None \<Rightarrow> False | Some p \<Rightarrow> main_pc p = M_Exit 0"
  by code_simp

section \<open>The properties, applied\<close>

theorem exit_zero_all_completed_witness:
  "\<exists>task r. parse_command demo_command = Inr (Task_Command task)
    \<and> map_of (results (mgr (wld ended_program))) (task_id task) = Some r \<and> res_task r = task \<and> res_state r = Completed"
  by (rule exit_zero_all_completed[OF program_atI[OF ended_state]]) (simp add: demo_argv_def)



theorem last_block_ends_witness:
  "\<exists>p. (program_step demo_libcurl demo_os)\<^sup>*\<^sup>* quiet_program p \<and> main_pc p = M_Exit 0"
proof -
  note q = program_atI[OF quiet_state]
  have none: "\<forall>t. owed quiet_program t = []"
  proof (rule allI, rule ccontr)
    fix t
    assume "owed quiet_program t \<noteq> []"
    moreover from this have "alive t (mgr (wld quiet_program))"
      using callb.inv_reachable[OF q(1)] by (simp add: calls_inv_def)
    ultimately show False using q(2)
      by (cases t) (auto simp: numeral_eq_Suc less_Suc_eq)
  qed
  from last_block_ends[OF q(1) conjunct1[OF q(2)] none conjunct1[OF conjunct2[OF q(2)]], of 0 False]
  show ?thesis unfolding if_True by (elim conjE)
qed


end
