(* ===== verification/Program_Exit.thy ===== *)
theory Program_Exit
  imports Program_Runs
begin

text \<open>
  What is left when \<open>main\<close> of \<^verbatim>\<open>net/sync.cpp\<close> returns: its local objects are destroyed, the manager
  first and the socket with the last reference to it. A thread that was still joinable there
  would terminate the program.
\<close>

text \<open>\<open>~SyncManager\<close> calls \<open>stop\<close>; this is its first critical section, the others follow as in \<open>control_step\<close>.\<close>

definition destroy_manager :: "world \<Rightarrow> world" where
  "destroy_manager w = begin_stop w"

text \<open>What \<open>~Socket\<close> looks at.\<close>

definition socket_ends :: "socket \<Rightarrow> int \<times> int \<times> c_string" where
  "socket_ends s = (server_fd s, client_fd s, socket_path s)"

definition main_socket_path :: "environment \<Rightarrow> string" where
  "main_socket_path env = (case env ''CLSYNC_SOCKET_PATH'' of Some p \<Rightarrow> p | None \<Rightarrow> ''clsync.sock'')"

fun past_stop :: "main_pc \<Rightarrow> bool" where
  "past_stop (M_Drain ok) = True"
| "past_stop (M_Exit code) = True"
| "past_stop _ = False"

definition exit_inv :: "int \<times> int \<times> c_string \<Rightarrow> program \<Rightarrow> bool" where
  "exit_inv ends p \<longleftrightarrow> calls_inv p \<and> socket_ends (sock p) = ends \<and> (past_stop (main_pc p) \<longrightarrow> \<not> started (mgr (wld p)))"

lemma send_ends [simp]: "socket_ends (sock (send message p)) = socket_ends (sock p)"
  by (auto simp: socket_ends_def send_def sendRequest_def enqueueRequest_def push_back_def split: option.split)

lemma process_ends: "socket_ok s \<Longrightarrow> processRequests s = Some (st, s') \<Longrightarrow> socket_ends s' = socket_ends s"
  using process_loop_drains[of s ERR] by (auto simp: processRequests_def socket_ends_def split: if_splits)

lemma main_step_ends:
  assumes "socket_ok (sock p)" and "main_step lc os now timed_out p = Some p'"
  shows "socket_ends (sock p') = socket_ends (sock p)"
proof -
  have "socket_ends s' = socket_ends (sock p)" if "processRequests (sock (send message p)) = Some (st, s')" for message st s'
    using process_ends[OF _ that] assms(1) by simp
  moreover have "socket_ends s' = socket_ends (sock p)" if "processRequests (sock p) = Some (st, s')" for st s'
    using process_ends[OF assms(1) that] .
  ultimately show ?thesis using assms(2)
    by (cases "main_pc p") (auto simp: main_step_def Let_def split: if_splits list.splits prod.splits ipc_outcome.splits)
qed

lemma main_step_past:
  assumes "calls_inv p" and "past_stop (main_pc p) \<Longrightarrow> \<not> started (mgr (wld p))"
    and "main_step lc os now timed_out p = Some p'" and "past_stop (main_pc p')"
  shows "\<not> started (mgr (wld p'))"
proof (cases "main_pc p")
  case (M_Stopping k)
  then show ?thesis using assms by (auto simp: main_step_def Let_def calls_inv_def split: if_splits)
next
  case (M_Commands cmds error)
  then show ?thesis using assms(3,4)
    by (auto simp: main_step_def Let_def split: list.splits prod.splits ipc_outcome.splits if_splits)
qed (use assms in \<open>auto simp: main_step_def Let_def split: if_splits prod.splits\<close>)

lemma exit_inv_step:
  assumes inv: "exit_inv ends p" and step: "program_step lc os p p'"
  shows "exit_inv ends p'"
proof -
  have c: "calls_inv p" "socket_ok (sock p)" "manager_inv (mgr (wld p))"
    using inv by (auto simp: exit_inv_def calls_inv_def base_inv_def world_inv_def)
  have "socket_ends (sock p') = ends \<and> (past_stop (main_pc p') \<longrightarrow> \<not> started (mgr (wld p')))"
    using step
  proof cases
    case (main now timed_out)
    then show ?thesis using main_step_ends[OF c(2) main(2)] main_step_past[OF c(1) _ main(2)] inv by (auto simp: exit_inv_def)
  next
    case (worker now i)
    note w = thread_moves_world[OF worker(2)[unfolded worker_moves_def]]
    then show ?thesis using thread_started(1)[OF c(3) conjunct1[OF w]] inv by (auto simp: exit_inv_def)
  next
    case monitor
    note w = thread_moves_world[OF monitor(2)[unfolded monitor_moves_def]]
    then show ?thesis using thread_started(2)[OF conjunct1[OF w]] inv by (auto simp: exit_inv_def)
  next
    case (callback t)
    then show ?thesis using inv by (auto simp: exit_inv_def callback_step_def split: list.splits if_splits)
  qed (use inv in \<open>auto simp: exit_inv_def\<close>)
  then show ?thesis using calls_inv_step[OF c(1) step] by (simp add: exit_inv_def)
qed

lemma start_ends:
  assumes "program_start lc os env fd fs argv p"
  shows "socket_ends (sock p) = (fd, INVALID_SOCKET_VALUE, Some (main_socket_path env))" and "fd \<noteq> INVALID_SOCKET_VALUE"
  using assms by (auto simp: program_start_def main_begin_def Let_def socket_ends_def new_socket_def socket_bool_def main_socket_path_def
      split: if_splits prod.splits)

interpretation leave: invariant_system "program_start lc os env fd fs argv" "program_step lc os"
    "exit_inv (fd, INVALID_SOCKET_VALUE, Some (main_socket_path env))"
  for lc os env fd fs argv
proof unfold_locales
  show "exit_inv (fd, INVALID_SOCKET_VALUE, Some (main_socket_path env)) p" if "program_start lc os env fd fs argv p" for p
    using start_ends(1)[OF that] callb.inv_init[OF that] main_beginD[of lc os env fd fs argv p] that
    by (auto simp: exit_inv_def program_start_def)
qed (rule exit_inv_step)

lemma reachable_fd: "reachable (program_start lc os env fd fs argv) (program_step lc os) p \<Longrightarrow> fd \<noteq> INVALID_SOCKET_VALUE"
  by (induction rule: reachable.induct) (auto dest: start_ends(2))

text \<open>C23. Whenever \<open>main\<close> returns, with any exit code, all threads are joined, no callback is outstanding and the
  lock is free; the destructor of the manager finds nothing to stop, and that of the socket
  closes the one descriptor that was opened and unlinks the path of the socket.\<close>

theorem exit_cleans_up:
  assumes "reachable (program_start lc os env fd fs argv) (program_step lc os) p" and "main_pc p = M_Exit code"
  shows "workers (mgr (wld p)) = [] \<and> monitor (mgr (wld p)) = None \<and> (\<forall>t. owed p t = []) \<and> \<not> ipc_held p
    \<and> destroy_manager (wld p) = wld p \<and> destroy (sock p) = [Close_Fd fd, Unlink_Path (main_socket_path env)]"
proof -
  have inv: "exit_inv (fd, INVALID_SOCKET_VALUE, Some (main_socket_path env)) p" by (rule leave.inv_reachable[OF assms(1)])
  then have "\<not> started (mgr (wld p))" "control (wld p) = Ready" "world_inv (wld p)"
    using assms(2) by (auto simp: exit_inv_def calls_inv_def base_inv_def)
  then have gone: "workers (mgr (wld p)) = []" "monitor (mgr (wld p)) = None" "destroy_manager (wld p) = wld p"
    by (auto simp: world_inv_def destroy_manager_def begin_stop_def stop_request_def)
  have "owed p t = []" for t
  proof (rule ccontr)
    assume "owed p t \<noteq> []"
    then have "alive t (mgr (wld p))" using inv by (simp add: exit_inv_def calls_inv_def)
    then show False using gone by (cases t) (auto split: option.splits)
  qed
  moreover have "destroy (sock p) = [Close_Fd fd, Unlink_Path (main_socket_path env)]"
    using inv reachable_fd[OF assms(1)] by (simp add: exit_inv_def socket_ends_def destroy_def close_fds_def)
  ultimately show ?thesis using gone inv assms(2) by (simp add: exit_inv_def calls_inv_def)
qed

theorem exit_cleans_up_witness:
  "workers (mgr (wld ended_program)) = [] \<and> destroy (sock ended_program) = [Close_Fd 3, Unlink_Path ''clsync.sock'']"
  using exit_cleans_up[OF program_atI[OF ended_state]] by (simp add: main_socket_path_def)

end
