(* ===== verification/Program_Deadlock.thy ===== *)
theory Program_Deadlock
  imports Program_Exit
begin

text \<open>
  When the last block of \<open>main\<close> in \<^verbatim>\<open>net/sync.cpp\<close> ends. It stops the manager while it holds \<open>ipc_mutex\<close>,
  and a worker that puts a task down then needs that lock for its report. The theory settles
  the question for every state: the program can get to its exit exactly when nobody has a report to
  make and no worker holds a task.
\<close>

section \<open>The callback stays set\<close>

lemma callback_frame [simp, frame_simps]:
  "has_callback (set_service_state st m) = has_callback m" "has_callback (queued_manager now large task m) = has_callback m"
  "has_callback (started_manager lc m) = has_callback m" "has_callback (notify rs m) = has_callback m"
  by (simp_all add: set_service_state_def Let_def queued_manager_def started_manager_def notify_def)

lemma worker_step_callback:
  assumes "manager_inv (mgr w)" and "worker_step lc os now i w = Some w'"
  shows "has_callback (mgr w') = has_callback (mgr w)"
  using assms(2,1)
proof (cases rule: worker_step_cases)
  case (took item m')
  from took(3) show ?thesis by (rule take_round_taken) (use took(4) in simp)
next
  case (requeued item e c m')
  then show ?thesis by (cases "stopping (mgr w) \<or> service (mgr w) = Error") (auto simp: requeue_task_def Let_def split: option.splits)
qed (auto simp: complete_task_def split: option.splits)

lemma monitor_step_callback: "monitor_step lc w = Some w' \<Longrightarrow> has_callback (mgr w') = has_callback (mgr w)"
  by (auto simp: monitor_step_def Let_def split: option.splits monitor_pc.splits prod.splits)

lemma enqueue_callback:
  assumes "enqueue os fs now task error m = (ok, e, m')"
  shows "has_callback m' = has_callback m"
  by (cases rule: enqueue_cases[of os fs now task error m]) (use assms in auto)

lemma begin_stop_callback [simp]: "has_callback (mgr (begin_stop w)) = has_callback (mgr w)"
  by (auto simp: begin_stop_def stop_request_def split: option.split if_splits)

lemma main_step_callback:
  assumes "main_step lc os now timed_out p = Some p'"
  shows "has_callback (mgr (wld p')) = has_callback (mgr (wld p))"
proof (cases "main_pc p")
  case (M_Commands cmds error)
  show ?thesis
  proof (cases cmds)
    case (Cons c rest)
    then show ?thesis using assms M_Commands enqueue_callback[of os "disk (wld p)" now]
      by (fastforce simp: main_step_def Let_def enqueue_ipc_command_def
          split: sum.splits ipc_command.splits prod.splits ipc_outcome.splits)
  qed (use assms M_Commands in \<open>auto simp: main_step_def Let_def\<close>)
next
  case (M_Stopping k)
  then show ?thesis using assms
    by (auto simp: main_step_def Let_def control_step_def begin_stop_callback stop_signal_def stop_join_def split: if_splits control_pc.splits)
qed (use assms in \<open>auto simp: main_step_def Let_def split: if_splits\<close>)

definition reports_inv :: "program \<Rightarrow> bool" where
  "reports_inv p \<longleftrightarrow> calls_inv p \<and> has_callback (mgr (wld p))"

lemma reports_inv_step:
  assumes inv: "reports_inv p" and step: "program_step lc os p p'"
  shows "reports_inv p'"
proof -
  have c: "calls_inv p" "manager_inv (mgr (wld p))" "has_callback (mgr (wld p))"
    using inv by (auto simp: reports_inv_def calls_inv_def base_inv_def world_inv_def)
  from step have "has_callback (mgr (wld p'))"
  proof cases
    case (main now timed_out)
    then show ?thesis using main_step_callback c(3) by simp
  next
    case (worker now i)
    then show ?thesis using worker_step_callback[OF c(2)] c(3) by (auto simp: worker_moves_def dest!: thread_moves_world)
  next
    case monitor
    then show ?thesis using monitor_step_callback c(3) by (auto simp: monitor_moves_def dest!: thread_moves_world)
  next
    case (callback t)
    then show ?thesis using c(3) by (auto dest!: callback_step_world)
  qed (use c(3) in simp)
  then show ?thesis using calls_inv_step[OF c(1) step] by (simp add: reports_inv_def)
qed

interpretation rep: invariant_system "program_start lc os env fd fs argv" "program_step lc os" reports_inv
  for lc os env fd fs argv
proof unfold_locales
  show "reports_inv p" if "program_start lc os env fd fs argv p" for p
    using callb.inv_init[OF that] main_beginD[of lc os env fd fs argv p] that
    by (auto simp: reports_inv_def program_start_def)
qed (rule reports_inv_step)

section \<open>Who puts a task down has to report it\<close>

lemma worker_puts_down:
  assumes m: "manager_inv (mgr w)" and step: "worker_step lc os now i w = Some w'" and cb: "has_callback (mgr w)"
    and held: "held (mgr w) \<noteq> []"
  shows "held (mgr w') \<noteq> [] \<or> new_calls w w' \<noteq> []"
proof -
  have i: "i < length (workers (mgr w))" using worker_step_rank[OF m step] by simp
  have reported: "new_calls w w' \<noteq> []" if "\<exists>r. notified (mgr w') = notified (mgr w) @ [r]"
    using that by (auto simp: new_calls_def)
  note nth = held_nth[OF i]
  from step m show ?thesis
  proof (cases rule: worker_step_cases)
    case gave_up
    then show ?thesis using held nth held_set_worker[OF i] by (simp add: held_by_def)
  next
    case (took item m')
    from took(3) have "workers m' = workers (mgr w)" by (rule take_round_taken) simp
    then show ?thesis using took held_set_worker[of i m'] by (simp add: held_by_def)
  next
    case (finished item st e c m')
    then show ?thesis using cb
      by (intro disjI2 reported) (auto simp: complete_task_def notified_notify split: option.splits)
  next
    case (requeued item e c m')
    then show ?thesis using cb
      by (intro disjI2 reported, cases "stopping (mgr w) \<or> service (mgr w) = Error") (auto simp: requeue_task_def Let_def notified_notify split: option.splits)
  qed (use held_set_worker i in \<open>auto simp: held_by_def\<close>)
qed

text \<open>\<open>main\<close> is in \<open>stop\<close>, in its last block, and somebody needs its lock, now or later.\<close>

definition blocked :: "bool \<Rightarrow> program \<Rightarrow> bool" where
  "blocked ok p \<longleftrightarrow> main_pc p = M_Stopping (M_Drain ok) \<and> ((\<exists>t. owed p t \<noteq> []) \<or> held (mgr (wld p)) \<noteq> [])"

lemma blocked_waits:
  assumes "calls_inv p" and "blocked ok p"
  shows "ipc_held p" and "control (wld p) \<noteq> Ready" and "stop_join (mgr (wld p)) = None"
proof -
  let ?m = "mgr (wld p)"
  show "ipc_held p" using assms by (simp add: calls_inv_def blocked_def)
  have "\<not> started ?m" using assms by (auto simp: calls_inv_def blocked_def)
  have busy: "(\<exists>t. alive t ?m) \<or> held ?m \<noteq> []" using assms by (auto simp: calls_inv_def blocked_def)
  then have "\<not> (workers ?m = [] \<and> monitor ?m = None)"
  proof (elim disjE exE)
    fix t assume "alive t ?m"
    then show ?thesis by (cases t) (auto split: option.splits)
  qed (auto simp: held_def)
  then show "control (wld p) \<noteq> Ready" using assms(1) \<open>\<not> started ?m\<close> by (auto simp: calls_inv_def base_inv_def world_inv_def)
  from busy show "stop_join ?m = None"
  proof (elim disjE exE)
    fix t assume "alive t ?m"
    then show ?thesis by (cases t) (auto simp: stop_join_def list_all_length split: option.splits)
  next
    assume "held ?m \<noteq> []"
    then have "\<not> list_all (\<lambda>w. w_pc w = Exited) (workers ?m)" by (force simp: list_all_iff held_def held_by_def)
    then show ?thesis by (auto simp: stop_join_def)
  qed
qed

lemma blocked_stays:
  assumes inv: "reports_inv p" and step: "program_step lc os p p'" and b: "blocked ok p"
  shows "blocked ok p'"
proof -
  have c: "calls_inv p" "manager_inv (mgr (wld p))" "has_callback (mgr (wld p))"
    using inv by (auto simp: reports_inv_def calls_inv_def base_inv_def world_inv_def)
  note waits = blocked_waits[OF c(1) b]
  from step show ?thesis
  proof cases
    case (main now timed_out)
    have "control (wld p) = Signalling \<or> control (wld p) = Joining" using waits(2) by (cases "control (wld p)") auto
    then have "p' = p\<lparr>wld := (wld p)\<lparr>mgr := stop_signal (mgr (wld p)), control := Joining\<rparr>\<rparr>"
      using main(2) b waits(3) by (auto simp: blocked_def main_step_def Let_def control_step_def)
    then show ?thesis using b by (simp add: blocked_def held_def stop_signal_def)
  next
    case (worker now i)
    note w = thread_moves_world[OF worker(2)[unfolded worker_moves_def]]
    have "held (mgr (wld p')) \<noteq> [] \<or> new_calls (wld p) (wld p') \<noteq> []" if "held (mgr (wld p)) \<noteq> []"
      by (rule worker_puts_down[OF c(2) conjunct1[OF w] c(3) that])
    then show ?thesis using b w unfolding blocked_def by (metis fun_upd_apply)
  next
    case monitor
    note w = thread_moves_world[OF monitor(2)[unfolded monitor_moves_def]]
    have "held (mgr (wld p')) = held (mgr (wld p))" using monitor_step_frame[OF conjunct1[OF w]] by (simp add: held_def)
    then show ?thesis using b w unfolding blocked_def by (metis fun_upd_apply)
  next
    case (callback t)
    then show ?thesis using waits(1) by (auto dest!: callback_step_world)
  next
    case (other_program fs)
    then show ?thesis using b by (simp add: blocked_def)
  qed
qed

lemma blocked_for_ever:
  assumes "reports_inv p" and "blocked ok p" and "(program_step lc os)\<^sup>*\<^sup>* p p'"
  shows "blocked ok p'"
  by (rule rep.stable_steps[where P = "blocked ok", OF blocked_stays assms(3,1,2)])

text \<open>C14. The last block of \<open>main\<close> holds \<open>ipc_mutex\<close> while \<open>stop\<close> joins the threads. From a state inside that
  \<open>stop\<close> the program can reach its exit exactly when no thread has a report to make and no worker
  holds a task. Otherwise \<open>main\<close> waits for a thread that waits for its lock, or will, for ever.\<close>

theorem last_block_exits_iff:
  assumes "reachable (program_start lc os env fd fs argv) (program_step lc os) p"
    and "main_pc p = M_Stopping (M_Drain ok)"
  shows "(\<exists>p' code. (program_step lc os)\<^sup>*\<^sup>* p p' \<and> main_pc p' = M_Exit code) \<longleftrightarrow>
    (\<forall>t. owed p t = []) \<and> active_tasks (mgr (wld p)) = 0"
proof -
  have inv: "reports_inv p" "calls_inv p" "commands_inv (drop 3 argv) p"
    using rep.inv_reachable[OF assms(1)] cmd.inv_reachable[OF assms(1)] by (auto simp: reports_inv_def)
  then have act: "active_tasks (mgr (wld p)) = length (held (mgr (wld p)))" and stopping: "stopping (mgr (wld p))"
    using assms(2) by (auto simp: calls_inv_def commands_inv_def base_inv_def world_inv_def manager_inv_def ledger_def)
  show ?thesis
  proof (cases "blocked ok p")
    case True
    then show ?thesis using blocked_for_ever[OF inv(1) True, of lc os] act by (fastforce simp: blocked_def)
  next
    case False
    then have "quiet p" using inv(2) assms(2) stopping by (auto simp: blocked_def quiet_def)
    then show ?thesis using quiet_exits[OF _ assms(2), of lc os] act False assms(2) by (auto simp: blocked_def)
  qed
qed

theorem last_block_exits_iff_witness:
  "reachable demo_begin (program_step demo_libcurl demo_os) stuck_program
   \<and> map res_state (all_results (mgr (wld stuck_program))) = [Completed]
   \<and> \<not> (\<exists>p code. (program_step demo_libcurl demo_os)\<^sup>*\<^sup>* stuck_program p \<and> main_pc p = M_Exit code)"
proof -
  note s = program_atI[OF stuck_state]
  have "owed stuck_program (Worker_Thread 0) \<noteq> []" using s(2) by (metis Nil_is_map_conv neq_Nil_conv list.simps(9))
  then show ?thesis using s last_block_exits_iff[OF s(1), of True] by blast
qed

end
