(* ===== verification/Program_Reports.thy ===== *)
theory Program_Reports
  imports Program_Deadlock
begin

text \<open>
  The reports that the callback of \<^verbatim>\<open>net/sync.cpp\<close> is given, against the results that the manager keeps: a
  task that ends is reported with its final result, once. The one exception is a task that was
  still waiting when \<open>stop\<close> cancelled it.
\<close>

definition about :: "string \<Rightarrow> sync_result \<Rightarrow> bool" where
  "about j r \<longleftrightarrow> task_id (res_task r) = j \<and> terminal_state (res_state r)"

text \<open>The final reports about the task \<open>j\<close> so far.\<close>

definition finals :: "string \<Rightarrow> manager \<Rightarrow> sync_result list" where
  "finals j m = filter (about j) (notified m)"

definition reported :: "sync_result option \<Rightarrow> sync_result list \<Rightarrow> bool" where
  "reported x fs \<longleftrightarrow> (case x of None \<Rightarrow> fs = [] | Some r \<Rightarrow>
     if res_state r = Completed \<or> res_state r = Failed then fs = [r]
     else if res_state r = Cancelled then fs = [] \<or> fs = [r] else fs = [])"

definition all_reported :: "manager \<Rightarrow> bool" where
  "all_reported m \<longleftrightarrow> (\<forall>j. reported (map_of (results m) j) (finals j m))"

lemma all_reportedI:
  assumes "all_reported m"
    and "\<And>j. reported (map_of (results m) j) (finals j m) \<Longrightarrow> reported (map_of (results m') j) (finals j m')"
  shows "all_reported m'"
  using assms by (auto simp: all_reported_def)

lemma all_reported_same: "all_reported m \<Longrightarrow> results m' = results m \<Longrightarrow> notified m' = notified m \<Longrightarrow> all_reported m'"
  by (simp add: all_reported_def finals_def)

section \<open>Each step\<close>

text \<open>The end of an attempt: the report is the result.\<close>

lemma finish_reported:
  assumes inv: "all_reported m" and m: "manager_inv m" and r: "map_of (results m) k = Some r" "res_state r = InProgress"
    and st: "terminal_state st \<or> st = Retry"
    and m': "results m' = change_result k (finish_result st e c) (results m)" "notified m' = notified m @ [finish_result st e c r]"
  shows "all_reported m'"
proof (rule all_reportedI[OF inv])
  fix j assume j: "reported (map_of (results m) j) (finals j m)"
  have k: "task_id (res_task r) = k" using m r(1) by (auto simp: manager_inv_def ledger_def)
  show "reported (map_of (results m') j) (finals j m')"
  proof (cases "j = k")
    case True
    then have "finals j m = []" using j r by (simp add: reported_def)
    then show ?thesis using True m' r(1) st k
      by (auto simp: reported_def finals_def about_def map_of_change_result finish_result_def terminal_state_def)
  next
    case False
    then show ?thesis using j m' k by (simp add: finals_def about_def map_of_change_result finish_result_def)
  qed
qed

text \<open>The service is in error: all waiting tasks are reported as failed.\<close>

lemma filter_by_key:
  assumes "distinct (map fst rs)" and "\<And>k r. (k, r) \<in> set rs \<Longrightarrow> key (f r) = k"
  shows "filter (\<lambda>x. key x = j) (map f (filter P (map snd rs))) = (case map_of rs j of None \<Rightarrow> [] | Some r \<Rightarrow> if P r then [f r] else [])"
  using assms
proof (induction rs)
  case (Cons kr rs)
  obtain k r where kr: "kr = (k, r)" by (cases kr)
  have key: "key (f r) = k" using Cons.prems(2)[of k r] kr by simp
  have "map_of rs k = None" using Cons.prems(1) kr by (simp add: map_of_eq_None_iff)
  then show ?case using Cons.IH Cons.prems kr key by (auto split: option.splits)
qed simp

lemma service_reported:
  assumes inv: "all_reported m" and m: "manager_inv m" and cb: "has_callback m"
  shows "all_reported (set_service_state st m)"
proof (cases "service m \<noteq> st \<and> st = Error")
  case False
  then show ?thesis using inv by (auto simp: set_service_state_def Let_def intro: all_reported_same)
next
  case True
  let ?m = "set_service_state st m"
  have new: "results ?m = change_results fail_result (results m)"
    "notified ?m = notified m @ map fail_result (filter (\<lambda>r. queued_state (res_state r)) (map snd (results m)))"
    using True cb by (auto simp: set_service_state_def Let_def notified_notify)
  have keys: "distinct (map fst (results m))" "\<And>k r. (k, r) \<in> set (results m) \<Longrightarrow> task_id (res_task (fail_result r)) = k"
    using m by (auto simp: manager_inv_def ledger_def results_ok_def fail_result_def)
  have fin: "filter (about j) (map fail_result (filter (\<lambda>r. queued_state (res_state r)) (map snd (results m)))) =
      (case map_of (results m) j of None \<Rightarrow> [] | Some r \<Rightarrow> if queued_state (res_state r) then [fail_result r] else [])" for j
  proof -
    have "filter (about j) (map fail_result (filter (\<lambda>r. queued_state (res_state r)) (map snd (results m)))) =
        filter (\<lambda>x. task_id (res_task x) = j) (map fail_result (filter (\<lambda>r. queued_state (res_state r)) (map snd (results m))))"
      by (rule filter_cong) (auto simp: about_def fail_result_def terminal_state_def)
    also note filter_by_key[where key = "\<lambda>x. task_id (res_task x)" and f = fail_result, OF keys]
    finally show ?thesis .
  qed
  show ?thesis
  proof (rule all_reportedI[OF inv])
    fix j assume "reported (map_of (results m) j) (finals j m)"
    then show "reported (map_of (results ?m) j) (finals j ?m)"
      unfolding finals_def new fin[of j] filter_append
      by (cases "map_of (results m) j") (auto simp: map_of_change_results reported_def fail_result_def queued_state_def split: if_splits)
  qed
qed

lemma worker_reported:
  assumes inv: "all_reported (mgr w)" and m: "manager_inv (mgr w)" and cb: "has_callback (mgr w)"
    and step: "worker_step lc os now i w = Some w'"
  shows "all_reported (mgr w')"
  using step m
proof (cases rule: worker_step_cases)
  case (took item m')
  from took(3) obtain r where r: "map_of (results (mgr w)) (item_id item) = Some r" "queued_state (res_state r)"
    "results m' = change_result (item_id item) take_result (results (mgr w))" "notified m' = notified (mgr w)"
    by (rule take_round_results[OF m])
  then show ?thesis using took(4)
    by (intro all_reportedI[OF inv]) (auto simp: finals_def reported_def map_of_change_result take_result_def queued_state_def)
next
  case (finished item st e c m')
  obtain r where r: "map_of (results (mgr w)) (item_id item) = Some r" "res_state r = InProgress"
    using decided_result[OF m finished(1,2)] by blast
  have "terminal_state st" using worker_in_ok[OF m finished(1)] finished(2) by (simp add: worker_ok_def)
  then show ?thesis using finish_reported[OF inv m r, of st "mgr w'" e c] finished(3,4) cb r(1)
    by (auto simp: complete_task_def notified_notify)
next
  case (disconnected item e c)
  then show ?thesis using service_reported[OF inv m cb, of Disconnected] by (auto intro: all_reported_same)
next
  case (requeued item e c m')
  obtain r where r: "map_of (results (mgr w)) (item_id item) = Some r" "res_state r = InProgress"
    using decided_result[OF m requeued(1,2)] by blast
  let ?st = "if stopping (mgr w) then Cancelled else if service (mgr w) = Error then Failed else Retry"
  have "results (mgr w') = change_result (item_id item) (finish_result ?st e c) (results (mgr w))"
    "notified (mgr w') = notified (mgr w) @ [finish_result ?st e c r]"
    using requeued(3,4) cb r(1) by (auto simp: requeue_task_def Let_def notified_notify)
  then show ?thesis using finish_reported[OF inv m r, of ?st "mgr w'" e c] by (auto simp: terminal_state_def)
qed (use inv in \<open>auto intro: all_reported_same\<close>)

lemma monitor_reported:
  assumes inv: "all_reported (mgr w)" and m: "manager_inv (mgr w)" and cb: "has_callback (mgr w)"
    and step: "monitor_step lc w = Some w'"
  shows "all_reported (mgr w')"
proof -
  have "results (mgr w') = results (mgr w) \<and> notified (mgr w') = notified (mgr w)
      \<or> (\<exists>st. results (mgr w') = results (set_service_state st (mgr w)) \<and> notified (mgr w') = notified (set_service_state st (mgr w)))"
    using step by (auto simp: monitor_step_def Let_def split: option.splits monitor_pc.splits prod.splits)
  then show ?thesis using inv service_reported[OF inv m cb] by (blast intro: all_reported_same)
qed

lemma control_reported:
  assumes inv: "all_reported (mgr w)" and m: "manager_inv (mgr w)" and cb: "has_callback (mgr w)"
    and step: "control_step lc os call w = Some w'"
  shows "all_reported (mgr w')"
  using step
proof (cases rule: control_step_cases)
  case (enqueue now task large)
  then show ?thesis
    by (intro all_reportedI[OF inv]) (auto simp: finals_def reported_def map_of_emplace_result new_result_def split: if_splits)
next
  case (stop m')
  then have "results m' = change_results cancel_result (results (mgr w))" "notified m' = notified (mgr w)"
    by (auto simp: stop_request_def split: if_splits)
  then show ?thesis using stop(3)
    by (intro all_reportedI[OF inv])
       (auto simp: finals_def reported_def map_of_change_results cancel_result_def queued_state_def split: option.splits if_splits)
next
  case signal
  then show ?thesis using service_reported[OF inv m cb] by (simp add: stop_signal_def)
qed (use inv in \<open>auto simp: control_defs intro: all_reported_same split: if_splits\<close>)

section \<open>The program\<close>

definition final_inv :: "program \<Rightarrow> bool" where
  "final_inv p \<longleftrightarrow> reports_inv p \<and> all_reported (mgr (wld p))"

lemma final_inv_step:
  assumes inv: "final_inv p" and step: "program_step lc os p p'"
  shows "final_inv p'"
proof -
  have c: "reports_inv p" "base_inv p" "manager_inv (mgr (wld p))" "has_callback (mgr (wld p))" "all_reported (mgr (wld p))"
    using inv by (auto simp: final_inv_def reports_inv_def calls_inv_def base_inv_def world_inv_def)
  from step have "all_reported (mgr (wld p'))"
  proof cases
    case (main now timed_out)
    from main_step_world[OF c(2) main(2)] show ?thesis using control_reported[OF c(5,3,4)] c(5) by auto
  next
    case (worker now i)
    then show ?thesis using worker_reported[OF c(5,3,4)] by (auto simp: worker_moves_def dest!: thread_moves_world)
  next
    case monitor
    then show ?thesis using monitor_reported[OF c(5,3,4)] by (auto simp: monitor_moves_def dest!: thread_moves_world)
  next
    case (callback t)
    then show ?thesis using c(5) by (auto dest!: callback_step_world)
  qed (use c(5) in simp)
  then show ?thesis using reports_inv_step[OF c(1) step] by (simp add: final_inv_def)
qed

lemma start_results:
  assumes "main_begin lc os env fd fs argv = Inr p"
  shows "results (mgr (wld p)) = []"
  using assms
  by (auto simp: main_begin_def Let_def start_def new_manager_def set_result_callback_def split: if_splits prod.splits option.splits)

interpretation fin: invariant_system "program_start lc os env fd fs argv" "program_step lc os" final_inv
  for lc os env fd fs argv
proof unfold_locales
  show "final_inv p" if "program_start lc os env fd fs argv p" for p
    using rep.inv_init[OF that] main_beginD[of lc os env fd fs argv p] start_results[of lc os env fd fs argv p] that
    by (auto simp: final_inv_def program_start_def all_reported_def finals_def reported_def)
qed (rule final_inv_step)

text \<open>C11. At every moment of a run of the program, the callback has been given exactly one final report about
  a task that is completed or failed, and it is the result that the manager keeps; it has been given
  none about a task that has not ended; and about a cancelled task one or, if the task was waiting when
  it was cancelled, none.\<close>

theorem reported_once:
  assumes "reachable (program_start lc os env fd fs argv) (program_step lc os) p"
    and "map_of (results (mgr (wld p))) j = Some r"
  shows "filter (\<lambda>x. task_id (res_task x) = j \<and> terminal_state (res_state x)) (notified (mgr (wld p)))
    \<in> (if res_state r = Completed \<or> res_state r = Failed then {[r]}
       else if res_state r = Cancelled then {[], [r]} else {[]})"
proof -
  have "reported (Some r) (finals j (mgr (wld p)))"
    using fin.inv_reachable[OF assms(1)] assms(2) unfolding final_inv_def all_reported_def by metis
  then show ?thesis by (auto simp: reported_def finals_def about_def cong: filter_cong)
qed

lemma reported_state: "case demo_program demo_reported of None \<Rightarrow> False | Some p \<Rightarrow>
    map_option res_state (map_of (results (mgr (wld p))) ''t'') = Some Completed"
  by code_simp

theorem reported_once_witness:
  "\<exists>r. filter (\<lambda>x. task_id (res_task x) = ''t'' \<and> terminal_state (res_state x)) (notified (mgr (wld (program_at demo_reported)))) = [r]
     \<and> res_state r = Completed"
proof -
  note p = program_atI[OF reported_state]
  obtain r where r: "map_of (results (mgr (wld (program_at demo_reported)))) ''t'' = Some r" "res_state r = Completed"
    using p(2) by auto
  from reported_once[OF p(1) r(1)] r(2) show ?thesis by auto
qed

end
