(* ===== verification/Task_Lifecycle.thy ===== *)
theory Task_Lifecycle
  imports Scenario
begin

text \<open>
  The life of one task, as an abstract machine: what \<^verbatim>\<open>net/sync_manager.h\<close> means by the values of
  \<open>TaskState\<close> and what \<^verbatim>\<open>net/sync_manager.cpp\<close> may do with a result. The threads of the manager,
  seen through the result of one task, are such a machine; since its life is bounded, every
  result stops changing in every run.
\<close>

section \<open>The specification\<close>

text \<open>
  The result of the task \<open>j\<close>, \<open>None\<close> while it is not known, under a limit of \<open>n\<close> retries. A
  finished task has no successor.
\<close>

definition waiting :: "u32 \<Rightarrow> sync_result \<Rightarrow> bool" where
  "waiting n r \<longleftrightarrow> queued_state (res_state r) \<and> (n \<noteq> UINT_MAX \<longrightarrow> res_attempts r \<le> n)"

inductive life :: "u32 \<Rightarrow> string \<Rightarrow> sync_result option \<Rightarrow> sync_result option \<Rightarrow> bool" for n j where
  submit: "task_id task = j \<Longrightarrow> life n j None (Some (new_result task))"
| attempt: "waiting n r \<Longrightarrow>
    life n j (Some r) (Some (r\<lparr>res_state := InProgress, res_attempts := res_attempts r + 1\<rparr>))"
| finish: "res_state r = InProgress \<Longrightarrow> terminal_state st \<Longrightarrow>
    life n j (Some r) (Some (r\<lparr>res_state := st, res_error := e, res_http_status := c\<rparr>))"
| retry: "res_state r = InProgress \<Longrightarrow> res_attempts r \<le> n \<Longrightarrow>
    life n j (Some r) (Some (r\<lparr>res_state := Retry, res_error := e, res_http_status := c\<rparr>))"
| fail: "waiting n r \<Longrightarrow> res_error r \<noteq> [] \<longrightarrow> e = res_error r \<Longrightarrow>
    life n j (Some r) (Some (r\<lparr>res_state := Failed, res_error := e\<rparr>))"
| cancel: "waiting n r \<Longrightarrow> life n j (Some r) (Some (r\<lparr>res_state := Cancelled\<rparr>))"

inductive_cases life_fromE: "life n j (Some r) x"

text \<open>The state it starts in, and how many changes are left to it.\<close>

definition unknown :: "sync_result option \<Rightarrow> bool" where
  "unknown x \<longleftrightarrow> x = None"

fun changes_left :: "u32 \<Rightarrow> sync_result option \<Rightarrow> nat" where
  "changes_left n None = 2 * unat n + 3"
| "changes_left n (Some r) = (if terminal_state (res_state r) then 0
     else 2 * (unat n + 1 - unat (res_attempts r)) + (if res_state r = InProgress then 1 else 0))"

text \<open>An attempt is counted exactly, as long as the limit is not the largest number.\<close>

lemma unat_attempt: "n \<noteq> UINT_MAX \<Longrightarrow> a \<le> n \<Longrightarrow> unat (a + 1) = unat a + 1" for a n :: u32
proof -
  assume n: "n \<noteq> UINT_MAX" "a \<le> n"
  have "UINT_MAX = - 1" by (simp add: UINT_MAX_def)
  then have "a \<noteq> - 1" using n word_order.extremum_unique by metis
  then have "a + 1 \<noteq> 0" by (metis add_eq_0_iff2)
  then show "unat (a + 1) = unat a + 1" using unatSuc[of a] by (simp add: add.commute[of a])
qed

lemma waitingD:
  assumes "waiting n r" and "n \<noteq> UINT_MAX"
  shows "\<not> terminal_state (res_state r)" "res_state r \<noteq> InProgress" "unat (res_attempts r) \<le> unat n"
    "unat (res_attempts r + 1) = unat (res_attempts r) + 1"
  using assms unat_attempt[OF assms(2)] by (auto simp: waiting_def queued_state_def terminal_state_def word_le_nat_alt)

lemma life_decreases:
  assumes "life n j x y" and "n \<noteq> UINT_MAX"
  shows "changes_left n y < changes_left n x"
  using assms(1)
proof cases
  case (attempt r)
  with waitingD[OF attempt(3) assms(2)] show ?thesis by (simp add: terminal_state_def)
next
  case (fail r e)
  with waitingD[OF fail(3) assms(2)] show ?thesis by (simp add: terminal_state_def)
next
  case (cancel r)
  with waitingD[OF cancel(3) assms(2)] show ?thesis by (simp add: terminal_state_def)
qed (simp_all add: new_result_def terminal_state_def)

section \<open>The manager lives it\<close>

definition life_of :: "string \<Rightarrow> world \<Rightarrow> sync_result option" where
  "life_of j w = map_of (results (mgr w)) j"

abbreviation limit :: "world \<Rightarrow> u32" where
  "limit w \<equiv> max_retries (config (mgr w))"

lemma queued_waiting:
  assumes "manager_inv m" and "map_of (results m) j = Some r" and "queued_state (res_state r)"
  shows "waiting (max_retries (config m)) r"
  using assms by (auto simp: waiting_def manager_inv_def ledger_def attempts_ok_def)

lemma life_service:
  assumes "manager_inv m"
  shows "(life (max_retries (config m)) j)\<^sup>=\<^sup>= (map_of (results m) j) (map_of (results (set_service_state st m)) j)"
proof (cases "map_of (results m) j")
  case None
  then show ?thesis by (simp add: set_service_state_def Let_def map_of_change_results)
next
  case (Some r)
  have "life (max_retries (config m)) j (Some r) (Some (fail_result r))" if "queued_state (res_state r)"
    using life.fail[OF queued_waiting[OF assms Some that], of "if res_error r = [] then _ else res_error r"] that
    by (simp add: fail_result_def)
  then show ?thesis using Some by (auto simp: set_service_state_def Let_def map_of_change_results fail_result_def)
qed

lemma life_cancel:
  assumes "manager_inv m"
  shows "(life (max_retries (config m)) j)\<^sup>=\<^sup>= (map_of (results m) j) (map_option cancel_result (map_of (results m) j))"
  using queued_waiting[OF assms, of j] by (cases "map_of (results m) j") (auto simp: cancel_result_def intro: life.cancel)

lemma life_finish:
  assumes "map_of rs k = Some r" and "res_state r = InProgress" and "terminal_state st \<or> st = Retry \<and> res_attempts r \<le> n"
  shows "(life n j)\<^sup>=\<^sup>= (map_of rs j) (map_of (change_result k (finish_result st e c) rs) j)"
  using assms by (auto simp: map_of_change_result finish_result_def intro: life.finish life.retry)

lemma worker_life:
  assumes m: "manager_inv (mgr w)" and step: "worker_step lc os now i w = Some w'"
  shows "(life (limit w) j)\<^sup>=\<^sup>= (life_of j w) (life_of j w')"
  using step m
proof (cases rule: worker_step_cases)
  case (took item m')
  from took(3) obtain r where r: "map_of (results (mgr w)) (item_id item) = Some r" "queued_state (res_state r)"
    "results m' = change_result (item_id item) take_result (results (mgr w))" by (rule take_round_results[OF m])
  from life.attempt[OF queued_waiting[OF m r(1,2)]] show ?thesis
    using took(4) r(1,3) by (auto simp: life_of_def map_of_change_result take_result_def)
next
  case (finished item st e c m')
  obtain r where r: "map_of (results (mgr w)) (item_id item) = Some r" "res_state r = InProgress"
    using decided_result[OF m finished(1,2)] by blast
  have "terminal_state st" using worker_in_ok[OF m finished(1)] finished(2) by (simp add: worker_ok_def)
  then show ?thesis using life_finish[OF r, of st "limit w" j e c] finished(3,4) by (auto simp: life_of_def complete_task_def r(1))
next
  case (disconnected item e c)
  then show ?thesis using life_service[OF m] by (simp add: life_of_def)
next
  case (requeued item e c m')
  obtain r where r: "map_of (results (mgr w)) (item_id item) = Some r" "res_state r = InProgress"
    using decided_result[OF m requeued(1,2)] by blast
  have "res_attempts r \<le> limit w" using worker_in_ok[OF m requeued(1)] requeued(2) r(1) by (simp add: worker_ok_def)
  with requeued(3) show ?thesis using life_finish[OF r, of _ "limit w" j e c] requeued(4)
    by (cases rule: requeue_task_cases) (auto simp: life_of_def terminal_state_def)
qed (simp_all add: life_of_def)

lemma control_life:
  assumes m: "manager_inv (mgr w)" and step: "control_step lc os call w = Some w'"
  shows "(life (limit w) j)\<^sup>=\<^sup>= (life_of j w) (life_of j w')"
  using step
proof (cases rule: control_step_cases)
  case (enqueue now task large)
  then show ?thesis by (auto simp: life_of_def map_of_emplace_result intro: life.submit)
next
  case (stop m')
  then show ?thesis using life_cancel[OF m, of j] by (auto simp: life_of_def stop_request_def map_of_change_results split: if_splits)
next
  case signal
  then show ?thesis using life_service[OF m] by (simp add: life_of_def stop_signal_def)
qed (auto simp: life_of_def control_defs split: if_splits)

lemma monitor_life:
  assumes m: "manager_inv (mgr w)" and step: "monitor_step lc w = Some w'"
  shows "(life (limit w) j)\<^sup>=\<^sup>= (life_of j w) (life_of j w')"
proof -
  have "results (mgr w') = results (mgr w) \<or> (\<exists>st. results (mgr w') = results (set_service_state st (mgr w)))"
    using step by (auto simp: monitor_step_def Let_def split: option.splits monitor_pc.splits prod.splits)
  then show ?thesis using life_service[OF m, of j] by (elim disjE exE) (simp_all add: life_of_def)
qed

lemma step_life:
  assumes "world_inv w" and "step lc os w w'"
  shows "(life (limit w) j)\<^sup>=\<^sup>= (life_of j w) (life_of j w')"
proof -
  have m: "manager_inv (mgr w)" using assms(1) by (simp add: world_inv_def)
  from assms(2) show ?thesis
    by cases (use m worker_life control_life monitor_life in \<open>auto simp: life_of_def\<close>)
qed

lemma step_config:
  assumes "world_inv w" and "step lc os w w'"
  shows "config (mgr w') = config (mgr w)"
proof -
  have m: "manager_inv (mgr w)" using assms(1) by (simp add: world_inv_def)
  have worker: "config (mgr w') = config (mgr w)" if "worker_step lc os now i w = Some w'" for now i
    using that m by (cases rule: worker_step_cases) (use same_run_ops in \<open>force simp: same_run_def\<close>)+
  have control: "config (mgr w') = config (mgr w)" if "control_step lc os call w = Some w'" for call
    using that by (cases rule: control_step_cases) (auto simp: control_defs split: if_splits)
  from assms(2) show ?thesis
    by cases (use worker control in \<open>auto simp: monitor_step_def Let_def split: option.splits monitor_pc.splits prod.splits\<close>)
qed

text \<open>The manager with a fixed limit simulates the life of each task.\<close>

definition initial_with :: "u32 \<Rightarrow> world \<Rightarrow> bool" where
  "initial_with n w \<longleftrightarrow> initial w \<and> limit w = n"

definition limit_inv :: "u32 \<Rightarrow> world \<Rightarrow> bool" where
  "limit_inv n w \<longleftrightarrow> world_inv w \<and> limit w = n"

interpretation life: simulation "initial_with n" "step lc os" "limit_inv n" unknown "life n j" "life_of j"
  for lc os n j
proof unfold_locales
  show "limit_inv n w" if "initial_with n w" for w
    using that sync.inv_init by (simp add: initial_with_def limit_inv_def)
  show "limit_inv n w'" if "limit_inv n w" "step lc os w w'" for w w'
    using that sync.inv_step[of w lc os w'] step_config[of w lc os w'] by (simp add: limit_inv_def)
  show "reachable unknown (life n j) (life_of j w)" if "initial_with n w" for w
    by (rule reachable_init) (use that in \<open>auto simp: initial_with_def initial_def new_manager_def life_of_def unknown_def\<close>)
  show "(life n j)\<^sup>*\<^sup>* (life_of j w) (life_of j w')" if "limit_inv n w" "step lc os w w'" for w w'
    using step_life[of w lc os w' j] that by (auto simp: limit_inv_def)
qed

text \<open>C5. Whatever a thread does, seen through the result of one task, is a step in the life of the task or
  nothing. So a task is submitted once; it is attempted while it waits, and only within the limit;
  it goes back to waiting or ends after an attempt; it fails or is cancelled while it waits; and a
  task that has ended stays as it is.\<close>

theorem task_lifecycle:
  assumes "reachable initial (step lc os) w" and "step lc os w w'"
  shows "(life (max_retries (config (mgr w))) j)\<^sup>=\<^sup>= (map_of (results (mgr w)) j) (map_of (results (mgr w')) j)"
  using step_life[OF reachable_inv[OF assms(1)] assms(2), of j] by (simp add: life_of_def)

section \<open>Every result settles\<close>

text \<open>C18. In every infinite run of the manager the result of a task changes at most \<open>2 * max_retries + 3\<close>
  times: from some moment on it is what it is. (The limit of retries is not the largest \<open>unsigned int\<close>.)\<close>

theorem results_settle:
  fixes run :: "nat \<Rightarrow> world"
  assumes "initial (run 0)" and "\<And>k. step lc os (run k) (run (Suc k))"
    and "max_retries (config (mgr (run 0))) \<noteq> UINT_MAX"
  shows "card {k. map_of (results (mgr (run (Suc k)))) j \<noteq> map_of (results (mgr (run k))) j}
      \<le> 2 * unat (max_retries (config (mgr (run 0)))) + 3
    \<and> (\<exists>k0. \<forall>k\<ge>k0. map_of (results (mgr (run k))) j = map_of (results (mgr (run k0))) j)"
proof -
  define n where "n = limit (run 0)"
  have inv: "limit_inv n (run k)" for k
  proof (induction k)
    case 0
    show ?case by (rule life.inv_init) (use assms(1) in \<open>simp add: n_def initial_with_def\<close>)
  next
    case (Suc k)
    show ?case by (rule life.inv_step[OF Suc assms(2)])
  qed
  have "changes_left n (life_of j (run (Suc k))) < changes_left n (life_of j (run k))"
    if "life_of j (run (Suc k)) \<noteq> life_of j (run k)" for k
    using step_life[OF _ assms(2), of k j] inv[of k] life_decreases[of n j] assms(3) that
    by (auto simp: limit_inv_def n_def)
  from changes_bounded[of "\<lambda>k. life_of j (run k)" "changes_left n", OF this]
  have c: "finite {k. life_of j (run (Suc k)) \<noteq> life_of j (run k)}"
    "card {k. life_of j (run (Suc k)) \<noteq> life_of j (run k)} \<le> changes_left n (life_of j (run 0))" by auto
  then obtain k0 where k0: "\<forall>k\<in>{k. life_of j (run (Suc k)) \<noteq> life_of j (run k)}. k < k0"
    by (metis finite_nat_set_iff_bounded)
  have "life_of j (run k) = life_of j (run k0)" if "k0 \<le> k" for k
    using that
  proof (induction rule: dec_induct)
    case (step k)
    then have "life_of j (run (Suc k)) = life_of j (run k)" using bspec[OF k0, of k] by (meson CollectI leD)
    then show ?case using step.IH by simp
  qed simp
  moreover have "life_of j (run 0) = None" using assms(1) by (auto simp: initial_def new_manager_def life_of_def)
  ultimately show ?thesis using c(2) by (auto simp: life_of_def n_def)
qed

section \<open>Applied to a run\<close>

definition demo_healthy :: "action list" where
  "demo_healthy = demo_queued @ [Monitor_Acts, Monitor_Acts, Monitor_Acts]"

lemma demo_healthy_state: "case demo_run demo_healthy of None \<Rightarrow> False | Some w \<Rightarrow>
    map_of (results (mgr w)) ''t'' = Some (demo_result Pending 0 0) \<and> max_retries (config (mgr w)) = 3"
  by code_simp

theorem task_lifecycle_witness:
  "life 3 ''t'' (Some (demo_result Pending 0 0)) (Some (demo_result InProgress 1 0))"
proof -
  note u = demo_atI[OF demo_healthy_state] and v = demo_atI[OF demo_taken_state]
  have "demo_run (demo_healthy @ [Worker_Acts 0 0]) = Some (demo_at demo_taken)"
    using v(3) by (simp add: demo_taken_def demo_healthy_def)
  then have "act demo_libcurl demo_os (Worker_Acts 0 0) (demo_at demo_healthy) = Some (demo_at demo_taken)"
    unfolding run_acts_append u(3) by (auto split: option.splits)
  then have "step demo_libcurl demo_os (demo_at demo_healthy) (demo_at demo_taken)"
    by (rule act_step[rotated]) (use reachable_inv[OF u(1)] in \<open>simp add: world_inv_def\<close>)
  from task_lifecycle[OF u(1) this, of "''t''"] u(2) v(2) show ?thesis by (auto simp: demo_result_def)
qed

text \<open>A run that goes on for ever after the last action: the disk is written as it is.\<close>

definition demo_forever :: "nat \<Rightarrow> world" where
  "demo_forever k = demo_at (take k demo_stopped)"

lemma demo_prefix:
  assumes "demo_run (acts @ rest) = Some w"
  shows "demo_run acts = Some (demo_at acts)"
  using assms by (cases "demo_run acts") (auto simp: run_acts_append demo_at_def)

lemma demo_forever_step: "step demo_libcurl demo_os (demo_forever k) (demo_forever (Suc k))"
proof -
  have part: "demo_run (take k demo_stopped) = Some (demo_forever k)" for k
    unfolding demo_forever_def
    by (rule demo_prefix[of _ "drop k demo_stopped" "demo_at demo_stopped"]) (simp add: demo_atI(3)[OF demo_stopped_state])
  have alive: "\<not> crashed (demo_forever k)"
    using reachable_inv[OF run_reachable[OF part[of k] demo_initial]] by (simp add: world_inv_def)
  show ?thesis
  proof (cases "k < length demo_stopped")
    case True
    then have "run_acts demo_libcurl demo_os [demo_stopped ! k] (demo_forever k) = Some (demo_forever (Suc k))"
      using part[of "Suc k"] unfolding take_Suc_conv_app_nth[OF True] run_acts_append part[of k] by simp
    then show ?thesis by (intro act_step[OF alive]) (auto split: option.splits)
  next
    case False
    then have "demo_forever (Suc k) = demo_forever k" by (simp add: demo_forever_def)
    then show ?thesis using step.other_program[OF alive, of _ _ "disk (demo_forever k)"] by simp
  qed
qed

theorem results_settle_witness:
  "card {k. map_of (results (mgr (demo_forever (Suc k)))) ''t'' \<noteq> map_of (results (mgr (demo_forever k))) ''t''} \<le> 9"
proof -
  have "initial (demo_forever 0)" "max_retries (config (mgr (demo_forever 0))) = 3"
    by (auto simp: demo_forever_def demo_at_def demo_world_def initial_def new_manager_def demo_config_def default_config_def)
  with results_settle[of demo_forever demo_libcurl demo_os "''t''", OF _ demo_forever_step] show ?thesis
    by (simp add: UINT_MAX_def)
qed

end
