(* ===== verification/Wakeups.thy ===== *)
theory Wakeups
  imports Sync_Progress
begin

text \<open>
  The condition variables of \<^verbatim>\<open>net/sync_manager.cpp\<close>. In \<open>Sync_Steps\<close> a thread that waits may go on
  as soon as what it waits for holds. Here it sleeps until \<open>notify_all\<close> is called on its
  variable, its time is over, or it wakes for no reason; and a call of \<open>notify_all\<close> that stands
  after the critical section is a step of its own. The theory shows that no wake-up is lost, so
  that the simpler picture is right.
\<close>

section \<open>Sleeping threads\<close>

text \<open>
  The three waits of \<open>take_task\<close> on \<open>queue_cv_\<close>: for the service, for an item, and until the
  first item is ready. \<open>worker_owes\<close> and \<open>control_owes\<close>: the thread has left the critical
  section of \<open>requeue_task\<close> or \<open>enqueue\<close> and has not yet called \<open>queue_cv_.notify_all\<close>.
  \<open>idle_sleeper\<close>: a thread sleeps in \<open>wait_for_idle\<close>, on \<open>idle_cv_\<close>.
\<close>

datatype sleep = Awake | For_Service | For_Item | Until int

record cv_world =
  cvw :: world
  sleeping :: "nat \<Rightarrow> sleep"
  worker_owes :: "nat \<Rightarrow> bool"
  control_owes :: bool
  idle_sleeper :: bool

definition wake_workers :: "cv_world \<Rightarrow> cv_world" where
  "wake_workers s = s\<lparr>sleeping := (\<lambda>i. Awake)\<rparr>"

definition wake_idle :: "cv_world \<Rightarrow> cv_world" where
  "wake_idle s = s\<lparr>idle_sleeper := False\<rparr>"

definition wake_if_idle :: "cv_world \<Rightarrow> cv_world" where
  "wake_if_idle s = (if idle (mgr (cvw s)) then wake_idle s else s)"

section \<open>Steps\<close>

text \<open>The notifications of a worker: those made inside its critical sections, and the one it owes.\<close>

definition worker_signals :: "nat \<Rightarrow> worker_pc \<Rightarrow> cv_world \<Rightarrow> cv_world" where
  "worker_signals i pc s = (case pc of
       Decided item (Finish st error code) \<Rightarrow> wake_if_idle s
     | Decided item (Disconnect error code) \<Rightarrow> wake_idle (wake_workers s)
     | Decided item (Requeue error code) \<Rightarrow> (wake_if_idle s)\<lparr>worker_owes := (worker_owes s)(i := True)\<rparr>
     | _ \<Rightarrow> s)"

definition sleep_for :: "bool \<Rightarrow> int \<Rightarrow> manager \<Rightarrow> sleep" where
  "sleep_for large now m = (case take_round large now m of
       Wait_Notify \<Rightarrow> if service m \<noteq> Connected then For_Service else For_Item
     | Wait_Until t \<Rightarrow> Until t
     | _ \<Rightarrow> Awake)"

definition cv_worker :: "libcurl \<Rightarrow> os \<Rightarrow> int \<Rightarrow> nat \<Rightarrow> cv_world \<Rightarrow> cv_world option" where
  "cv_worker lc os now i s = (let m = mgr (cvw s); wk = workers m ! i in
     if length (workers m) \<le> i \<or> sleeping s i \<noteq> Awake \<or> worker_owes s i then None
     else (case worker_step lc os now i (cvw s) of
         Some w' \<Rightarrow> Some (worker_signals i (w_pc wk) (s\<lparr>cvw := w'\<rparr>))
       | None \<Rightarrow> if w_pc wk = Taking
                 then Some (s\<lparr>sleeping := (sleeping s)(i := sleep_for (w_large wk) now m)\<rparr>) else None))"

text \<open>The monitor calls \<open>set_service_state\<close>, which notifies both variables, after each health check.\<close>

definition probed :: "manager \<Rightarrow> bool" where
  "probed m \<longleftrightarrow> (case monitor m of None \<Rightarrow> False | Some t \<Rightarrow> (case mon_pc t of Probed connected \<Rightarrow> True | _ \<Rightarrow> False))"

definition cv_monitor :: "libcurl \<Rightarrow> cv_world \<Rightarrow> cv_world option" where
  "cv_monitor lc s = map_option (\<lambda>w'. let s' = s\<lparr>cvw := w'\<rparr> in
     if probed (mgr (cvw s)) then wake_idle (wake_workers s') else s') (monitor_step lc (cvw s))"

text \<open>
  The control thread: \<open>set_service_state\<close> inside \<open>stop\<close> notifies, an accepted task has to be
  notified, and \<open>start\<close> makes new threads.
\<close>

definition control_signals :: "world \<Rightarrow> cv_world \<Rightarrow> cv_world" where
  "control_signals w s = (let m = mgr w; m' = mgr (cvw s) in
     if control w = Signalling then wake_idle (wake_workers s)
     else if control w = Ready \<and> started m' \<and> \<not> started m
     then s\<lparr>sleeping := (\<lambda>i. Awake), worker_owes := (\<lambda>i. False)\<rparr>
     else if results m' \<noteq> results m \<and> started m' then s\<lparr>control_owes := True\<rparr>
     else s)"

definition cv_control :: "libcurl \<Rightarrow> os \<Rightarrow> control_call \<Rightarrow> cv_world \<Rightarrow> cv_world option" where
  "cv_control lc os call s = (if control_owes s then None
     else map_option (\<lambda>w'. control_signals (cvw s) (s\<lparr>cvw := w'\<rparr>)) (control_step lc os call (cvw s)))"

definition control_notifies :: "cv_world \<Rightarrow> cv_world" where
  "control_notifies s = wake_workers (s\<lparr>control_owes := False\<rparr>)"

definition worker_notifies :: "nat \<Rightarrow> cv_world \<Rightarrow> cv_world" where
  "worker_notifies i s = wake_workers (s\<lparr>worker_owes := (worker_owes s)(i := False)\<rparr>)"

inductive cv_step :: "libcurl \<Rightarrow> os \<Rightarrow> cv_world \<Rightarrow> cv_world \<Rightarrow> bool" for lc os where
  worker: "\<not> crashed (cvw s) \<Longrightarrow> cv_worker lc os now i s = Some s' \<Longrightarrow> cv_step lc os s s'"
| monitor: "\<not> crashed (cvw s) \<Longrightarrow> cv_monitor lc s = Some s' \<Longrightarrow> cv_step lc os s s'"
| control: "\<not> crashed (cvw s) \<Longrightarrow> cv_control lc os call s = Some s' \<Longrightarrow> cv_step lc os s s'"
| worker_notify: "i < length (workers (mgr (cvw s))) \<Longrightarrow> worker_owes s i \<Longrightarrow> cv_step lc os s (worker_notifies i s)"
| control_notify: "control_owes s \<Longrightarrow> cv_step lc os s (control_notifies s)"
| wake: "cv_step lc os s (s\<lparr>sleeping := (sleeping s)(i := Awake)\<rparr>)"
| idle_wait: "\<not> idle_condition (mgr (cvw s)) \<Longrightarrow> cv_step lc os s (s\<lparr>idle_sleeper := True\<rparr>)"
| idle_wake: "cv_step lc os s (wake_idle s)"
| other_program: "\<not> crashed (cvw s) \<Longrightarrow> cv_step lc os s (s\<lparr>cvw := (cvw s)\<lparr>disk := fs\<rparr>\<rparr>)"

definition cv_initial :: "cv_world \<Rightarrow> bool" where
  "cv_initial s \<longleftrightarrow> initial (cvw s) \<and> \<not> control_owes s \<and> \<not> idle_sleeper s"

section \<open>The same manager\<close>

lemma wake_frame [simp, frame_simps]:
  "cvw (wake_workers s) = cvw s" "cvw (wake_idle s) = cvw s" "cvw (wake_if_idle s) = cvw s"
  "cvw (worker_signals i pc s) = cvw s" "sleeping (wake_workers s) = (\<lambda>i. Awake)" "sleeping (wake_idle s) = sleeping s"
  "sleeping (wake_if_idle s) = sleeping s" "control_owes (wake_workers s) = control_owes s"
  "control_owes (wake_idle s) = control_owes s" "control_owes (wake_if_idle s) = control_owes s"
  "control_owes (worker_signals i pc s) = control_owes s" "worker_owes (wake_workers s) = worker_owes s"
  "worker_owes (wake_idle s) = worker_owes s" "worker_owes (wake_if_idle s) = worker_owes s"
  "idle_sleeper (wake_workers s) = idle_sleeper s" "idle_sleeper (wake_idle s) = False"
  by (auto simp: wake_workers_def wake_idle_def wake_if_idle_def worker_signals_def split: worker_pc.split verdict.split)

lemma cv_worker_cases:
  assumes "cv_worker lc os now i s = Some s'"
  obtains (moved) w' where "i < length (workers (mgr (cvw s)))" "sleeping s i = Awake" "\<not> worker_owes s i"
      "worker_step lc os now i (cvw s) = Some w'"
      "s' = worker_signals i (w_pc (workers (mgr (cvw s)) ! i)) (s\<lparr>cvw := w'\<rparr>)"
  | (slept) "i < length (workers (mgr (cvw s)))" "w_pc (workers (mgr (cvw s)) ! i) = Taking"
      "s' = s\<lparr>sleeping := (sleeping s)(i := sleep_for (w_large (workers (mgr (cvw s)) ! i)) now (mgr (cvw s)))\<rparr>"
  using assms by (auto simp: cv_worker_def Let_def not_le split: if_splits option.splits)

lemma cv_monitor_world: "cv_monitor lc s = Some s' \<Longrightarrow> monitor_step lc (cvw s) = Some (cvw s')"
  by (auto simp: cv_monitor_def Let_def split: if_splits)

lemma cv_control_world:
  assumes "cv_control lc os call s = Some s'"
  shows "control_step lc os call (cvw s) = Some (cvw s')" and "s' = control_signals (cvw s) (s\<lparr>cvw := cvw s'\<rparr>)"
    and "\<not> control_owes s"
  using assms by (auto simp: cv_control_def control_signals_def Let_def split: if_splits)

lemma cv_step_sim:
  assumes "cv_step lc os s s'"
  shows "(step lc os)\<^sup>*\<^sup>* (cvw s) (cvw s')"
  using assms
proof cases
  case (worker now i)
  from worker(2) show ?thesis by (cases rule: cv_worker_cases) (use worker(1) step.worker in auto)
next
  case monitor
  then show ?thesis using step.monitor[OF _ cv_monitor_world] by blast
next
  case (control call)
  then show ?thesis using step.control[OF _ cv_control_world(1)] by blast
next
  case (other_program fs)
  then show ?thesis using step.other_program[of "cvw s"] by auto
qed (auto simp: worker_notifies_def control_notifies_def)

section \<open>No wake-up is lost\<close>

definition notify_due :: "cv_world \<Rightarrow> bool" where
  "notify_due s \<longleftrightarrow> control (cvw s) = Signalling \<or> control_owes s
     \<or> (\<exists>i<length (workers (mgr (cvw s))). worker_owes s i)"

text \<open>What a sleeping worker waits for has not come.\<close>

definition rightly_asleep :: "sleep \<Rightarrow> bool \<Rightarrow> manager \<Rightarrow> bool" where
  "rightly_asleep sl large m \<longleftrightarrow> \<not> stopping m \<and> (case sl of
       Awake \<Rightarrow> True
     | For_Service \<Rightarrow> service m \<noteq> Connected \<and> service m \<noteq> Error
     | For_Item \<Rightarrow> service m = Connected \<and> queue_of large m = []
     | Until t \<Rightarrow> service m = Connected \<and> (\<forall>item\<in>set (queue_of large m). t \<le> ready_at item))"

definition sleepers_ok :: "cv_world \<Rightarrow> bool" where
  "sleepers_ok s \<longleftrightarrow> (\<forall>i<length (workers (mgr (cvw s))). sleeping s i \<noteq> Awake \<longrightarrow>
     w_pc (workers (mgr (cvw s)) ! i) = Taking
     \<and> (notify_due s \<or> rightly_asleep (sleeping s i) (w_large (workers (mgr (cvw s)) ! i)) (mgr (cvw s))))"

definition cv_inv :: "cv_world \<Rightarrow> bool" where
  "cv_inv s \<longleftrightarrow> world_inv (cvw s) \<and> sleepers_ok s \<and> (control_owes s \<longrightarrow> control (cvw s) = Ready)
     \<and> (idle_sleeper s \<longrightarrow> control (cvw s) = Signalling \<or> \<not> idle_condition (mgr (cvw s)))"

lemma sleep_for_right:
  assumes "sleep_for large now m \<noteq> Awake"
  shows "rightly_asleep (sleep_for large now m) large m"
  using assms
  by (auto simp: sleep_for_def take_round_def rightly_asleep_def Let_def split: if_splits option.splits take_outcome.splits)

text \<open>Only the steps that notify, or that have to, give a sleeping worker something to do.\<close>

lemma worker_step_asleep:
  assumes m: "manager_inv (mgr w)" and step: "worker_step lc os now i w = Some w'"
    and asleep: "rightly_asleep sl large (mgr w)"
    and quiet: "\<And>item e c. w_pc (workers (mgr w) ! i) \<noteq> Decided item (Disconnect e c)"
      "\<And>item e c. w_pc (workers (mgr w) ! i) \<noteq> Decided item (Requeue e c)"
  shows "rightly_asleep sl large (mgr w')"
  using step m
proof (cases rule: worker_step_cases)
  case (took item m')
  from took(3) show ?thesis
    by (rule take_round_taken) (use took(4) asleep in \<open>auto simp: rightly_asleep_def queue_of_def split: sleep.splits if_splits\<close>)
next
  case (finished item st e c m')
  then show ?thesis using asleep
    by (auto simp: complete_task_def rightly_asleep_def queue_of_def split: option.splits sleep.splits)
qed (use asleep quiet in \<open>auto simp: rightly_asleep_def queue_of_def split: sleep.splits\<close>)

lemma falls_asleep:
  assumes "sleepers_ok s" and "w_pc (workers (mgr (cvw s)) ! i) = Taking"
  shows "sleepers_ok (s\<lparr>sleeping := (sleeping s)(i := sleep_for (w_large (workers (mgr (cvw s)) ! i)) now (mgr (cvw s)))\<rparr>)"
proof -
  have "notify_due (s\<lparr>sleeping := f\<rparr>) = notify_due s" for f by (simp add: notify_due_def)
  then show ?thesis using assms sleep_for_right by (simp add: sleepers_ok_def)
qed

lemma sleepers_worker:
  assumes inv: "cv_inv s" and step: "cv_worker lc os now i s = Some s'"
  shows "sleepers_ok s'"
  using step
proof (cases rule: cv_worker_cases)
  case (moved w')
  let ?pc = "w_pc (workers (mgr (cvw s)) ! i)"
  have m: "manager_inv (mgr (cvw s))" using inv by (simp add: cv_inv_def world_inv_def)
  note rank = worker_step_rank[OF m moved(4)] and frame = worker_step_frame[OF m moved(4)]
  show ?thesis
  proof (cases "(\<exists>item e c. ?pc = Decided item (Disconnect e c)) \<or> (\<exists>item e c. ?pc = Decided item (Requeue e c))")
    case True
    then show ?thesis
    proof (elim disjE exE)
      fix item e c assume "?pc = Decided item (Disconnect e c)"
      then show ?thesis using moved(5) by (simp add: sleepers_ok_def worker_signals_def)
    next
      fix item e c assume "?pc = Decided item (Requeue e c)"
      then have "notify_due s'" "sleeping s' = sleeping s" "cvw s' = w'"
        using moved(1,5) rank by (auto simp: notify_due_def worker_signals_def)
      then show ?thesis using inv moved(2) rank by (auto simp: cv_inv_def sleepers_ok_def)
    qed
  next
    case False
    then have s': "sleeping s' = sleeping s" "cvw s' = w'" "worker_owes s' = worker_owes s" "control_owes s' = control_owes s"
      using moved(5) by (auto simp: worker_signals_def wake_if_idle_def wake_idle_def split: worker_pc.splits verdict.splits)
    then have due: "notify_due s \<Longrightarrow> notify_due s'" using frame rank by (auto simp: notify_due_def)
    have "rightly_asleep sl large (mgr w')" if "rightly_asleep sl large (mgr (cvw s))" for sl large
      using worker_step_asleep[OF m moved(4) that] False by blast
    then show ?thesis using inv s' due moved(2) rank unfolding cv_inv_def sleepers_ok_def by metis
  qed
next
  case slept
  then show ?thesis using falls_asleep inv by (simp add: cv_inv_def)
qed

lemma monitor_asleep:
  assumes "monitor_step lc w = Some w'" and "\<not> probed (mgr w)"
  shows "rightly_asleep sl large (mgr w') = rightly_asleep sl large (mgr w) \<and> idle_condition (mgr w') = idle_condition (mgr w)"
proof -
  have "service (mgr w') = service (mgr w) \<and> stopping (mgr w') = stopping (mgr w) \<and> small_queue (mgr w') = small_queue (mgr w)
      \<and> large_queue (mgr w') = large_queue (mgr w) \<and> active_tasks (mgr w') = active_tasks (mgr w)"
    using assms by (auto simp: monitor_step_def probed_def Let_def split: option.splits monitor_pc.splits prod.splits)
  then show ?thesis by (cases sl) (auto simp: rightly_asleep_def idle_condition_def idle_def queue_of_def)
qed

lemma sleepers_monitor:
  assumes inv: "cv_inv s" and step: "cv_monitor lc s = Some s'"
  shows "sleepers_ok s'"
proof -
  note w = cv_monitor_world[OF step]
  show ?thesis
  proof (cases "probed (mgr (cvw s))")
    case True
    then show ?thesis using step by (auto simp: cv_monitor_def sleepers_ok_def Let_def)
  next
    case False
    then have s': "s' = s\<lparr>cvw := cvw s'\<rparr>" using step by (auto simp: cv_monitor_def Let_def)
    have same: "sleeping s' = sleeping s" "worker_owes s' = worker_owes s" "control_owes s' = control_owes s" by (subst s', simp)+
    have "notify_due s' = notify_due s" using monitor_step_frame[OF w] same by (simp add: notify_due_def)
    then show ?thesis using inv monitor_step_frame[OF w] monitor_asleep[OF w False] same
      by (auto simp: cv_inv_def sleepers_ok_def)
  qed
qed

text \<open>The control thread.\<close>

lemma control_asleep:
  assumes "control_step lc os call w = Some w'" and "world_inv w" and "control w \<noteq> Signalling"
  obtains (stopped) "workers (mgr w') = []" "control w = Joining"
  | (began) "control w' = Signalling" "workers (mgr w') = workers (mgr w)"
  | (started) "started (mgr w')" "\<not> started (mgr w)" "control w = Ready"
      "\<not> stopping (mgr w')" "service (mgr w') = Connecting" "idle (mgr w') = idle (mgr w)"
  | (queued) "results (mgr w') \<noteq> results (mgr w)" "started (mgr w')" "workers (mgr w') = workers (mgr w)"
      "control w' = control w" "\<not> idle_condition (mgr w') \<or> service (mgr w) = Error"
  | (same) "workers (mgr w') = workers (mgr w)" "control w' = control w"
      "\<And>sl large. rightly_asleep sl large (mgr w') = rightly_asleep sl large (mgr w)"
      "idle_condition (mgr w') = idle_condition (mgr w)"
  using assms(1)
proof (cases rule: control_step_cases)
  case (start error fs)
  then show thesis by (intro that(3)) (simp_all add: idle_def)
next
  case (enqueue now task large)
  have "results (queued_manager now large task (mgr w)) \<noteq> results (mgr w)"
    using enqueue(4) by (auto dest!: arg_cong[of _ _ "\<lambda>rs. map_of rs (task_id task)"] simp: map_of_emplace_result)
  then show thesis using enqueue
    by (intro that(4)) (auto simp: queued_manager_def idle_condition_def idle_def queue_of_def set_queue_def)
next
  case (stop m)
  then show thesis by (intro that(2)) (auto simp: stop_request_def split: if_splits)
next
  case (join m)
  then show thesis by (intro that(1)) (auto simp: stop_join_def split: if_splits)
next
  case (callback present)
  then show thesis
    by (intro that(5)) (auto simp: set_result_callback_def rightly_asleep_def queue_of_def idle_condition_def idle_def split: sleep.split)
qed (use assms(3) that(5) in auto)

lemma sleepers_control:
  assumes inv: "cv_inv s" and step: "cv_control lc os call s = Some s'"
  shows "sleepers_ok s'"
proof (cases "control (cvw s) = Signalling")
  case True
  then have "sleeping s' = (\<lambda>i. Awake)" by (subst cv_control_world(2)[OF step]) (simp add: control_signals_def)
  then show ?thesis by (simp add: sleepers_ok_def)
next
  case False
  define w' where "w' = cvw s'"
  have w: "world_inv (cvw s)" "control_step lc os call (cvw s) = Some w'"
    using inv cv_control_world(1)[OF step] by (auto simp: cv_inv_def w'_def)
  have s': "s' = control_signals (cvw s) (s\<lparr>cvw := w'\<rparr>)" using cv_control_world(2)[OF step] by (simp add: w'_def)
  from w(2,1) False show ?thesis
  proof (cases rule: control_asleep)
    case stopped
    then show ?thesis by (simp add: sleepers_ok_def w'_def)
  next
    case began
    then have "\<not> started (mgr w')" using control_step_inv[OF w] by (auto simp: world_inv_def)
    then have "s' = s\<lparr>cvw := w'\<rparr>" using s' False by (simp add: control_signals_def Let_def)
    then show ?thesis using inv began by (auto simp: cv_inv_def sleepers_ok_def notify_due_def)
  next
    case started
    then show ?thesis using s' by (simp add: control_signals_def Let_def sleepers_ok_def)
  next
    case queued
    then have "sleeping s' = sleeping s \<and> control_owes s' \<or> sleeping s' = (\<lambda>i. Awake)"
      using s' False by (auto simp: control_signals_def Let_def)
    then show ?thesis using inv queued by (auto simp: cv_inv_def sleepers_ok_def notify_due_def w'_def)
  next
    case same
    then have "sleeping s' = sleeping s \<and> worker_owes s' = worker_owes s \<and> (control_owes s \<longrightarrow> control_owes s') \<or> sleeping s' = (\<lambda>i. Awake)"
      using s' False by (auto simp: control_signals_def Let_def)
    then show ?thesis using inv same by (auto simp: cv_inv_def sleepers_ok_def notify_due_def w'_def)
  qed
qed

text \<open>The thread in \<open>wait_for_idle\<close>.\<close>

lemma worker_step_busy:
  assumes m: "manager_inv (mgr w)" and step: "worker_step lc os now i w = Some w'" and busy: "\<not> idle_condition (mgr w)"
    and quiet: "\<And>item e c. w_pc (workers (mgr w) ! i) \<noteq> Decided item (Disconnect e c)"
  shows "\<not> idle_condition (mgr w') \<or> idle (mgr w') \<and> (\<exists>item v. w_pc (workers (mgr w) ! i) = Decided item v)"
  using step m
proof (cases rule: worker_step_cases)
  case (took item m')
  from took(3) show ?thesis by (rule take_round_taken) (use took(4) in \<open>auto simp: idle_condition_def idle_def\<close>)
next
  case (finished item st e c m')
  then show ?thesis using busy by (auto simp: complete_task_def idle_condition_def split: option.splits)
next
  case (requeued item e c m')
  then show ?thesis using busy requeue_task_frame[OF requeued(3)] by (auto simp: idle_condition_def idle_def)
qed (use busy quiet in \<open>auto simp: idle_condition_def idle_def\<close>)

lemma idle_worker:
  assumes inv: "cv_inv s" and step: "cv_worker lc os now i s = Some s'" and sl: "idle_sleeper s'"
  shows "control (cvw s') = Signalling \<or> \<not> idle_condition (mgr (cvw s'))"
  using step
proof (cases rule: cv_worker_cases)
  case (moved w')
  let ?pc = "w_pc (workers (mgr (cvw s)) ! i)"
  have m: "manager_inv (mgr (cvw s))" using inv by (simp add: cv_inv_def world_inv_def)
  have pc: "idle_sleeper s" "?pc \<noteq> Decided item (Disconnect e c)" "?pc = Decided item v \<Longrightarrow> \<not> idle (mgr w')" for item e c v
    using sl moved(5) by (auto simp: worker_signals_def wake_if_idle_def split: worker_pc.splits verdict.splits if_splits)
  show ?thesis
  proof (cases "control (cvw s) = Signalling")
    case True
    then show ?thesis using moved(5) worker_step_frame[OF m moved(4)] by simp
  next
    case False
    then have "\<not> idle_condition (mgr (cvw s))" using inv pc(1) by (simp add: cv_inv_def)
    from worker_step_busy[OF m moved(4) this pc(2)] pc(3) show ?thesis using moved(5) by auto
  qed
next
  case slept
  then show ?thesis using inv sl by (simp add: cv_inv_def)
qed

lemma idle_control:
  assumes inv: "cv_inv s" and step: "cv_control lc os call s = Some s'" and sl: "idle_sleeper s'"
  shows "control (cvw s') = Signalling \<or> \<not> idle_condition (mgr (cvw s'))"
proof -
  define w' where "w' = cvw s'"
  have w: "world_inv (cvw s)" "control_step lc os call (cvw s) = Some w'"
    using inv cv_control_world(1)[OF step] by (auto simp: cv_inv_def w'_def)
  have s': "s' = control_signals (cvw s) (s\<lparr>cvw := w'\<rparr>)" using cv_control_world(2)[OF step] by (simp add: w'_def)
  have False': "control (cvw s) \<noteq> Signalling" using sl s' by (auto simp: control_signals_def)
  then have "idle_sleeper s" using sl s' by (auto simp: control_signals_def Let_def split: if_splits)
  then have busy: "\<not> idle_condition (mgr (cvw s))" using inv False' by (simp add: cv_inv_def)
  from w(2,1) False' have "control w' = Signalling \<or> \<not> idle_condition (mgr w')"
  proof (cases rule: control_asleep)
    case stopped
    then show ?thesis using busy w(1) by (simp add: world_inv_def idle_condition_def)
  qed (use busy in \<open>auto simp: idle_condition_def\<close>)
  then show ?thesis by (simp add: w'_def)
qed

lemma cv_inv_step:
  assumes inv: "cv_inv s" and step: "cv_step lc os s s'"
  shows "cv_inv s'"
proof -
  have w': "world_inv (cvw s')" using sync.inv_steps[OF cv_step_sim[OF step]] inv by (simp add: cv_inv_def)
  from step have "sleepers_ok s' \<and> (control_owes s' \<longrightarrow> control (cvw s') = Ready) \<and> (idle_sleeper s' \<longrightarrow> control (cvw s') = Signalling \<or> \<not> idle_condition (mgr (cvw s')))"
  proof cases
    case (worker now i)
    have "manager_inv (mgr (cvw s))" using inv by (simp add: cv_inv_def world_inv_def)
    from worker(2) have "control_owes s' = control_owes s \<and> control (cvw s') = control (cvw s)"
      by (cases rule: cv_worker_cases) (auto dest: worker_step_frame[OF \<open>manager_inv (mgr (cvw s))\<close>])
    then show ?thesis using sleepers_worker[OF inv worker(2)] idle_worker[OF inv worker(2)] inv by (auto simp: cv_inv_def)
  next
    case monitor
    note w = cv_monitor_world[OF monitor(2)]
    have "(idle_sleeper s' \<longrightarrow> idle_sleeper s \<and> \<not> probed (mgr (cvw s))) \<and> control_owes s' = control_owes s"
      using monitor(2) by (cases "probed (mgr (cvw s))") (auto simp: cv_monitor_def Let_def)
    then show ?thesis using sleepers_monitor[OF inv monitor(2)] inv monitor_asleep[OF w] monitor_step_frame[OF w]
      by (auto simp: cv_inv_def)
  next
    case (control call)
    note c = cv_control_world[OF control(2)]
    have "started (mgr (cvw s'))" if "control_owes s'"
      using that c(3) by (subst (asm) c(2)) (auto simp: control_signals_def Let_def split: if_splits)
    then show ?thesis using sleepers_control[OF inv control(2)] idle_control[OF inv control(2)] w' by (auto simp: world_inv_def)
  qed (use inv in \<open>auto simp: cv_inv_def sleepers_ok_def worker_notifies_def control_notifies_def notify_due_def\<close>)
  then show ?thesis using w' by (simp add: cv_inv_def)
qed

interpretation cv: simulation cv_initial "cv_step lc os" cv_inv initial "step lc os" cvw for lc os
proof unfold_locales
  show "reachable initial (step lc os) (cvw s)" if "cv_initial s" for s
    by (rule reachable_init) (use that in \<open>simp add: cv_initial_def\<close>)
  then show "cv_inv s" if "cv_initial s" for s
    using that reachable_inv[of lc os "cvw s"]
    by (auto simp: cv_initial_def cv_inv_def sleepers_ok_def initial_def new_manager_def)
qed (use cv_inv_step cv_step_sim in blast)+

text \<open>A due notification can be made, and then nobody sleeps.\<close>

definition notification :: "libcurl \<Rightarrow> os \<Rightarrow> cv_world \<Rightarrow> cv_world \<Rightarrow> bool" where
  "notification lc os s s' \<longleftrightarrow> (control_owes s \<and> s' = control_notifies s)
     \<or> (\<exists>i<length (workers (mgr (cvw s))). worker_owes s i \<and> s' = worker_notifies i s)
     \<or> (control (cvw s) = Signalling \<and> cv_control lc os Call_Stop s = Some s')"

lemma notification_wakes: "notification lc os s s' \<Longrightarrow> sleeping s' = (\<lambda>i. Awake)"
  by (auto simp: notification_def control_notifies_def worker_notifies_def cv_control_def control_signals_def Let_def
      split: if_splits)

lemma notification_possible:
  assumes "notify_due s"
  shows "\<exists>s'. notification lc os s s'"
proof (cases "control_owes s \<or> (\<exists>i<length (workers (mgr (cvw s))). worker_owes s i)")
  case True
  then show ?thesis by (auto simp: notification_def)
next
  case False
  then have "control (cvw s) = Signalling" "\<not> control_owes s" using assms by (auto simp: notify_due_def)
  then have "\<exists>s'. cv_control lc os Call_Stop s = Some s'" by (simp add: cv_control_def control_step_def)
  then show ?thesis using \<open>control (cvw s) = Signalling\<close> by (auto simp: notification_def)
qed

lemma rightly_asleep_blocked:
  assumes "rightly_asleep sl large m" and "\<And>t. sl = Until t \<Longrightarrow> now < t" and "sl \<noteq> Awake"
  shows "\<exists>t. take_round large now m = Wait_Notify \<or> take_round large now m = Wait_Until t"
proof -
  have "List.extract (\<lambda>item. ready_at item \<le> now) (queue_of large m) = None" if "service m = Connected"
    using assms that by (cases sl) (force simp: rightly_asleep_def extract_None_iff)+
  then show ?thesis using assms(1,3) by (cases sl) (auto simp: take_round_def rightly_asleep_def Let_def)
qed

text \<open>C21. No wake-up of a worker is lost. While a worker sleeps in \<open>take_task\<close>, either a notification of its
  variable is on its way, which can be made at once and then wakes everybody; or the worker
  could do nothing if it were awake, not before the time it sleeps until.\<close>

theorem no_lost_wakeup:
  assumes "reachable cv_initial (cv_step lc os) s" and "i < length (workers (mgr (cvw s)))" and "sleeping s i \<noteq> Awake"
  shows "(\<exists>s'. notification lc os s s' \<and> sleeping s' = (\<lambda>j. Awake))
    \<or> (\<forall>now. (\<forall>t. sleeping s i = Until t \<longrightarrow> now < t) \<longrightarrow> worker_step lc os now i (cvw s) = None)"
proof (cases "notify_due s")
  case True
  then show ?thesis using notification_possible notification_wakes by blast
next
  case False
  have "w_pc (workers (mgr (cvw s)) ! i) = Taking"
    "rightly_asleep (sleeping s i) (w_large (workers (mgr (cvw s)) ! i)) (mgr (cvw s))"
    using cv.inv_reachable[OF assms(1)] assms(2,3) False by (auto simp: cv_inv_def sleepers_ok_def)
  then have "worker_step lc os now i (cvw s) = None" if "\<forall>t. sleeping s i = Until t \<longrightarrow> now < t" for now
    using rightly_asleep_blocked[of "sleeping s i" _ _ now] that assms(3) by (fastforce simp: worker_step_def Let_def)
  then show ?thesis by blast
qed

text \<open>C22. Nor is one of \<open>wait_for_idle\<close>: whoever sleeps there waits for something that has not happened, or
  a stop has begun and is about to wake him.\<close>

theorem idle_waiter_woken:
  assumes "reachable cv_initial (cv_step lc os) s" and "idle_sleeper s"
  shows "\<not> idle_condition (mgr (cvw s)) \<or> (\<exists>s'. cv_control lc os Call_Stop s = Some s' \<and> \<not> idle_sleeper s')"
  using cv.inv_reachable[OF assms(1)] assms(2)
  by (auto simp: cv_inv_def cv_control_def control_step_def control_signals_def)

end
