(* ===== verification/Wakeup_Runs.thy ===== *)
theory Wakeup_Runs
  imports Wakeups Scenario
begin

text \<open>
  Runs of the manager with its condition variables, in the environment of \<open>Scenario\<close>: a worker
  falls asleep before the service is known to be healthy, and a thread waits for the manager to
  become idle while a stop begins.
\<close>

datatype cv_action = Acts action | Waits_For_Idle | Enqueue_Notifies

fun cv_act :: "libcurl \<Rightarrow> os \<Rightarrow> cv_action \<Rightarrow> cv_world \<Rightarrow> cv_world option" where
  "cv_act lc os (Acts (Worker_Acts now i)) s = cv_worker lc os now i s"
| "cv_act lc os (Acts Monitor_Acts) s = cv_monitor lc s"
| "cv_act lc os (Acts (Control_Acts call)) s = cv_control lc os call s"
| "cv_act lc os Waits_For_Idle s =
     (if idle_condition (mgr (cvw s)) then None else Some (s\<lparr>idle_sleeper := True\<rparr>))"
| "cv_act lc os Enqueue_Notifies s = (if control_owes s then Some (control_notifies s) else None)"

lemma cv_act_step: "\<not> crashed (cvw s) \<Longrightarrow> cv_act lc os a s = Some s' \<Longrightarrow> cv_step lc os s s'"
  by (cases "(lc, os, a, s)" rule: cv_act.cases) (auto intro: cv_step.intros split: if_splits)

fun cv_run :: "libcurl \<Rightarrow> os \<Rightarrow> cv_action list \<Rightarrow> cv_world \<Rightarrow> cv_world option" where
  "cv_run lc os [] s = Some s"
| "cv_run lc os (a # as) s = (case cv_act lc os a s of None \<Rightarrow> None | Some s' \<Rightarrow> cv_run lc os as s')"

lemma cv_run_reachable:
  "cv_run lc os as s = Some s' \<Longrightarrow> reachable cv_initial (cv_step lc os) s \<Longrightarrow> reachable cv_initial (cv_step lc os) s'"
proof (induction as arbitrary: s)
  case (Cons a as)
  then obtain s1 where s1: "cv_act lc os a s = Some s1" "cv_run lc os as s1 = Some s'"
    by (auto split: option.splits)
  have "\<not> crashed (cvw s)" using cv.inv_reachable[OF Cons.prems(2)] by (simp add: cv_inv_def world_inv_def)
  then show ?case using Cons.IH[OF s1(2)] reachable.reachable_step[OF Cons.prems(2) cv_act_step[OF _ s1(1)]] by blast
qed simp

definition demo_cv :: cv_world where
  "demo_cv = \<lparr>cvw = demo_world, sleeping = (\<lambda>i. Awake), worker_owes = (\<lambda>i. False), control_owes = False, idle_sleeper = False\<rparr>"

definition cv_at :: "cv_action list \<Rightarrow> cv_world" where
  "cv_at as = the (cv_run demo_libcurl demo_os as demo_cv)"

lemma cv_atI:
  assumes "case cv_run demo_libcurl demo_os as demo_cv of None \<Rightarrow> False | Some s \<Rightarrow> P s"
  shows "reachable cv_initial (cv_step demo_libcurl demo_os) (cv_at as)" and "P (cv_at as)"
proof -
  have "reachable cv_initial (cv_step demo_libcurl demo_os) demo_cv"
    by (rule reachable_init) (auto simp: cv_initial_def initial_def demo_cv_def demo_world_def)
  then show "reachable cv_initial (cv_step demo_libcurl demo_os) (cv_at as)" "P (cv_at as)"
    using assms cv_run_reachable by (auto simp: cv_at_def split: option.splits)
qed

definition cv_asleep :: "cv_action list" where
  "cv_asleep = [Acts (Control_Acts (Call_Start [])), Acts (Worker_Acts 0 0)]"

definition cv_stopping :: "cv_action list" where
  "cv_stopping = cv_asleep @ [Acts (Control_Acts (Call_Enqueue 0 demo_task [])), Waits_For_Idle, Enqueue_Notifies,
     Acts (Control_Acts Call_Stop)]"

lemma cv_asleep_state: "case cv_run demo_libcurl demo_os cv_asleep demo_cv of None \<Rightarrow> False | Some s \<Rightarrow>
    length (workers (mgr (cvw s))) = 2 \<and> sleeping s 0 = For_Service \<and> control (cvw s) = Ready
    \<and> \<not> control_owes s \<and> \<not> worker_owes s 0 \<and> \<not> worker_owes s 1"
  by code_simp

lemma cv_stopping_state: "case cv_run demo_libcurl demo_os cv_stopping demo_cv of None \<Rightarrow> False | Some s \<Rightarrow>
    idle_sleeper s \<and> idle_condition (mgr (cvw s))"
  by code_simp

theorem no_lost_wakeup_witness:
  "sleeping (cv_at cv_asleep) 0 = For_Service \<and> worker_step demo_libcurl demo_os 7 0 (cvw (cv_at cv_asleep)) = None"
proof -
  note s = cv_atI[OF cv_asleep_state]
  have "\<not> notification demo_libcurl demo_os (cv_at cv_asleep) s'" for s'
    using s(2) by (auto simp: notification_def dest: less_2_cases)
  then show ?thesis using no_lost_wakeup[OF s(1), of 0] s(2) by auto
qed

theorem idle_waiter_woken_witness:
  "\<exists>s'. cv_control demo_libcurl demo_os Call_Stop (cv_at cv_stopping) = Some s' \<and> \<not> idle_sleeper s'"
  using idle_waiter_woken[OF cv_atI(1)[OF cv_stopping_state]] cv_atI(2)[OF cv_stopping_state] by blast

end
