(* ===== verification/Rfs_File.thy ===== *)
theory Rfs_File
  imports Prelude
begin

text \<open>
  \<^verbatim>\<open>include/rfs/fs_file.cpp\<close> and \<^verbatim>\<open>include/rfs/ntfs/ntfs.cpp\<close>: the class \<open>File\<close> over a
  \<open>std::fstream\<close>, its subclass \<open>NtfsFile\<close>, and the test that guards files named \<open>.mounted\<close>.
  The stream is modelled as the C++ library has it: the three state bits, \<open>gcount\<close>, and one
  position for reading and writing, which a file buffer shares. What the device does is the
  parameter \<open>device\<close>.
\<close>

section \<open>The stream\<close>

text \<open>\<open>std::ios_base::openmode\<close>, with the bits of libstdc++.\<close>

type_synonym openmode = u32

abbreviation mode_app :: "openmode \<Rightarrow> bool" where "mode_app m \<equiv> bit m 0"
abbreviation mode_in :: "openmode \<Rightarrow> bool" where "mode_in m \<equiv> bit m 3"
abbreviation mode_out :: "openmode \<Rightarrow> bool" where "mode_out m \<equiv> bit m 4"

definition INT_MAX :: u32 where "INT_MAX = 0x7FFFFFFF"

text \<open>
  \<open>open_file\<close>: the contents of the file right after it was opened, \<open>None\<close> when it cannot be
  opened; \<open>write_fails\<close> and \<open>read_fails\<close>: an I/O error at a position; \<open>close_fails\<close>: an error
  when the buffer is flushed at the end.
\<close>

record device =
  open_file :: "string \<Rightarrow> openmode \<Rightarrow> byte list option"
  read_fails :: "nat \<Rightarrow> bool"
  write_fails :: "nat \<Rightarrow> byte list \<Rightarrow> bool"
  close_fails :: "byte list \<Rightarrow> bool"

record fstream =
  st_open :: bool
  st_bad :: bool
  st_fail :: bool
  st_eof :: bool
  st_gcount :: nat
  st_content :: "byte list"
  st_pos :: nat
  st_mode :: openmode

definition new_stream :: fstream where
  "new_stream = \<lparr>st_open = False, st_bad = False, st_fail = False, st_eof = False, st_gcount = 0,
     st_content = [], st_pos = 0, st_mode = 0\<rparr>"

definition fails :: "fstream \<Rightarrow> bool" where
  "fails s \<longleftrightarrow> st_bad s \<or> st_fail s"

definition stream_good :: "fstream \<Rightarrow> bool" where
  "stream_good s \<longleftrightarrow> \<not> st_bad s \<and> \<not> st_fail s \<and> \<not> st_eof s"

definition stream_clear :: "fstream \<Rightarrow> fstream" where
  "stream_clear s = s\<lparr>st_bad := False, st_fail := False, st_eof := False\<rparr>"

text \<open>A stream that is already open refuses to be opened; a stream that opens has its state cleared.\<close>

definition stream_open :: "device \<Rightarrow> string \<Rightarrow> openmode \<Rightarrow> fstream \<Rightarrow> fstream" where
  "stream_open dev p mode s = (if st_open s then s\<lparr>st_fail := True\<rparr>
     else (case open_file dev p mode of
         None \<Rightarrow> s\<lparr>st_fail := True\<rparr>
       | Some c \<Rightarrow> (stream_clear s)\<lparr>st_open := True, st_content := c,
                     st_pos := (if bit mode 1 then length c else 0), st_mode := mode\<rparr>))"

definition stream_close :: "device \<Rightarrow> fstream \<Rightarrow> fstream" where
  "stream_close dev s =
     s\<lparr>st_open := False, st_fail := st_fail s \<or> \<not> st_open s \<or> close_fails dev (st_content s)\<rparr>"

text \<open>\<open>read\<close>: the stream afterwards and the bytes stored in the buffer.\<close>

definition stream_read :: "device \<Rightarrow> nat \<Rightarrow> fstream \<Rightarrow> fstream \<times> byte list" where
  "stream_read dev n s =
     (if \<not> stream_good s then (s\<lparr>st_gcount := 0, st_fail := True\<rparr>, [])
      else if read_fails dev (st_pos s) then (s\<lparr>st_gcount := 0, st_bad := True\<rparr>, [])
      else let got = take n (if mode_in (st_mode s) then drop (st_pos s) (st_content s) else [])
           in (s\<lparr>st_gcount := length got, st_pos := st_pos s + length got,
                 st_eof := (length got < n), st_fail := (length got < n)\<rparr>, got))"

definition overwrite :: "byte list \<Rightarrow> nat \<Rightarrow> byte list \<Rightarrow> byte list" where
  "overwrite c at bs = take at c @ replicate (at - length c) 0 @ bs @ drop (at + length bs) c"

definition stream_write :: "device \<Rightarrow> byte list \<Rightarrow> fstream \<Rightarrow> fstream" where
  "stream_write dev bs s =
     (if \<not> stream_good s then s\<lparr>st_fail := st_fail s \<or> st_bad s\<rparr>
      else if \<not> (mode_out (st_mode s) \<or> mode_app (st_mode s)) \<or> write_fails dev (st_pos s) bs
      then s\<lparr>st_bad := True\<rparr>
      else let at = (if mode_app (st_mode s) then length (st_content s) else st_pos s)
           in s\<lparr>st_content := overwrite (st_content s) at bs, st_pos := at + length bs\<rparr>)"

datatype seekdir = Beg | Cur | End

text \<open>Where a seek leads, \<open>None\<close> when before the beginning; one position for both directions.\<close>

definition seek_target :: "int \<Rightarrow> seekdir \<Rightarrow> fstream \<Rightarrow> nat option" where
  "seek_target off dir s =
     (let p = off + (case dir of Beg \<Rightarrow> 0 | Cur \<Rightarrow> int (st_pos s) | End \<Rightarrow> int (length (st_content s)))
      in if p < 0 then None else Some (nat p))"

definition seek_to :: "nat option \<Rightarrow> fstream \<Rightarrow> fstream" where
  "seek_to target s = (if fails s then s
     else (case target of None \<Rightarrow> s\<lparr>st_fail := True\<rparr> | Some p \<Rightarrow> s\<lparr>st_pos := p\<rparr>))"

definition seekg :: "int \<Rightarrow> seekdir \<Rightarrow> fstream \<Rightarrow> fstream" where
  "seekg off dir s = (let s1 = s\<lparr>st_eof := False\<rparr> in seek_to (seek_target off dir s1) s1)"

definition seekp :: "int \<Rightarrow> seekdir \<Rightarrow> fstream \<Rightarrow> fstream" where
  "seekp off dir s = seek_to (seek_target off dir s) s"

text \<open>Both -1 on a failed stream.\<close>

definition tellg :: "fstream \<Rightarrow> int" where
  "tellg s = (if fails s then -1 else int (st_pos s))"

definition tellp :: "fstream \<Rightarrow> int" where
  "tellp s = (if fails s then -1 else int (st_pos s))"

section \<open>Files\<close>

definition filename :: "char set \<Rightarrow> string \<Rightarrow> string" where
  "filename seps p = rev (takeWhile (\<lambda>c. c \<notin> seps) (rev p))"

definition is_target_mounted_file :: "string \<Rightarrow> bool" where
  "is_target_mounted_file p =
     (let name = filename {CHR ''/''} p
      in name = ''.mounted'' \<or> str_find ''.mounted:'' name = Some 0)"

definition is_target_mounted_file_win :: "string \<Rightarrow> bool" where
  "is_target_mounted_file_win p =
     (let name = filename {CHR ''/'', CHR 0x5C} (map tolower p)
      in name = ''.mounted'' \<or> str_find ''.mounted:'' name = Some 0)"

record rfs_file =
  stream :: fstream
  fpath :: string
  last_error :: int

definition new_file :: rfs_file where
  "new_file = \<lparr>stream = new_stream, fpath = [], last_error = 0\<rparr>"

definition update_error_state :: "rfs_file \<Rightarrow> rfs_file" where
  "update_error_state f = f\<lparr>last_error :=
     (if st_bad (stream f) then 2 else if fails (stream f) then 1 else 0)\<rparr>"

definition file_is_open :: "rfs_file \<Rightarrow> bool" where
  "file_is_open f = st_open (stream f)"

definition file_open :: "device \<Rightarrow> string \<Rightarrow> openmode \<Rightarrow> rfs_file \<Rightarrow> bool \<times> rfs_file" where
  "file_open dev p mode f =
     (if is_target_mounted_file p then (False, f\<lparr>last_error := 5\<rparr>)
      else let f1 = update_error_state (f\<lparr>fpath := p, stream := stream_open dev p mode (stream f)\<rparr>)
           in (file_is_open f1, f1))"

definition file_close :: "device \<Rightarrow> rfs_file \<Rightarrow> rfs_file" where
  "file_close dev f = (if st_open (stream f)
     then update_error_state (f\<lparr>stream := stream_close dev (stream f)\<rparr>) else f)"

definition file_destroy :: "device \<Rightarrow> rfs_file \<Rightarrow> rfs_file" where
  "file_destroy dev f = (if file_is_open f then file_close dev f else f)"

definition file_read :: "device \<Rightarrow> nat \<Rightarrow> rfs_file \<Rightarrow> int \<times> byte list \<times> rfs_file" where
  "file_read dev n f = (if \<not> file_is_open f then (-1, [], f\<lparr>last_error := -1\<rparr>)
     else case stream_read dev n (stream f) of (s, got) \<Rightarrow>
       (int (st_gcount s), got, update_error_state (f\<lparr>stream := s\<rparr>)))"

definition file_write :: "device \<Rightarrow> byte list \<Rightarrow> rfs_file \<Rightarrow> int \<times> rfs_file" where
  "file_write dev bs f = (if \<not> file_is_open f then (-1, f\<lparr>last_error := -1\<rparr>)
     else let f1 = update_error_state (f\<lparr>stream := stream_write dev bs (stream_clear (stream f))\<rparr>)
          in (if fails (stream f1) \<and> \<not> st_bad (stream f1) then -1 else int (length bs), f1))"

definition file_seek :: "int \<Rightarrow> seekdir \<Rightarrow> rfs_file \<Rightarrow> bool \<times> rfs_file" where
  "file_seek off dir f = (if \<not> file_is_open f then (False, f\<lparr>last_error := -1\<rparr>)
     else let f1 = update_error_state (f\<lparr>stream := seekp off dir (seekg off dir (stream_clear (stream f)))\<rparr>)
          in (\<not> fails (stream f1), f1))"

text \<open>\<open>seekg(pos)\<close> and \<open>seekp(pos)\<close> with the position saved before; -1 fails.\<close>

definition seek_saved :: "int \<Rightarrow> fstream \<Rightarrow> fstream" where
  "seek_saved p s = (let s1 = seek_to (if p < 0 then None else Some (nat p)) (s\<lparr>st_eof := False\<rparr>)
     in seek_to (if p < 0 then None else Some (nat p)) s1)"

definition file_length :: "rfs_file \<Rightarrow> int \<times> rfs_file" where
  "file_length f = (if \<not> file_is_open f then (-1, f\<lparr>last_error := -1\<rparr>)
     else let s1 = stream_clear (stream f);
              current_pos = (if tellg s1 = -1 then tellp s1 else tellg s1);
              s2 = seekg 0 End s1;
              sz = tellg s2
          in (sz, update_error_state (f\<lparr>stream := seek_saved current_pos s2\<rparr>)))"

definition get_last_error :: "rfs_file \<Rightarrow> int" where
  "get_last_error f = last_error f"

definition get_path :: "rfs_file \<Rightarrow> string" where
  "get_path f = fpath f"

section \<open>NTFS files\<close>

text \<open>The constructor and the destructor do what those of \<open>File\<close> do.\<close>

definition new_ntfs_file :: rfs_file where
  "new_ntfs_file = new_file"

definition ntfs_destroy :: "device \<Rightarrow> rfs_file \<Rightarrow> rfs_file" where
  "ntfs_destroy dev f = file_destroy dev f"

definition ntfs_open :: "device \<Rightarrow> string \<Rightarrow> openmode \<Rightarrow> rfs_file \<Rightarrow> bool \<times> rfs_file" where
  "ntfs_open dev p mode f =
     (if p = [] \<or> length p > 32767 then (False, f)
      else if mode = INT_MAX then (False, f)
      else file_open dev p mode f)"

text \<open>
  What \<open>get_file_info\<close> is to fill in, as \<^verbatim>\<open>include/rfs/ntfs/ntfs.h\<close> declares it outside Windows; an
  \<open>unsigned long\<close> has 64 bits there and a \<open>wchar_t\<close> 32. Of the two name fields, arrays of 260 and of 14
  elements, the model keeps the elements as lists.
\<close>

record file_time =
  dwLowDateTime :: u64
  dwHighDateTime :: u64

record find_data =
  dwFileAttributes :: u64
  ftCreationTime :: file_time
  ftLastAccessTime :: file_time
  ftLastWriteTime :: file_time
  nFileSizeHigh :: u64
  nFileSizeLow :: u64
  dwReserved0 :: u64
  dwReserved1 :: u64
  cFileName :: "u32 list"
  cAlternateFileName :: "u32 list"

text \<open>
  \<open>get_file_info\<close>: the argument is \<open>None\<close> for a null pointer, else the structure it points to; the
  result has the structure as it is afterwards. The Windows variant calls \<open>FindFirstFileW\<close>, a
  parameter, which fills the structure in when it finds the file.
\<close>

definition get_file_info :: "find_data option \<Rightarrow> rfs_file \<Rightarrow> bool \<times> find_data option \<times> rfs_file" where
  "get_file_info info f =
     (if info = None \<or> fpath f = [] then (False, info, f)
      else if is_target_mounted_file (fpath f) then (False, info, f\<lparr>last_error := 2\<rparr>)
      else (False, info, f\<lparr>last_error := 1\<rparr>))"

definition get_file_info_win ::
  "(string \<Rightarrow> find_data option) \<Rightarrow> find_data option \<Rightarrow> rfs_file \<Rightarrow> bool \<times> find_data option \<times> rfs_file" where
  "get_file_info_win find_first info f =
     (if info = None \<or> fpath f = [] then (False, info, f)
      else if is_target_mounted_file_win (fpath f) then (False, info, f\<lparr>last_error := 2\<rparr>)
      else (case find_first (fpath f) of None \<Rightarrow> (False, info, f) | Some d \<Rightarrow> (True, Some d, f)))"

definition open_stream :: "device \<Rightarrow> string \<Rightarrow> string \<Rightarrow> openmode \<Rightarrow> rfs_file \<Rightarrow> bool \<times> rfs_file" where
  "open_stream dev p stream_name mode f = ntfs_open dev (p @ '':'' @ stream_name) mode f"


section \<open>The guard\<close>

lemma str_find_zero: "p \<noteq> [] \<Longrightarrow> str_find p s = Some 0 \<longleftrightarrow> prefix p s"
  by (cases s) auto

lemma filename_split:
  obtains dir where "p = dir @ filename seps p" "dir = [] \<or> last dir \<in> seps" "set (filename seps p) \<inter> seps = {}"
proof -
  let ?dir = "rev (dropWhile (\<lambda>c. c \<notin> seps) (rev p))"
  have "rev p = takeWhile (\<lambda>c. c \<notin> seps) (rev p) @ dropWhile (\<lambda>c. c \<notin> seps) (rev p)" by simp
  then have "p = ?dir @ filename seps p" unfolding filename_def by (metis rev_append rev_rev_ident)
  moreover have "?dir = [] \<or> last ?dir \<in> seps"
    using hd_dropWhile[of "\<lambda>c. c \<notin> seps" "rev p"] by (auto simp: last_rev)
  moreover have "set (filename seps p) \<inter> seps = {}" unfolding filename_def by (auto dest: set_takeWhileD)
  ultimately show thesis by (rule that)
qed

lemma filename_append:
  assumes "dir = [] \<or> last dir \<in> seps" and "set name \<inter> seps = {}"
  shows "filename seps (dir @ name) = name"
proof -
  have "takeWhile (\<lambda>c. c \<notin> seps) (rev name @ rev dir) = rev name"
    using assms by (subst takeWhile_append2) (auto simp: hd_rev takeWhile_eq_Nil_iff)
  then show ?thesis by (simp add: filename_def)
qed

definition guarded_name :: "string \<Rightarrow> bool" where
  "guarded_name name \<longleftrightarrow> name = ''.mounted'' \<or> prefix ''.mounted:'' name"


text \<open>The operations of a file, in any order.\<close>

datatype file_call =
    File_Open string openmode | Ntfs_Open string openmode | Open_Stream string string openmode
  | File_Close | File_Read nat | File_Write "byte list" | File_Seek int seekdir | File_Size | File_Info "find_data option"

definition file_step :: "device \<Rightarrow> file_call \<Rightarrow> rfs_file \<Rightarrow> rfs_file" where
  "file_step dev c f = (case c of
       File_Open p mode \<Rightarrow> snd (file_open dev p mode f)
     | Ntfs_Open p mode \<Rightarrow> snd (ntfs_open dev p mode f)
     | Open_Stream p name mode \<Rightarrow> snd (open_stream dev p name mode f)
     | File_Close \<Rightarrow> file_close dev f
     | File_Read n \<Rightarrow> snd (snd (file_read dev n f))
     | File_Write bs \<Rightarrow> snd (file_write dev bs f)
     | File_Seek off dir \<Rightarrow> snd (file_seek off dir f)
     | File_Size \<Rightarrow> snd (file_length f)
     | File_Info info \<Rightarrow> snd (snd (get_file_info info f)))"

lemma update_error_state_frame [simp, frame_simps]:
  "fpath (update_error_state f) = fpath f" "stream (update_error_state f) = stream f"
  by (simp_all add: update_error_state_def)

lemma file_open_path: "\<not> is_target_mounted_file (fpath f) \<Longrightarrow> \<not> is_target_mounted_file (fpath (snd (file_open dev p mode f)))"
  by (simp add: file_open_def Let_def)

lemma file_step_path:
  "\<not> is_target_mounted_file (fpath f) \<Longrightarrow> \<not> is_target_mounted_file (fpath (file_step dev c f))"
  by (cases c) (auto simp: file_step_def open_stream_def ntfs_open_def file_open_path file_close_def file_read_def
      file_write_def file_seek_def file_length_def get_file_info_def Let_def split: prod.split)

lemma mounted_empty: "\<not> is_target_mounted_file []"
  by (simp add: is_target_mounted_file_def filename_def)

text \<open>C36. No sequence of operations gets a file object onto a guarded path: the path of the object is never a
  guarded one, and the attempt to open one fails with the error 5 and leaves the rest alone.\<close>

theorem mounted_never_opened:
  "\<not> is_target_mounted_file (fpath (fold (file_step dev) calls new_file))
   \<and> file_open dev (dir @ ''/.mounted'') mode f = (False, f\<lparr>last_error := 5\<rparr>)"
proof
  have "\<not> is_target_mounted_file (fpath (fold (file_step dev) calls f))" if "\<not> is_target_mounted_file (fpath f)" for f
    using that by (induction calls arbitrary: f) (simp_all add: file_step_path)
  from this[of new_file] show "\<not> is_target_mounted_file (fpath (fold (file_step dev) calls new_file))"
    by (simp add: new_file_def mounted_empty)
  have "filename {CHR ''/''} ((dir @ ''/'') @ ''.mounted'') = ''.mounted''" by (rule filename_append) auto
  then show "file_open dev (dir @ ''/.mounted'') mode f = (False, f\<lparr>last_error := 5\<rparr>)"
    by (simp add: file_open_def is_target_mounted_file_def)
qed

text \<open>A stream of a guarded file is guarded too, unless its name contains a slash.\<close>

lemma stream_of_guarded:
  assumes "is_target_mounted_file p" and "CHR ''/'' \<notin> set name"
  shows "fst (open_stream dev p name mode f) = False \<and> stream (snd (open_stream dev p name mode f)) = stream f
    \<and> fpath (snd (open_stream dev p name mode f)) = fpath f"
proof -
  obtain dir where d: "p = dir @ filename {CHR ''/''} p" "dir = [] \<or> last dir \<in> {CHR ''/''}"
    "set (filename {CHR ''/''} p) \<inter> {CHR ''/''} = {}" by (rule filename_split)
  let ?n = "filename {CHR ''/''} p @ '':'' @ name"
  have "filename {CHR ''/''} (dir @ ?n) = ?n" by (rule filename_append) (use d assms(2) in auto)
  moreover have "p @ '':'' @ name = dir @ ?n" using d(1) by (metis append_assoc)
  ultimately have "filename {CHR ''/''} (p @ '':'' @ name) = ?n" by (simp only:)
  moreover have "prefix ''.mounted:'' ?n"
    using assms(1) by (auto simp: is_target_mounted_file_def Let_def str_find_zero prefix_def)
  ultimately have "is_target_mounted_file (p @ '':'' @ name)"
    by (simp add: is_target_mounted_file_def str_find_zero Let_def)
  then show ?thesis by (simp add: open_stream_def ntfs_open_def file_open_def)
qed

section \<open>Reading and writing\<close>

lemma overwrite_read: "take (length bs) (drop at (overwrite c at bs)) = bs"
  by (cases "at \<le> length c") (simp_all add: overwrite_def)

lemma stream_write_ok:
  assumes "st_open s" and "mode_out (st_mode s)" and "\<not> mode_app (st_mode s)" and "\<not> write_fails dev (st_pos s) bs"
  shows "stream_write dev bs (stream_clear s) =
    (stream_clear s)\<lparr>st_content := overwrite (st_content s) (st_pos s) bs, st_pos := st_pos s + length bs\<rparr>"
  using assms by (simp add: stream_write_def stream_clear_def stream_good_def Let_def)

text \<open>C38. What is written to a file open for both directions is read back after seeking to where it was
  written, and both operations report the whole length.\<close>

theorem write_seek_read:
  assumes "file_is_open f" and "mode_in (st_mode (stream f))" and "mode_out (st_mode (stream f))"
    and "\<not> mode_app (st_mode (stream f))" and "\<not> write_fails dev (st_pos (stream f)) bs"
    and "\<not> read_fails dev (st_pos (stream f))"
  shows "\<exists>f1 f2 f3. file_write dev bs f = (int (length bs), f1)
    \<and> file_seek (int (st_pos (stream f))) Beg f1 = (True, f2)
    \<and> file_read dev (length bs) f2 = (int (length bs), bs, f3) \<and> last_error f3 = 0"
proof -
  let ?s = "stream f"
  let ?s1 = "(stream_clear ?s)\<lparr>st_content := overwrite (st_content ?s) (st_pos ?s) bs, st_pos := st_pos ?s + length bs\<rparr>"
  let ?s2 = "?s1\<lparr>st_pos := st_pos ?s\<rparr>"
  have w: "stream_write dev bs (stream_clear ?s) = ?s1"
    using stream_write_ok assms by (simp add: file_is_open_def)
  have "file_write dev bs f = (int (length bs), update_error_state (f\<lparr>stream := ?s1\<rparr>))"
    using assms(1) w by (simp add: file_write_def Let_def fails_def stream_clear_def)
  moreover have "file_seek (int (st_pos ?s)) Beg (update_error_state (f\<lparr>stream := ?s1\<rparr>))
      = (True, update_error_state (f\<lparr>stream := ?s2\<rparr>))"
    using assms(1) by (simp add: file_seek_def file_is_open_def seekg_def seekp_def seek_to_def seek_target_def
        fails_def stream_clear_def update_error_state_def Let_def)
  moreover have "stream_read dev (length bs) ?s2
      = (?s2\<lparr>st_gcount := length bs, st_pos := st_pos ?s + length bs\<rparr>, bs)"
    using assms(2,6) overwrite_read[of bs "st_pos ?s" "st_content ?s"]
    by (simp add: stream_read_def stream_good_def stream_clear_def Let_def)
  then have "\<exists>f3. file_read dev (length bs) (update_error_state (f\<lparr>stream := ?s2\<rparr>)) = (int (length bs), bs, f3)
      \<and> last_error f3 = 0"
    using assms(1) by (simp add: file_read_def file_is_open_def update_error_state_def fails_def stream_clear_def)
  ultimately show ?thesis by blast
qed

text \<open>\<open>size\<close> of an open file is the length of its contents, and neither moves the position nor changes
  the contents.\<close>

lemma file_length_correct:
  assumes "file_is_open f"
  shows "fst (file_length f) = int (length (st_content (stream f)))
    \<and> stream (snd (file_length f)) = stream_clear (stream f)
    \<and> last_error (snd (file_length f)) = 0"
  using assms
  by (simp add: file_length_def seekg_def seek_to_def seek_target_def seek_saved_def tellg_def fails_def
      stream_clear_def update_error_state_def Let_def)

section \<open>Deviations\<close>

text \<open>A seek relative to the current position moves the file by twice the offset, because the code moves
  the reading and the writing position in turn and a file buffer has one position for both.\<close>

lemma seek_relative_twice:
  assumes "file_is_open f"
  shows "fst (file_seek (int k) Cur f) \<and> st_pos (stream (snd (file_seek (int k) Cur f))) = st_pos (stream f) + 2 * k"
proof -
  have "nat (int k + (int k + int n)) = n + 2 * k" for n by simp
  then show ?thesis
    using assms by (simp add: file_seek_def seekg_def seekp_def seek_to_def seek_target_def fails_def
        stream_clear_def Let_def nat_add_distrib)
qed

text \<open>A write that the device refuses, or one to a file opened for reading only, reports the full length
  although nothing was written; only \<open>last_error\<close> shows it.\<close>

lemma failed_write_reports_length:
  assumes "file_is_open f"
    and "write_fails dev (st_pos (stream f)) bs \<or> \<not> (mode_out (st_mode (stream f)) \<or> mode_app (st_mode (stream f)))"
  shows "fst (file_write dev bs f) = int (length bs)
    \<and> st_content (stream (snd (file_write dev bs f))) = st_content (stream f)
    \<and> last_error (snd (file_write dev bs f)) = 2"
  using assms by (auto simp: file_write_def stream_write_def stream_good_def stream_clear_def update_error_state_def Let_def)

text \<open>Opening a second file on an object whose file is still open reports success and takes over the new
  path, while the stream stays on the old file; only \<open>last_error\<close> shows it.\<close>

lemma reopen_keeps_old_file:
  assumes "file_is_open f" and "\<not> is_target_mounted_file p"
  shows "fst (file_open dev p mode f) \<and> fpath (snd (file_open dev p mode f)) = p
    \<and> st_content (stream (snd (file_open dev p mode f))) = st_content (stream f)
    \<and> last_error (snd (file_open dev p mode f)) \<noteq> 0"
  using assms by (simp add: file_open_def file_is_open_def stream_open_def update_error_state_def fails_def Let_def)

section \<open>Applications\<close>

definition demo_device :: device where
  "demo_device = \<lparr>open_file = (\<lambda>p mode. Some [1, 2, 3]), read_fails = (\<lambda>n. False),
     write_fails = (\<lambda>n bs. bs = [7]), close_fails = (\<lambda>c. False)\<rparr>"

text \<open>A file opened for reading and writing (the bits 3 and 4).\<close>

definition demo_file :: rfs_file where
  "demo_file = snd (file_open demo_device ''/a'' 24 new_file)"

lemma demo_file_facts:
  "demo_file = \<lparr>stream = new_stream\<lparr>st_open := True, st_content := [1, 2, 3], st_mode := 24\<rparr>, fpath = ''/a'', last_error = 0\<rparr>"
  by code_simp

lemma stream_of_guarded_example:
  "fst (open_stream demo_device ''/x/.mounted'' ''s'' 24 new_file) = False"
proof -
  have "is_target_mounted_file ''/x/.mounted''" by code_simp
  from stream_of_guarded[OF this, of "''s''"] show ?thesis by simp
qed

theorem write_seek_read_witness:
  "\<exists>f1 f2 f3. file_write demo_device [4, 5] demo_file = (2, f1) \<and> file_seek 0 Beg f1 = (True, f2)
     \<and> file_read demo_device 2 f2 = (2, [4, 5], f3) \<and> last_error f3 = 0"
  using write_seek_read[of demo_file demo_device "[4, 5]"]
  by (simp add: demo_file_facts file_is_open_def new_stream_def demo_device_def bit_numeral_rec numeral_2_eq_2)

lemma file_length_correct_example: "fst (file_length demo_file) = 3"
  using file_length_correct[of demo_file] by (simp add: demo_file_facts file_is_open_def)

lemma seek_relative_twice_example: "st_pos (stream (snd (file_seek 1 Cur demo_file))) = 2"
  using seek_relative_twice[of demo_file 1] by (simp add: demo_file_facts file_is_open_def new_stream_def)

lemma failed_write_reports_length_example:
  "fst (file_write demo_device [7] demo_file) = 1 \<and> st_content (stream (snd (file_write demo_device [7] demo_file))) = [1, 2, 3]"
  using failed_write_reports_length[of demo_file demo_device "[7]"]
  by (simp add: demo_file_facts file_is_open_def new_stream_def demo_device_def)

lemma reopen_keeps_old_file_example:
  "fst (file_open demo_device ''/b'' 24 demo_file) \<and> st_content (stream (snd (file_open demo_device ''/b'' 24 demo_file))) = [1, 2, 3]"
proof -
  have "\<not> is_target_mounted_file ''/b''" by code_simp
  from reopen_keeps_old_file[OF _ this, of demo_file demo_device 24] show ?thesis
    by (simp add: demo_file_facts file_is_open_def)
qed

end
