(* ===== verification/Kuse.thy ===== *)
theory Kuse
  imports Reborn
begin

text \<open>
  \<^verbatim>\<open>include/kuse/pkernel.h\<close>, \<^verbatim>\<open>include/kuse/pkernel.cpp\<close> and \<^verbatim>\<open>include/kuse/procexec.h\<close>: the classes
  \<open>PKernel\<close> and \<open>ProcExec\<close>, clients of \<open>Socket<Request>\<close>. No target builds these files and they
  do not compile, for reasons outside the function bodies: an assignment stands among the
  members of \<open>PKernel\<close>, one function lacks its opening brace, \<open>ProcExec\<close> does not construct its
  base. The bodies are modelled as they read. The value that the misplaced assignment may give to the
  member \<open>socket\<close> is a parameter of the constructor, and the base part of \<open>ProcExec\<close>, which the
  bodies of \<open>ProcExec\<close> never touch, is left out. The member \<open>kmodules\<close>, which no operation uses,
  the log lines and the sleep of ten seconds are not modelled.

  Two ways of not returning are kept apart: \<open>Undefined\<close> is a call of a library function outside its
  contract (a null pointer given to \<open>strcmp\<close> or compared with a string), and \<open>None\<close> is a
  loop that never ends.
\<close>

section \<open>Behaviours\<close>

datatype 'a behaviour = Undefined | Returns 'a

fun after :: "'a behaviour \<Rightarrow> ('a \<Rightarrow> 'b behaviour) \<Rightarrow> 'b behaviour" where
  "after Undefined f = Undefined"
| "after (Returns x) f = f x"

text \<open>Whether a C string is the given text, by \<open>strcmp\<close> or by \<open>operator==\<close>.\<close>

definition text_equal :: "c_string \<Rightarrow> string \<Rightarrow> bool behaviour" where
  "text_equal a s = (case a of None \<Rightarrow> Undefined | Some x \<Rightarrow> Returns (x = s))"

section \<open>PKernel\<close>

text \<open>
  The object, with its own address and a copy of the socket it points to. The static member
  \<open>is_init\<close> belongs to all objects, so it is passed beside the object. The type \<open>char\<close> has
  eight bits.
\<close>

record pkernel =
  address :: nat
  k_socket :: socket
  k_argc :: "string list list"
  argc :: byte
  stop_reason :: string
  m_processes_userspace :: "c_string list"
  m_processes_kernelspace :: "nat list"

definition k_send :: "string \<Rightarrow> pkernel \<Rightarrow> pkernel" where
  "k_send req k = k\<lparr>k_socket := snd (sendRequest (Some req) (k_socket k))\<rparr>"

definition new_pkernel :: "int \<Rightarrow> nat \<Rightarrow> socket option \<Rightarrow> string \<Rightarrow> pkernel behaviour" where
  "new_pkernel fd this sock reason =
     (let s = (case sock of None \<Rightarrow> new_socket fd (Some ''/tmp/voidr.sock'') | Some s \<Rightarrow> s);
          k = k_send ''INIT'' \<lparr>address = this, k_socket = s, k_argc = [], argc = 0, stop_reason = reason,
                 m_processes_userspace = [], m_processes_kernelspace = []\<rparr>
      in after (text_equal (getAnswer (k_socket k)) ''ERR'') (\<lambda>err.
           Returns (if err then k_send ''END'' k else k)))"

definition destroy_pkernel :: "pkernel \<Rightarrow> pkernel" where
  "destroy_pkernel k = k_send ''SIGEND'' k"

definition isExec :: "pkernel option \<Rightarrow> bool \<Rightarrow> bool" where
  "isExec kern is_init = (case kern of None \<Rightarrow> is_init | Some other \<Rightarrow> is_init)"

definition PKernel_Init :: "c_string \<Rightarrow> pkernel \<times> bool \<Rightarrow> int \<times> pkernel \<times> bool" where
  "PKernel_Init arg = (\<lambda>(k, is_init).
     if \<not> is_init
     then (0, k_send ''SIGINIT'' (k\<lparr>argc := if arg \<noteq> None then 1 else 0,
                m_processes_userspace := m_processes_userspace k @ [arg],
                m_processes_kernelspace := m_processes_kernelspace k @ [address k]\<rparr>), True)
     else (0, k, is_init))"

text \<open>The loop of \<open>initk\<close>; nothing in it changes \<open>is_init\<close>.\<close>

partial_function (option) serve_loop :: "bool \<Rightarrow> pkernel \<Rightarrow> pkernel option" where
  "serve_loop is_init k =
     (if \<not> is_init then Some k
      else Option.bind (processRequests (k_socket k)) (\<lambda>r.
        if getLastStatus (snd r) = ERR then Some (k\<lparr>k_socket := snd r\<rparr>)
        else serve_loop is_init (k\<lparr>k_socket := snd r\<rparr>)))"

declare serve_loop.simps [code]

definition initk :: "string list option \<Rightarrow> pkernel \<times> bool \<Rightarrow> (int \<times> pkernel \<times> bool) option" where
  "initk argv = (\<lambda>(k, is_init).
     let args = (case argv of None \<Rightarrow> [] | Some xs \<Rightarrow> xs);
         k1 = k\<lparr>k_argc := k_argc k @ [args], argc := of_nat (length args)\<rparr>;
         (code, k2, is_init2) = (if args \<noteq> [] then PKernel_Init (c_str (hd args)) (k1, is_init) else (0, k1, is_init))
     in map_option (\<lambda>k'. (0, k', is_init2)) (serve_loop is_init2 k2))"

text \<open>
  The two functions that free the kernel. Both are declared \<open>[[noreturn]]\<close> and reach the end of
  their body; the model gives the state there.
\<close>

definition no_send_request :: "string \<Rightarrow> string list \<Rightarrow> bool" where
  "no_send_request v row \<longleftrightarrow> 2 \<le> length row \<and> row ! 0 = ''__no_send_request'' \<and> row ! 1 = v"

definition critical_row :: "string list \<Rightarrow> pkernel \<times> bool \<Rightarrow> pkernel \<times> bool" where
  "critical_row row = (\<lambda>(k, is_init).
     if no_send_request ''true'' row then (k, is_init)
     else if no_send_request ''false'' row then (k_send ''SIGCRIT'' k, False)
     else (k, is_init))"

definition kernel_critical_free :: "pkernel \<times> bool \<Rightarrow> pkernel \<times> bool" where
  "kernel_critical_free = (\<lambda>(k, is_init).
     if isExec (Some k) is_init \<or> is_init then fold critical_row (k_argc k) (k, is_init) else (k, is_init))"

definition safe_row :: "string list \<Rightarrow> pkernel \<Rightarrow> pkernel" where
  "safe_row row k = (if no_send_request ''true'' row then k_send ''SIGNULL'' k else k)"

definition kernel_safe_free :: "pkernel \<times> bool \<Rightarrow> pkernel \<times> bool" where
  "kernel_safe_free = (\<lambda>(k, is_init).
     (if isExec (Some k) is_init \<or> is_init then fold safe_row (k_argc k) k else k, False))"

section \<open>ProcExec\<close>

record procexec =
  p_socket :: socket
  proc_buffer :: "string list list"
  kernel_buffer :: "string list list"
  p_uid :: "32 word"
  p_pid :: "32 word"
  p_stat :: char

text \<open>\<open>std::to_string\<close> of an \<open>int\<close>, and the largest \<open>char\<close> (a signed type here).\<close>

definition int_text :: "32 word \<Rightarrow> string" where
  "int_text x = to_string_signed (sint x)"

definition CHAR_MAX :: nat where
  "CHAR_MAX = 127"

definition p_send :: "string \<Rightarrow> procexec \<Rightarrow> procexec" where
  "p_send req p = p\<lparr>p_socket := snd (sendRequest (c_str req) (p_socket p))\<rparr>"

text \<open>The loop of \<open>waitForLPE\<close> is left in its first round.\<close>

definition waitForLPE :: "procexec \<Rightarrow> bool behaviour" where
  "waitForLPE p = after (text_equal (getAnswer (p_socket p)) ''ACCEPT_OK'') (\<lambda>accepted.
     text_equal (getAnswer (p_socket p)) ''ACCEPT_OK'')"

definition provide :: "procexec option \<Rightarrow> bool \<Rightarrow> string \<Rightarrow> procexec \<Rightarrow> (bool \<times> procexec) behaviour" where
  "provide proc kernelspace param p = (case proc of
       None \<Rightarrow> Returns (False, p)
     | Some q \<Rightarrow>
         let first = int_text (p_pid q) @ '';'' @ int_text (p_uid q) @ '';'' @ param @ '';'';
             request = int_text (p_pid q) @ int_text (p_uid q) @ param
         in after (if kernelspace then Returns p
                   else let p1 = p_send first p in after (waitForLPE p1) (\<lambda>ok. Returns p1)) (\<lambda>p1.
            if length request = CHAR_MAX then Returns (False, p1)
            else let p2 = p_send request p1 in after (waitForLPE p2) (\<lambda>ok. Returns (True, p2))))"

text \<open>The constructor: the cases of its \<open>switch\<close> run on into each other.\<close>

definition proc_row :: "procexec \<Rightarrow> string \<Rightarrow> string list" where
  "proc_row p name = [int_text (p_uid p), int_text (p_pid p), [p_stat p], name]"

definition provide_row :: "string \<Rightarrow> string \<Rightarrow> procexec \<Rightarrow> procexec behaviour" where
  "provide_row param name p = after (provide (Some p) True param p) (\<lambda>(ok, p').
     Returns (if ok then p'\<lparr>kernel_buffer := kernel_buffer p' @ [proc_row p' name]\<rparr> else p'))"

definition case_0 :: "string \<Rightarrow> procexec \<Rightarrow> procexec behaviour" where
  "case_0 name p = provide_row ''root'' name p"

definition case_10 :: "string \<Rightarrow> procexec \<Rightarrow> procexec behaviour" where
  "case_10 name p = after (provide_row ''srv'' name p) (case_0 name)"

definition case_100 :: "string \<Rightarrow> procexec \<Rightarrow> procexec behaviour" where
  "case_100 name p = after (provide (Some p) False ''user_srv'' p) (\<lambda>(ok, p'). case_10 name p')"

definition new_procexec :: "int \<Rightarrow> 32 word \<Rightarrow> 32 word \<Rightarrow> char \<Rightarrow> string \<Rightarrow> procexec behaviour" where
  "new_procexec fd uid pid stat name =
     (let p = \<lparr>p_socket = new_socket fd (Some ''/tmp/proc-block.sock''), proc_buffer = [], kernel_buffer = [],
               p_uid = uid, p_pid = pid, p_stat = stat\<rparr>
      in after (if pid = 10000 \<or> pid = 1000 \<or> pid = 100 then case_100 name p
                else if pid = 10 then case_10 name p
                else if pid = 0 then case_0 name p
                else Returns p) (\<lambda>p'.
         Returns (p'\<lparr>proc_buffer := proc_buffer p' @ [proc_row p' name]\<rparr>)))"

definition getProcBuffer :: "procexec \<Rightarrow> string list list" where
  "getProcBuffer p = proc_buffer p"

definition getKernelBuffer :: "procexec \<Rightarrow> string list list \<times> procexec" where
  "getKernelBuffer p = (let p' = p_send ''ROOTBUF'' p in
     (if getLastStatus (p_socket p') = OK then kernel_buffer p' else [], p'))"

section \<open>What a socket can answer\<close>

text \<open>
  Sending does not process: a socket answers only after \<open>processRequests\<close>, and then never with
  an error.
\<close>

definition healthy :: "socket \<Rightarrow> bool" where
  "healthy s \<longleftrightarrow> socket_ok s \<and> getLastStatus s \<noteq> ERR \<and> (getAnswer s = None \<or> getAnswer s = Some ''OK'')"

lemma healthy_new: "healthy (new_socket fd path)"
  by (simp add: healthy_def socket_ok_def new_socket_def getLastStatus_def getAnswer_def)

lemma kept_getters [simp, frame_simps]:
  "getAnswer (snd (sendRequest r s)) = getAnswer s" "getLastStatus (snd (sendRequest r s)) = getLastStatus s"
  "getAnswer (fst (snd (close s))) = getAnswer s" "getLastStatus (fst (snd (close s))) = getLastStatus s"
  "getAnswer (snd (setSocketPath r s)) = getAnswer s" "getLastStatus (snd (setSocketPath r s)) = getLastStatus s"
  by (auto simp: sendRequest_def enqueueRequest_def push_back_def close_def setSocketPath_def getAnswer_def getLastStatus_def
      split: option.split)

lemma healthy_process:
  assumes "healthy s"
  obtains st s' where "processRequests s = Some (st, s')" "healthy s'"
proof -
  let ?s = "if buffer s = [] then s else s\<lparr>buffer := [], last_status := OK, answer := Some ''OK''\<rparr>"
  have "processRequests s = Some (if buffer s = [] then ERR else OK, ?s)"
    using process_loop_drains[of s ERR] assms by (simp add: healthy_def processRequests_def)
  moreover have "healthy ?s" using assms by (simp add: healthy_def socket_ok_def getLastStatus_def getAnswer_def)
  ultimately show thesis by (rule that)
qed

lemma healthy_step:
  assumes "healthy s"
  shows "\<exists>s'. socket_step c s = Some s' \<and> healthy s'"
proof -
  obtain s' where s': "socket_step c s = Some s'" "socket_ok s'" using socket_step_ok assms by (auto simp: healthy_def)
  show ?thesis
  proof (cases c)
    case Call_Process
    from healthy_process[OF assms] Call_Process show ?thesis by (fastforce simp: socket_step_def)
  qed (use s' assms in \<open>auto simp: socket_step_def healthy_def\<close>)
qed

lemma healthy_reached:
  assumes "foldM socket_step calls (new_socket fd path) = Some s"
  shows "healthy s"
  using foldM_total[where f = socket_step and invar = healthy, OF healthy_step healthy_new[of fd path], of calls] assms by auto

lemma healthy_send: "healthy s \<Longrightarrow> healthy (snd (sendRequest r s))"
  using healthy_step[of s "Call_Send r"] by (simp add: socket_step_def)

lemma k_send_socket [simp]: "k_socket (k_send req k) = snd (sendRequest (Some req) (k_socket k))"
  by (simp add: k_send_def)

section \<open>The kernel\<close>

text \<open>The constructor compares the answer before anything could have answered.\<close>

lemma kernel_never_constructed:
  assumes "\<And>s. sock = Some s \<Longrightarrow> getAnswer s = None"
  shows "new_pkernel fd this sock reason = Undefined"
proof (cases sock)
  case None
  then show ?thesis by (simp add: new_pkernel_def text_equal_def) (simp add: new_socket_def getAnswer_def)
qed (use assms in \<open>simp add: new_pkernel_def text_equal_def\<close>)

lemma serve_loop_never_ends:
  assumes "healthy (k_socket k)"
  shows "serve_loop True k = None"
proof -
  have "is_init \<longrightarrow> \<not> healthy (k_socket t)" if "serve_loop is_init t = Some x" for is_init t x
  proof (rule serve_loop.raw_induct[where P = "\<lambda>is_init t x. is_init \<longrightarrow> \<not> healthy (k_socket t)", OF _ that], intro impI notI)
    fix loop is_init t x
    assume IH: "\<And>is_init t x. loop is_init t = Some x \<Longrightarrow> is_init \<longrightarrow> \<not> healthy (k_socket t)"
      and eq: "(if \<not> is_init then Some t else Option.bind (processRequests (k_socket t)) (\<lambda>r.
        if getLastStatus (snd r) = ERR then Some (t\<lparr>k_socket := snd r\<rparr>)
        else loop is_init (t\<lparr>k_socket := snd r\<rparr>))) = Some x"
      and t: "is_init" "healthy (k_socket t)"
    obtain st s' where s': "processRequests (k_socket t) = Some (st, s')" "healthy s'" using t(2) by (rule healthy_process)
    then have "loop is_init (t\<lparr>k_socket := s'\<rparr>) = Some x" using eq t(1) by (simp add: healthy_def)
    then show False using IH t(1) s'(2) by fastforce
  qed
  then show ?thesis using assms by (cases "serve_loop True k") auto
qed



text \<open>
  \<open>kernel_critical_free\<close> sends \<open>SIGCRIT\<close> once for each row that asks for it, and stops the kernel
  exactly when there is one; the process lists keep what is in them.
\<close>

lemma critical_rows:
  "\<exists>k'. fold critical_row rows (k, is_init) = (k', is_init \<and> \<not> (\<exists>row\<in>set rows. no_send_request ''false'' row))
     \<and> map payload (buffer (k_socket k')) = map payload (buffer (k_socket k))
         @ replicate (length (filter (no_send_request ''false'') rows)) ''SIGCRIT''
     \<and> m_processes_userspace k' = m_processes_userspace k \<and> m_processes_kernelspace k' = m_processes_kernelspace k"
proof (induction rows arbitrary: k is_init)
  case (Cons row rows)
  have sent: "map payload (buffer (k_socket (k_send ''SIGCRIT'' k))) = map payload (buffer (k_socket k)) @ [''SIGCRIT'']"
    by (simp add: sendRequest_def enqueueRequest_def push_back_def new_request_def)
  show ?case
  proof (cases "no_send_request ''false'' row")
    case True
    then have "critical_row row (k, is_init) = (k_send ''SIGCRIT'' k, False)"
      by (auto simp: critical_row_def no_send_request_def)
    then show ?thesis using Cons.IH[of "k_send ''SIGCRIT'' k" False] True sent by (auto simp: k_send_def)
  next
    case False
    then have "critical_row row (k, is_init) = (k, is_init)" by (simp add: critical_row_def)
    then show ?thesis using Cons.IH[of k is_init] False by simp
  qed
qed auto

lemma critical_free_effect:
  obtains k' where "kernel_critical_free (k, True) = (k', \<not> (\<exists>row\<in>set (k_argc k). no_send_request ''false'' row))"
    "map payload (buffer (k_socket k')) = map payload (buffer (k_socket k))
       @ replicate (length (filter (no_send_request ''false'') (k_argc k))) ''SIGCRIT''"
    "m_processes_userspace k' = m_processes_userspace k" "m_processes_kernelspace k' = m_processes_kernelspace k"
  using critical_rows[of "k_argc k" k True] by (auto simp: kernel_critical_free_def isExec_def)

section \<open>The process\<close>

lemma p_send_answer [simp]: "getAnswer (p_socket (p_send req p)) = getAnswer (p_socket p)"
  by (simp add: p_send_def)

lemma length_to_string: "n < 10 ^ d \<Longrightarrow> 0 < d \<Longrightarrow> length (to_string n) \<le> d"
proof (induction d arbitrary: n)
  case (Suc d)
  show ?case
  proof (cases "n < 10")
    case True
    then show ?thesis by (subst to_string.simps) simp
  next
    case False
    then have "0 < d" using Suc.prems(1) by (cases d) auto
    moreover have "n div 10 < 10 ^ d" using Suc.prems(1) by (simp add: div_less_iff_less_mult mult.commute)
    ultimately show ?thesis using Suc.IH[of "n div 10"] False by (subst to_string.simps) simp
  qed
qed simp

lemma length_int_text: "length (int_text x) \<le> 11"
proof -
  have "- (2 ^ 31) \<le> sint x" "sint x < 2 ^ 31" using sint_greater_eq[of x] sint_less[of x] by simp_all
  then have "nat (- sint x) < 10 ^ 10" "nat (sint x) < 10 ^ 10" by simp_all
  from this[THEN length_to_string] show ?thesis by (auto simp: int_text_def to_string_signed_def)
qed

lemma provide_unanswered:
  assumes "getAnswer (p_socket p) = None" and "length param < 100"
  shows "provide (Some p) kernelspace param p = Undefined"
proof -
  have "length (int_text (p_pid p) @ int_text (p_uid p) @ param) \<noteq> CHAR_MAX"
    using length_int_text[of "p_pid p"] length_int_text[of "p_uid p"] assms(2) by (simp add: CHAR_MAX_def)
  then show ?thesis using assms(1) by (simp add: provide_def waitForLPE_def text_equal_def Let_def)
qed


end
