(* ===== verification/Sha256_Vectors.thy ===== *)
theory Sha256_Vectors
  imports Sha256
begin

text \<open>
  The published test vector of FIPS 180-4 for the message \<open>abc\<close>, computed by the code's own
  functions. Since these are proved equal to \<open>sha256_spec\<close>, it holds of the specification too, so
  that the constants both share are the standard's.
\<close>

lemma abc_computed: "Option.bind (foldM update [[0x61], [0x62, 0x63]] sha256_init) finish =
   Some ''ba7816bf8f01cfea414140de5dae2223b00361a396177a9cb410ff61f20015ad''"
  by code_simp

lemma abc_specified:
  "sha256_spec [0x61, 0x62, 0x63] = ''ba7816bf8f01cfea414140de5dae2223b00361a396177a9cb410ff61f20015ad''"
  using update_chunks_finish[of "[[0x61], [0x62, 0x63]]"] abc_computed by simp

end
