(* ===== verification/Log_Output.thy ===== *)
theory Log_Output
  imports Prelude
begin

text \<open>
  \<^verbatim>\<open>include/log/log.h\<close>: the function \<open>output\<close>, which writes one line to standard output under a lock of its
  own. How a duration is printed with six decimals is the parameter \<open>fixed6\<close>; times are numbers of
  ticks of the steady clock. The components that call \<open>output\<close> are modelled without these calls,
  since nothing reads what they write.
\<close>

text \<open>The static local \<open>start_time\<close>, set by the first call, and what has been written so far.\<close>

record log =
  start_time :: "int option"
  written :: string

definition new_log :: log where
  "new_log = \<lparr>start_time = None, written = []\<rparr>"

record log_call =
  entered :: int
  read_at :: int
  caller :: string
  error_code :: int
  message :: string

definition log_line :: "(int \<Rightarrow> string) \<Rightarrow> int \<Rightarrow> log_call \<Rightarrow> string" where
  "log_line fixed6 start c = ''[ '' @ fixed6 (read_at c - start) @ '' '' @ caller c @ '' ''
     @ to_string_signed (error_code c) @ '' '' @ message c"

definition log_output :: "(int \<Rightarrow> string) \<Rightarrow> log_call \<Rightarrow> log \<Rightarrow> log" where
  "log_output fixed6 c l = (let start = (case start_time l of None \<Rightarrow> entered c | Some t \<Rightarrow> t) in
     \<lparr>start_time = Some start, written = written l @ log_line fixed6 start c @ [CHR 0x0A]\<rparr>)"

text \<open>
  The calls of several threads are ordered by the lock. Whatever the order, a reader who cuts
  the text at the line ends finds one line for each call, in that order.
\<close>

fun cut_lines :: "string \<Rightarrow> string \<Rightarrow> string list" where
  "cut_lines line [] = []"
| "cut_lines line (c # cs) = (if c = CHR 0x0A then line # cut_lines [] cs else cut_lines (line @ [c]) cs)"

lemma cut_line: "CHR 0x0A \<notin> set s \<Longrightarrow> cut_lines line (s @ CHR 0x0A # rest) = (line @ s) # cut_lines [] rest"
  by (induction s arbitrary: line) auto

lemma output_lines:
  assumes "\<And>c. c \<in> set calls \<Longrightarrow> CHR 0x0A \<notin> set (log_line fixed6 t c)" and "start_time l = Some t"
  shows "\<exists>rest. written (fold (log_output fixed6) calls l) = written l @ rest \<and> cut_lines [] rest = map (log_line fixed6 t) calls"
  using assms
proof (induction calls arbitrary: l)
  case (Cons c calls)
  let ?l = "log_output fixed6 c l"
  have l: "start_time ?l = Some t" "written ?l = written l @ log_line fixed6 t c @ [CHR 0x0A]"
    using Cons.prems(2) by (simp_all add: log_output_def Let_def)
  obtain rest where "written (fold (log_output fixed6) calls ?l) = written ?l @ rest" "cut_lines [] rest = map (log_line fixed6 t) calls"
    using Cons.IH[OF _ l(1)] Cons.prems(1) by auto
  then show ?case using l(2) cut_line[of "log_line fixed6 t c" "[]" rest] Cons.prems(1)
    by (intro exI[of _ "log_line fixed6 t c @ CHR 0x0A # rest"]) simp
qed simp

lemma one_line_per_call:
  assumes "calls \<noteq> []" and "\<And>c. c \<in> set calls \<Longrightarrow> CHR 0x0A \<notin> set (log_line fixed6 (entered (hd calls)) c)"
  shows "cut_lines [] (written (fold (log_output fixed6) calls new_log)) = map (log_line fixed6 (entered (hd calls))) calls"
proof -
  let ?t = "entered (hd calls)"
  obtain c cs where c: "calls = c # cs" using assms(1) by (cases calls) auto
  let ?l = "log_output fixed6 c new_log"
  have l: "start_time ?l = Some ?t" "written ?l = log_line fixed6 ?t c @ [CHR 0x0A]"
    using c by (simp_all add: log_output_def new_log_def Let_def)
  obtain rest where "written (fold (log_output fixed6) cs ?l) = written ?l @ rest" "cut_lines [] rest = map (log_line fixed6 ?t) cs"
    using output_lines[OF _ l(1), of cs fixed6] assms(2) c by auto
  then show ?thesis using l(2) c cut_line[of "log_line fixed6 ?t c" "[]" rest] assms(2) by simp
qed

end
